(* ===== verification/Prelude.thy ===== *)
theory Prelude
  imports Main "HOL-Library.Word"
begin

text \<open>
  Shared vocabulary of the development: machine integers, the fault monad in which every
  C operation that may leave the language (out-of-bounds access, null dereference, a failed
  assertion, a call of exit) is a value, byte buffers with bounds-checked access, C strings
  and the little-endian layout of the integers that cross a socket.  The lemmas here are the
  ones several components use; the collection \<open>cres_simps\<close> drives the evaluation of
  monadic code and \<open>buf_simps\<close> the reasoning about buffers.
\<close>

unbundle bit_operations_syntax

named_theorems cres_simps "evaluation of the fault monad"
named_theorems buf_simps "reading and writing byte buffers"

type_synonym u8 = "8 word"
type_synonym u16 = "16 word"
type_synonym u32 = "32 word"
type_synonym bytes = "u8 list"

section \<open>The fault monad\<close>

text \<open>
  \<open>OOB\<close> is a read or write outside the object a pointer points into, \<open>NullDeref\<close> a
  dereference of NULL, \<open>Uninit\<close> a use of an uninitialised object, \<open>AssertFailed\<close> a failed assert, \<open>Exited\<close> a call of exit,
  \<open>Overflow\<close> a signed addition beyond the range of int, \<open>Killed\<close> the end of the process by SIGPIPE, and
  \<open>OutOfFuel\<close> says that a loop was cut off by its fuel (never a behaviour of the code:
  each use of fuel comes with a lemma that says how much is enough).
\<close>

datatype fault = OOB | NullDeref | Uninit | AssertFailed | Exited int | Overflow | Killed | OutOfFuel

type_synonym 'a cres = "fault + 'a"

definition cbind :: "'a cres \<Rightarrow> ('a \<Rightarrow> 'b cres) \<Rightarrow> 'b cres" where
  "cbind m f = (case m of Inl e \<Rightarrow> Inl e | Inr x \<Rightarrow> f x)"

lemma cbind_Inl [simp, cres_simps]: "cbind (Inl e) f = Inl e"
  by (simp add: cbind_def)

lemma cbind_Inr [simp, cres_simps]: "cbind (Inr x) f = f x"
  by (simp add: cbind_def)

lemma cbind_eq_Inr_iff [cres_simps]:
  "cbind m f = Inr y \<longleftrightarrow> (\<exists>x. m = Inr x \<and> f x = Inr y)"
  by (cases m) (simp_all add: cbind_def)

lemma cbind_eq_Inl_iff [cres_simps]:
  "cbind m f = Inl e \<longleftrightarrow> m = Inl e \<or> (\<exists>x. m = Inr x \<and> f x = Inl e)"
  by (cases m) (simp_all add: cbind_def)

lemma cbind_cong [fundef_cong]:
  "m = m' \<Longrightarrow> (\<And>x. m' = Inr x \<Longrightarrow> f x = g x) \<Longrightarrow> cbind m f = cbind m' g"
  by (cases m') (simp_all add: cbind_def)

lemma cbind_assoc: "cbind (cbind m f) g = cbind m (\<lambda>x. cbind (f x) g)"
  by (cases m) simp_all

text \<open>A pointer that may be NULL is an option; using it dereferences it.\<close>

definition deref :: "'a option \<Rightarrow> 'a cres" where
  "deref p = (case p of None \<Rightarrow> Inl NullDeref | Some x \<Rightarrow> Inr x)"

lemma deref_simps [simp, cres_simps]: "deref None = Inl NullDeref" "deref (Some x) = Inr x"
  by (simp_all add: deref_def)

lemma deref_eq_Inr_iff [cres_simps]: "deref p = Inr x \<longleftrightarrow> p = Some x"
  by (cases p) simp_all

section \<open>Byte buffers\<close>

definition peek :: "bytes \<Rightarrow> nat \<Rightarrow> u8 cres" where
  "peek m i = (if i < length m then Inr (m ! i) else Inl OOB)"

definition slice :: "bytes \<Rightarrow> nat \<Rightarrow> nat \<Rightarrow> bytes cres" where
  "slice m i n = (if i + n \<le> length m then Inr (take n (drop i m)) else Inl OOB)"

definition pokes :: "bytes \<Rightarrow> nat \<Rightarrow> bytes \<Rightarrow> bytes cres" where
  "pokes m i bs =
     (if i + length bs \<le> length m then Inr (take i m @ bs @ drop (i + length bs) m)
      else Inl OOB)"

definition poke :: "bytes \<Rightarrow> nat \<Rightarrow> u8 \<Rightarrow> bytes cres" where
  "poke m i b = (if i < length m then Inr (m[i := b]) else Inl OOB)"

lemma peek_Inr [buf_simps]: "i < length m \<Longrightarrow> peek m i = Inr (m ! i)"
  by (simp add: peek_def)

lemma peek_eq_Inr_iff: "peek m i = Inr b \<longleftrightarrow> i < length m \<and> b = m ! i"
  by (auto simp: peek_def)

lemma slice_Inr [buf_simps]: "i + n \<le> length m \<Longrightarrow> slice m i n = Inr (take n (drop i m))"
  by (simp add: slice_def)

lemma slice_eq_Inr_iff:
  "slice m i n = Inr bs \<longleftrightarrow> i + n \<le> length m \<and> bs = take n (drop i m)"
  by (auto simp: slice_def)

lemma pokes_eq_Inr_iff:
  "pokes m i bs = Inr m' \<longleftrightarrow>
     i + length bs \<le> length m \<and> m' = take i m @ bs @ drop (i + length bs) m"
  by (auto simp: pokes_def)

lemma pokes_Inr [buf_simps]:
  "i + length bs \<le> length m \<Longrightarrow> pokes m i bs = Inr (take i m @ bs @ drop (i + length bs) m)"
  by (simp add: pokes_def)

lemma pokes_length: "pokes m i bs = Inr m' \<Longrightarrow> length m' = length m"
  by (auto simp: pokes_eq_Inr_iff)

lemma poke_Inr [buf_simps]: "i < length m \<Longrightarrow> poke m i b = Inr (m[i := b])"
  by (simp add: poke_def)

lemma poke_eq_Inr_iff: "poke m i b = Inr m' \<longleftrightarrow> i < length m \<and> m' = m[i := b]"
  by (auto simp: poke_def)

section \<open>C strings\<close>

text \<open>
  The bytes of a string literal, and the string that starts at the beginning of a char
  array: the bytes before the first NUL.  \<open>strlen\<close> of an array without a NUL runs off its
  end.
\<close>

definition lit :: "string \<Rightarrow> bytes" where
  "lit s = map of_char s"

definition cstr :: "bytes \<Rightarrow> bytes" where
  "cstr m = takeWhile (\<lambda>b. b \<noteq> 0) m"

definition c_strlen :: "bytes \<Rightarrow> nat cres" where
  "c_strlen m = (if 0 \<in> set m then Inr (length (cstr m)) else Inl OOB)"

lemma lit_simps [simp]: "lit [] = []" "lit (c # s) = of_char c # lit s"
  by (simp_all add: lit_def)

lemma cstr_append_NUL [simp]: "0 \<notin> set s \<Longrightarrow> cstr (s @ 0 # r) = s"
  by (induction s) (auto simp: cstr_def)

lemma cstr_NUL_free: "0 \<notin> set (cstr m)"
  by (auto simp: cstr_def dest: set_takeWhileD)

lemma cstr_length_less: "0 \<in> set m \<Longrightarrow> length (cstr m) < length m"
  by (induction m) (auto simp: cstr_def)

lemma cstr_id: "0 \<notin> set s \<Longrightarrow> cstr s = s"
  by (simp add: cstr_def takeWhile_eq_all_conv) blast

section \<open>Little-endian integers\<close>

definition lo8 :: "u16 \<Rightarrow> u8" where "lo8 w = ucast w"
definition hi8 :: "u16 \<Rightarrow> u8" where "hi8 w = ucast (drop_bit 8 w)"

definition le16 :: "u16 \<Rightarrow> bytes" where
  "le16 w = [lo8 w, hi8 w]"

definition un16 :: "u8 \<Rightarrow> u8 \<Rightarrow> u16" where
  "un16 b0 b1 = ucast b0 OR push_bit 8 (ucast b1)"

definition le32 :: "u32 \<Rightarrow> bytes" where
  "le32 w = [ucast w, ucast (drop_bit 8 w), ucast (drop_bit 16 w), ucast (drop_bit 24 w)]"

definition un32 :: "u8 \<Rightarrow> u8 \<Rightarrow> u8 \<Rightarrow> u8 \<Rightarrow> u32" where
  "un32 b0 b1 b2 b3 =
     ucast b0 OR push_bit 8 (ucast b1) OR push_bit 16 (ucast b2) OR push_bit 24 (ucast b3)"

lemma length_le [simp]: "length (le16 w) = 2" "length (le32 v) = 4"
  by (simp_all add: le16_def le32_def)

lemma un16_le16 [simp]: "un16 (lo8 w) (hi8 w) = w"
  unfolding un16_def lo8_def hi8_def
  by (rule bit_eqI) (auto simp: bit_simps not_le less_diff_conv2)

lemma lo8_un16 [simp]: "lo8 (un16 a b) = a"
  unfolding un16_def lo8_def by (rule bit_eqI) (auto simp: bit_simps)

lemma hi8_un16 [simp]: "hi8 (un16 a b) = b"
  unfolding un16_def hi8_def
  by (rule bit_eqI) (auto simp: bit_simps dest: bit_imp_le_length)

lemma un32_le32:
  "un32 (ucast w) (ucast (drop_bit 8 w)) (ucast (drop_bit 16 w)) (ucast (drop_bit 24 w)) = w"
  unfolding un32_def
  by (rule bit_eqI) (auto simp: bit_simps not_le less_diff_conv2; metis le_add_diff_inverse not_le)

lemma unat_word_of_int_u16:
  "0 \<le> i \<Longrightarrow> i < 65536 \<Longrightarrow> uint (word_of_int i :: u16) = i"
  by (simp add: uint_word_of_int take_bit_eq_mod)

end
