(* ===== verification/IhUtil.thy ===== *)
theory IhUtil
  imports Prelude "HOL-Library.Sublist"
begin

text \<open>
  src/icehydra_util.c: the retrying non-blocking transfer loops, the name builder, the file
  helpers, the advisory locks and the binding to a processor.  The kernel's side of a socket is a parameter: each socket carries the list of
  answers the kernel will give to the next calls of send and recv on it (how many bytes move,
  would-block, another error, or that the peer is gone); a list that has run out stands for a kernel
  that moves as much as it can.  send is called without MSG\_NOSIGNAL and nothing changes the
  disposition of SIGPIPE, so a send that finds the peer gone (\<open>Gone\<close>, EPIPE) ends the process:
  the fault \<open>Killed\<close>.  In a process that was started with SIGPIPE ignored the same answer is \<open>Broken\<close>.  Every finite behaviour of send and recv is such a list, and the loops below
  make finitely many calls.
\<close>

section \<open>Sockets\<close>

datatype io = Xfer nat | Again | Broken | Gone

record socket =
  sched :: "io list"
  outgoing :: bytes
  incoming :: bytes
  peer_closed :: bool

type_synonym net = "int \<Rightarrow> socket option"

datatype io_ret = Moved bytes | WouldBlock | IoError | Sigpipe

text \<open>send with MSG_DONTWAIT: \<open>Moved bs\<close> are the bytes the kernel took.\<close>

fun k_send :: "socket \<Rightarrow> bytes \<Rightarrow> io_ret \<times> socket" where
  "k_send s ds =
     (case sched s of
        [] \<Rightarrow> (Moved ds, s\<lparr>outgoing := outgoing s @ ds\<rparr>)
      | Xfer k # r \<Rightarrow>
          (Moved (take k ds), s\<lparr>sched := r, outgoing := outgoing s @ take k ds\<rparr>)
      | Again # r \<Rightarrow> (WouldBlock, s\<lparr>sched := r\<rparr>)
      | Broken # r \<Rightarrow> (IoError, s\<lparr>sched := r\<rparr>)
      | Gone # r \<Rightarrow> (Sigpipe, s\<lparr>sched := r\<rparr>))"

text \<open>
  recv of at most \<open>n\<close> bytes: nothing pending is would-block, or end of stream once the peer
  has closed.  recv raises no signal.
\<close>

definition deliver :: "socket \<Rightarrow> nat \<Rightarrow> io_ret \<times> socket" where
  "deliver s n =
     (if incoming s = [] then (if peer_closed s then (Moved [], s) else (WouldBlock, s))
      else (Moved (take n (incoming s)), s\<lparr>incoming := drop n (incoming s)\<rparr>))"

fun k_recv :: "socket \<Rightarrow> nat \<Rightarrow> io_ret \<times> socket" where
  "k_recv s n =
     (case sched s of
        [] \<Rightarrow> deliver s n
      | Xfer k # r \<Rightarrow> deliver (s\<lparr>sched := r\<rparr>) (min n k)
      | Again # r \<Rightarrow> (WouldBlock, s\<lparr>sched := r\<rparr>)
      | Broken # r \<Rightarrow> (IoError, s\<lparr>sched := r\<rparr>)
      | Gone # r \<Rightarrow> (IoError, s\<lparr>sched := r\<rparr>))"

text \<open>A descriptor that is no socket (closed, or a file) answers with an error.\<close>

definition sys_send :: "net \<Rightarrow> int \<Rightarrow> bytes \<Rightarrow> io_ret \<times> net" where
  "sys_send w fd ds =
     (case w fd of
        None \<Rightarrow> (IoError, w)
      | Some s \<Rightarrow> (case k_send s ds of (r, s') \<Rightarrow> (r, w(fd := Some s'))))"

definition sys_recv :: "net \<Rightarrow> int \<Rightarrow> nat \<Rightarrow> io_ret \<times> net" where
  "sys_recv w fd n =
     (case w fd of
        None \<Rightarrow> (IoError, w)
      | Some s \<Rightarrow> (case k_recv s n of (r, s') \<Rightarrow> (r, w(fd := Some s'))))"

text \<open>The macro close\_s, on the sockets: the descriptor is closed only when positive, and the variable is always set to -1 by its user.\<close>

definition close_fd :: "int \<Rightarrow> net \<Rightarrow> net" where
  "close_fd fd w = (if fd > 0 then w(fd := None) else w)"

section \<open>The transfer loops\<close>

text \<open>
  The loop that tcp\_send\_noblock and (two times) tcp\_send\_protocol\_cmd run, from \<open>totallen\<close>
  bytes already sent and \<open>tries\<close> retries left (the C variable is \<open>times\<close>).  \<open>if(!(times--)) break;\<close> leaves when the
  counter was 0.  The result is the final pair of counters and the network; SIGPIPE leaves no
  result.
\<close>

function send_loop :: "net \<Rightarrow> int \<Rightarrow> bytes \<Rightarrow> nat \<Rightarrow> nat \<Rightarrow> (nat \<times> nat \<times> net) cres" where
  "send_loop w fd data totallen tries =
     (if totallen < length data then
        (case sys_send w fd (drop totallen data) of
           (Moved bs, w') \<Rightarrow>
             if bs = [] then Inr (totallen, tries, w')
             else send_loop w' fd data (totallen + length bs) tries
         | (WouldBlock, w') \<Rightarrow>
             if tries = 0 then Inr (totallen, tries, w') else send_loop w' fd data totallen (tries - 1)
         | (IoError, w') \<Rightarrow> Inr (totallen, tries - 1, w')
         | (Sigpipe, w') \<Rightarrow> Inl Killed)
      else Inr (totallen, tries, w))"
  by pat_completeness auto
termination
  by (relation "measure (\<lambda>(w, fd, data, totallen, tries). (length data - totallen) + tries)")
    (auto simp: length_greater_0_conv[symmetric] simp del: length_greater_0_conv)

text \<open>
  The receiving loop, into the buffer \<open>buf\<close>, until \<open>len\<close> bytes are there.  The kernel is
  told that \<open>len - totallen\<close> bytes fit; what it delivers is stored at \<open>totallen\<close>, and a store
  beyond the end of \<open>buf\<close> faults.
\<close>

function recv_loop ::
    "net \<Rightarrow> int \<Rightarrow> bytes \<Rightarrow> nat \<Rightarrow> nat \<Rightarrow> nat \<Rightarrow> (nat \<times> nat \<times> bytes \<times> net) cres" where
  "recv_loop w fd buf len totallen tries =
     (if totallen < len then
        (case sys_recv w fd (len - totallen) of
           (Moved bs, w') \<Rightarrow>
             if bs = [] then Inr (totallen, tries, buf, w')
             else cbind (pokes buf totallen bs) (\<lambda>buf'.
               recv_loop w' fd buf' len (totallen + length bs) tries)
         | (WouldBlock, w') \<Rightarrow>
             if tries = 0 then Inr (totallen, tries, buf, w')
             else recv_loop w' fd buf len totallen (tries - 1)
         | (_, w') \<Rightarrow> Inr (totallen, tries - 1, buf, w'))
      else Inr (totallen, tries, buf, w))"
  by pat_completeness auto
termination
  by (relation "measure (\<lambda>(w, fd, buf, len, totallen, tries). (len - totallen) + tries)")
    (auto simp: length_greater_0_conv[symmetric] simp del: length_greater_0_conv)

declare send_loop.simps [simp del] recv_loop.simps [simp del]

definition RETRIES :: nat where "RETRIES = 2000"

definition tcp_send_noblock :: "net \<Rightarrow> int \<Rightarrow> bytes option \<Rightarrow> int \<Rightarrow> (int \<times> net) cres" where
  "tcp_send_noblock w sockfd data len =
     (if data = None \<or> len \<le> 0 \<or> sockfd < 0 then Inr (0, w)
      else cbind (deref data) (\<lambda>d.
           cbind (slice d 0 (nat len)) (\<lambda>ds.
           cbind (send_loop w sockfd ds 0 RETRIES) (\<lambda>(totallen, _, w').
           Inr (if totallen \<noteq> length ds then -1 else 0, w')))))"

definition tcp_recv_noblock ::
    "net \<Rightarrow> int \<Rightarrow> bytes option \<Rightarrow> int \<Rightarrow> (int \<times> bytes option \<times> net) cres" where
  "tcp_recv_noblock w sockfd data len =
     (if data = None \<or> len \<le> 0 \<or> sockfd < 0 then Inr (0, data, w)
      else cbind (deref data) (\<lambda>d.
           cbind (recv_loop w sockfd d (nat len) 0 RETRIES) (\<lambda>(totallen, _, d', w').
           Inr (if totallen \<noteq> nat len then -1 else 0, Some d', w'))))"

section \<open>What the loops transfer\<close>

text \<open>
  \<open>sends w fd bs w'\<close>: from \<open>w\<close> to \<open>w'\<close> exactly the bytes \<open>bs\<close> have gone out on \<open>fd\<close>
  and nothing else has changed but the kernel's remaining answers; \<open>recvs\<close> is the same for
  bytes taken in.
\<close>

definition sends :: "net \<Rightarrow> int \<Rightarrow> bytes \<Rightarrow> net \<Rightarrow> bool" where
  "sends w fd bs w' \<longleftrightarrow> (\<forall>g. g \<noteq> fd \<longrightarrow> w' g = w g) \<and>
     (case w fd of None \<Rightarrow> w' fd = None \<and> bs = []
      | Some s \<Rightarrow> \<exists>s'. w' fd = Some s' \<and> outgoing s' = outgoing s @ bs \<and>
          incoming s' = incoming s \<and> peer_closed s' = peer_closed s \<and>
          suffix (sched s') (sched s))"

definition recvs :: "net \<Rightarrow> int \<Rightarrow> bytes \<Rightarrow> net \<Rightarrow> bool" where
  "recvs w fd bs w' \<longleftrightarrow> (\<forall>g. g \<noteq> fd \<longrightarrow> w' g = w g) \<and>
     (case w fd of None \<Rightarrow> w' fd = None \<and> bs = []
      | Some s \<Rightarrow> \<exists>s'. w' fd = Some s' \<and> outgoing s' = outgoing s \<and>
          incoming s = bs @ incoming s' \<and> peer_closed s' = peer_closed s \<and>
          suffix (sched s') (sched s))"

lemma sends_refl: "sends w fd [] w"
  by (auto simp: sends_def split: option.splits)

lemma sends_trans: "sends w fd as w1 \<Longrightarrow> sends w1 fd bs w2 \<Longrightarrow> sends w fd (as @ bs) w2"
  by (cases "w fd") (auto simp: sends_def split: option.splits intro: suffix_order.trans)

lemma recvs_refl: "recvs w fd [] w"
  by (auto simp: recvs_def split: option.splits)

lemma recvs_trans: "recvs w fd as w1 \<Longrightarrow> recvs w1 fd bs w2 \<Longrightarrow> recvs w fd (as @ bs) w2"
  by (cases "w fd") (auto simp: recvs_def split: option.splits intro: suffix_order.trans)

fun ret_bytes :: "io_ret \<Rightarrow> bytes" where
  "ret_bytes (Moved bs) = bs"
| "ret_bytes WouldBlock = []"
| "ret_bytes IoError = []"
| "ret_bytes Sigpipe = []"

lemma k_send_out:
  assumes "k_send s ds = (r, s')"
  shows "outgoing s' = outgoing s @ ret_bytes r \<and> incoming s' = incoming s \<and>
    peer_closed s' = peer_closed s \<and> suffix (sched s') (sched s) \<and>
    ret_bytes r = take (length (ret_bytes r)) ds"
  using assms by (auto simp: min_def suffix_ConsI split: list.splits io.splits)

lemma k_recv_in:
  assumes "k_recv s n = (r, s')"
  shows "incoming s = ret_bytes r @ incoming s' \<and> outgoing s' = outgoing s \<and>
    peer_closed s' = peer_closed s \<and> suffix (sched s') (sched s) \<and> length (ret_bytes r) \<le> n"
  using assms by (auto simp: deliver_def suffix_ConsI split: list.splits io.splits if_splits)

lemma sys_send_sends:
  "sys_send w fd ds = (r, w') \<Longrightarrow>
     sends w fd (ret_bytes r) w' \<and> ret_bytes r = take (length (ret_bytes r)) ds"
  by (cases "w fd")
    (auto simp: sys_send_def sends_refl sends_def simp del: k_send.simps split: prod.splits
      dest: k_send_out)

lemma sys_recv_recvs:
  "sys_recv w fd n = (r, w') \<Longrightarrow> recvs w fd (ret_bytes r) w' \<and> length (ret_bytes r) \<le> n"
  by (cases "w fd")
    (auto simp: sys_recv_def recvs_refl recvs_def simp del: k_recv.simps split: prod.splits
      dest: k_recv_in)

lemma send_loop_done: "length ds \<le> t \<Longrightarrow> send_loop w fd ds t k = Inr (t, k, w)"
  by (subst send_loop.simps) simp

lemma recv_loop_done: "len \<le> t \<Longrightarrow> recv_loop w fd buf len t k = Inr (t, k, buf, w)"
  by (subst recv_loop.simps) simp

text \<open>
  Whatever the kernel answers, the sending loop puts a prefix of the data on the wire, in
  order, and \<open>totallen\<close> is its length; it never uses more retries than it had.
\<close>

lemma send_loop_sends:
  assumes "send_loop w fd ds t k = Inr (t', k', w')" and "t \<le> length ds"
  shows "t \<le> t' \<and> t' \<le> length ds \<and> k' \<le> k \<and> sends w fd (take (t' - t) (drop t ds)) w'"
  using assms
proof (induction w fd ds t k arbitrary: t' k' w' rule: send_loop.induct)
  case (1 w fd ds t k)
  show ?case
  proof (cases "t < length ds")
    case False
    then show ?thesis using "1.prems" by (auto simp: send_loop_done sends_refl)
  next
    case True
    obtain r w1 where r: "sys_send w fd (drop t ds) = (r, w1)" by fastforce
    note snt = sys_send_sends[OF r]
    show ?thesis
    proof (cases r)
      case (Moved bs)
      show ?thesis
      proof (cases "bs = []")
        case True
        then show ?thesis
          using "1.prems" \<open>t < length ds\<close> r Moved snt by (simp add: send_loop.simps[of w fd ds t k])
      next
        case False
        have le: "t + length bs \<le> length ds" and bs: "bs = take (length bs) (drop t ds)"
          using snt True Moved by (auto dest: arg_cong[of bs _ length])
        have "send_loop w1 fd ds (t + length bs) k = Inr (t', k', w')"
          using "1.prems" True False r Moved by (simp add: send_loop.simps[of w fd ds t k])
        from "1.IH"(1)[OF True r[symmetric] Moved False this le]
        have ih: "t + length bs \<le> t' \<and> t' \<le> length ds \<and> k' \<le> k"
          and s2: "sends w1 fd (take (t' - (t + length bs)) (drop (t + length bs) ds)) w'" by auto
        have "take (t' - t) (drop t ds) = bs @ take (t' - (t + length bs)) (drop (t + length bs) ds)"
          using bs ih take_add[of "length bs" "t' - (t + length bs)" "drop t ds"]
          by (simp add: add.commute)
        then show ?thesis using ih sends_trans[OF _ s2] snt Moved by auto
      qed
    next
      case WouldBlock
      then show ?thesis
        using "1.prems" True r snt "1.IH"(2)[OF True r[symmetric] WouldBlock]
        by (auto simp: send_loop.simps[of w fd ds t k] split: if_splits
            dest: sends_trans[of w fd "[]" w1])
    next
      case IoError
      then show ?thesis
        using "1.prems" True r snt by (auto simp: send_loop.simps[of w fd ds t k])
    next
      case Sigpipe
      then show ?thesis using "1.prems" True r by (simp add: send_loop.simps[of w fd ds t k])
    qed
  qed
qed

text \<open>The loop has no result only when the kernel has announced that the peer is gone.\<close>

definition pipe_ok :: "net \<Rightarrow> int \<Rightarrow> bool" where
  "pipe_ok w fd \<longleftrightarrow> (case w fd of None \<Rightarrow> True | Some s \<Rightarrow> Gone \<notin> set (sched s))"

lemma pipe_ok_sends: "sends w g bs w' \<Longrightarrow> pipe_ok w fd \<Longrightarrow> pipe_ok w' fd"
  by (cases "fd = g") (auto simp: sends_def pipe_ok_def suffix_def split: option.splits)

lemma pipe_ok_recvs: "recvs w g bs w' \<Longrightarrow> pipe_ok w fd \<Longrightarrow> pipe_ok w' fd"
  by (cases "fd = g") (auto simp: recvs_def pipe_ok_def suffix_def split: option.splits)

lemma sys_send_pipe_ok:
  "sys_send w fd ds = (r, w') \<Longrightarrow> pipe_ok w fd \<Longrightarrow> r \<noteq> Sigpipe \<and> pipe_ok w' fd"
  by (cases "w fd")
    (auto simp: sys_send_def pipe_ok_def split: list.splits io.splits prod.splits)

lemma send_loop_returns:
  "pipe_ok w fd \<Longrightarrow> \<exists>t' k' w'. send_loop w fd ds t k = Inr (t', k', w')"
proof (induction w fd ds t k rule: send_loop.induct)
  case (1 w fd ds t k)
  obtain r w1 where r: "sys_send w fd (drop t ds) = (r, w1)" by fastforce
  note ok = sys_send_pipe_ok[OF r "1.prems"]
  show ?case
  proof (cases "t < length ds")
    case True
    then show ?thesis using ok "1.IH"[OF True r[symmetric]] r
      by (cases r) (auto simp: send_loop.simps[of w fd ds t k])
  qed (simp add: send_loop_done)
qed

lemma send_loop_killed: "send_loop w fd ds t k = Inl e \<Longrightarrow> e = Killed \<and> \<not> pipe_ok w fd"
proof -
  assume l: "send_loop w fd ds t k = Inl e"
  have "send_loop w fd ds t k = Inl e \<Longrightarrow> e = Killed"
  proof (induction w fd ds t k rule: send_loop.induct)
    case (1 w fd ds t k)
    obtain r w1 where r: "sys_send w fd (drop t ds) = (r, w1)" by fastforce
    have t: "t < length ds" using "1.prems" by (cases "t < length ds") (simp_all add: send_loop_done)
    show ?case using "1.prems"[unfolded send_loop.simps[of w fd ds t k]] "1.IH"[OF t r[symmetric]] r t
      by (cases r) (auto split: if_splits)
  qed
  then show ?thesis using l send_loop_returns[of w fd ds t k] by auto
qed

text \<open>
  The receiving loop, when it does not fault, has stored what it took off the stream at
  \<open>t\<close> onwards and left the rest of the buffer alone.
\<close>

lemma recv_loop_recvs:
  assumes "recv_loop w fd buf len t k = Inr (t', k', buf', w')" and "t \<le> len"
  shows "t \<le> t' \<and> t' \<le> len \<and> k' \<le> k \<and> length buf' = length buf \<and>
    (\<exists>bs. length bs = t' - t \<and> recvs w fd bs w' \<and> (bs = [] \<or> t' \<le> length buf) \<and>
      buf' = take t buf @ bs @ drop t' buf)"
  using assms
proof (induction w fd buf len t k arbitrary: t' k' buf' w' rule: recv_loop.induct)
  case (1 w fd buf len t k)
  show ?case
  proof (cases "t < len")
    case False
    then show ?thesis
      using "1.prems" by (auto simp: recv_loop_done intro: recvs_refl)
  next
    case True
    obtain r w1 where r: "sys_recv w fd (len - t) = (r, w1)" by fastforce
    note rcv = sys_recv_recvs[OF r]
    show ?thesis
    proof (cases "ret_bytes r = []")
      case empty: True
      show ?thesis
      proof (cases "r = WouldBlock \<and> k \<noteq> 0")
        case True
        then have step: "recv_loop w1 fd buf len t (k - 1) = Inr (t', k', buf', w')"
          using "1.prems" \<open>t < len\<close> r by (simp add: recv_loop.simps[of w fd buf len t k])
        from "1.IH"(2)[OF \<open>t < len\<close> r[symmetric] _ _ this] True "1.prems"(2)
        have ih: "t \<le> t' \<and> t' \<le> len \<and> k' \<le> k - 1 \<and> length buf' = length buf"
          and "\<exists>bs. length bs = t' - t \<and> recvs w1 fd bs w' \<and> (bs = [] \<or> t' \<le> length buf) \<and>
            buf' = take t buf @ bs @ drop t' buf" by auto
        moreover have "recvs w fd bs w'" if "recvs w1 fd bs w'" for bs
          using recvs_trans[OF _ that, of w "[]"] rcv empty by simp
        ultimately show ?thesis by fastforce
      next
        case False
        then have "t' = t \<and> k' \<le> k \<and> buf' = buf \<and> w' = w1"
          using "1.prems"(1)[unfolded recv_loop.simps[of w fd buf len t k]] \<open>t < len\<close> r empty
          by (cases r) (auto split: if_splits)
        then show ?thesis using rcv empty "1.prems" by auto
      qed
    next
      case False
      then obtain bs where bs: "r = Moved bs" "bs \<noteq> []" by (cases r) auto
      then obtain buf1 where p: "pokes buf t bs = Inr buf1"
        and step: "recv_loop w1 fd buf1 len (t + length bs) k = Inr (t', k', buf', w')"
        using "1.prems" True r by (auto simp: recv_loop.simps[of w fd buf len t k] cbind_eq_Inr_iff)
      have fits: "t + length bs \<le> length buf" and buf1: "buf1 = take t buf @ bs @ drop (t + length bs) buf"
        using p by (auto simp: pokes_eq_Inr_iff)
      have le: "t + length bs \<le> len" using rcv bs True by auto
      from "1.IH"(1)[OF True r[symmetric] bs p step le]
      obtain cs where ih: "t + length bs \<le> t'" "t' \<le> len" "k' \<le> k" "length buf' = length buf1"
        and cs: "length cs = t' - (t + length bs)" "recvs w1 fd cs w'" "cs = [] \<or> t' \<le> length buf1"
          "buf' = take (t + length bs) buf1 @ cs @ drop t' buf1" by auto
      have "length buf1 = length buf" using fits buf1 by simp
      moreover have "buf' = take t buf @ (bs @ cs) @ drop t' buf"
        using cs(1,4) fits ih(1) by (simp add: buf1)
      moreover have "recvs w fd (bs @ cs) w'" using recvs_trans[OF _ cs(2)] rcv bs by simp
      ultimately show ?thesis using ih cs fits by (intro conjI exI[of _ "bs @ cs"]) auto
    qed
  qed
qed

lemma recv_loop_fault:
  "recv_loop w fd buf len t k = Inl e \<Longrightarrow> t \<le> len \<Longrightarrow> e = OOB \<and> length buf < len"
proof (induction w fd buf len t k rule: recv_loop.induct)
  case (1 w fd buf len t k)
  show ?case
  proof (cases "t < len")
    case False
    then show ?thesis using "1.prems" by (simp add: recv_loop_done)
  next
    case True
    obtain r w1 where r: "sys_recv w fd (len - t) = (r, w1)" by fastforce
    note unf = "1.prems"(1)[unfolded recv_loop.simps[of w fd buf len t k]]
    show ?thesis
    proof (cases r)
      case (Moved bs)
      have ne: "bs \<noteq> []" using unf True r Moved by auto
      have le: "t + length bs \<le> len" using sys_recv_recvs[OF r] True Moved by auto
      show ?thesis
      proof (cases "pokes buf t bs")
        case (Inl f)
        then show ?thesis using unf True r Moved ne le by (auto simp: pokes_def split: if_splits)
      next
        case (Inr b1)
        have "recv_loop w1 fd b1 len (t + length bs) k = Inl e"
          using unf True r Moved ne Inr by simp
        from "1.IH"(1)[OF True r[symmetric] Moved ne Inr this le]
        show ?thesis using pokes_length[OF Inr] by simp
      qed
    next
      case WouldBlock
      then have "k \<noteq> 0" and "recv_loop w1 fd buf len t (k - 1) = Inl e"
        using unf True r by (auto split: if_splits)
      then show ?thesis using "1.IH"(2)[OF True r[symmetric] WouldBlock] "1.prems"(2) by simp
    next
      case IoError
      then show ?thesis using unf True r by simp
    next
      case Sigpipe
      then show ?thesis using unf True r by simp
    qed
  qed
qed

section \<open>When a transfer is complete\<close>

text \<open>
  A kernel that reports no hard error, never moves zero bytes and says would-block no more
  often than there are retries is \<open>obliging\<close>.
\<close>

definition obliging :: "nat \<Rightarrow> io list \<Rightarrow> bool" where
  "obliging k xs \<longleftrightarrow> Broken \<notin> set xs \<and> Gone \<notin> set xs \<and> Xfer 0 \<notin> set xs \<and> count_list xs Again \<le> k"

lemma obliging_Nil [simp]: "obliging k []"
  by (simp add: obliging_def)

lemma obliging_suffix: "suffix ys xs \<Longrightarrow> obliging k xs \<Longrightarrow> obliging k ys"
  by (auto simp: obliging_def suffix_def)

lemma obliging_Cons:
  "obliging k (Xfer n # xs) \<longleftrightarrow> 0 < n \<and> obliging k xs"
  "obliging k (Again # xs) \<longleftrightarrow> 0 < k \<and> obliging (k - 1) xs"
  "\<not> obliging k (Broken # xs)"
  "\<not> obliging k (Gone # xs)"
  by (auto simp: obliging_def)

lemma sys_send_obliging:
  assumes w: "w fd = Some s" and o: "obliging k (sched s)" and ds: "ds \<noteq> []"
  shows "(\<exists>bs s'. sys_send w fd ds = (Moved bs, w(fd \<mapsto> s')) \<and> bs \<noteq> [] \<and> length bs \<le> length ds \<and>
      obliging k (sched s')) \<or>
    (\<exists>s'. sys_send w fd ds = (WouldBlock, w(fd \<mapsto> s')) \<and> k \<noteq> 0 \<and> obliging (k - 1) (sched s'))"
proof (cases "sched s")
  case Nil
  show ?thesis
    by (rule disjI1, intro exI[of _ ds] exI[of _ "s\<lparr>outgoing := outgoing s @ ds\<rparr>"])
      (use w ds Nil in \<open>simp add: sys_send_def\<close>)
next
  case (Cons x xs)
  show ?thesis
  proof (cases x)
    case (Xfer n)
    show ?thesis
      by (rule disjI1, intro exI[of _ "take n ds"]
          exI[of _ "s\<lparr>sched := xs, outgoing := outgoing s @ take n ds\<rparr>"])
        (use w o ds Cons Xfer in \<open>simp add: sys_send_def obliging_Cons\<close>)
  next
    case Again
    show ?thesis
      by (rule disjI2, intro exI[of _ "s\<lparr>sched := xs\<rparr>"])
        (use w o Cons Again in \<open>simp add: sys_send_def obliging_Cons\<close>)
  next
    case Broken
    then show ?thesis using o Cons by (simp add: obliging_Cons)
  next
    case Gone
    then show ?thesis using o Cons by (simp add: obliging_Cons)
  qed
qed

lemma send_loop_obliging:
  assumes "w fd = Some s" and "obliging k (sched s)" and "t \<le> length ds"
  shows "\<exists>k' w' s'. send_loop w fd ds t k = Inr (length ds, k', w') \<and> w' fd = Some s' \<and>
    obliging k' (sched s')"
  using assms
proof (induction w fd ds t k arbitrary: s rule: send_loop.induct)
  case (1 w fd ds t k)
  show ?case
  proof (cases "t < length ds")
    case False
    then show ?thesis using "1.prems" by (simp add: send_loop_done)
  next
    case True
    then have "drop t ds \<noteq> []" by simp
    from sys_send_obliging[of w fd, OF "1.prems"(1,2) this]
    consider (moved) bs s' where "sys_send w fd (drop t ds) = (Moved bs, w(fd \<mapsto> s'))" "bs \<noteq> []"
        "length bs \<le> length (drop t ds)" "obliging k (sched s')"
      | (again) s' where "sys_send w fd (drop t ds) = (WouldBlock, w(fd \<mapsto> s'))" "k \<noteq> 0"
        "obliging (k - 1) (sched s')" by blast
    then show ?thesis
    proof cases
      case moved
      have "\<exists>k' w' s''. send_loop (w(fd \<mapsto> s')) fd ds (t + length bs) k = Inr (length ds, k', w') \<and>
          w' fd = Some s'' \<and> obliging k' (sched s'')"
        using moved(3,4) True by (intro "1.IH"(1)[OF True moved(1)[symmetric] refl moved(2), of s']) auto
      then show ?thesis using moved(1,2) True by (subst send_loop.simps) simp
    next
      case again
      have "\<exists>k' w' s''. send_loop (w(fd \<mapsto> s')) fd ds t (k - 1) = Inr (length ds, k', w') \<and>
          w' fd = Some s'' \<and> obliging k' (sched s'')"
        using again(2,3) True by (intro "1.IH"(2)[OF True again(1)[symmetric] refl, of s']) auto
      then show ?thesis using again(1,2) True by (subst send_loop.simps) simp
    qed
  qed
qed

lemma deliver_nonempty:
  "incoming s \<noteq> [] \<Longrightarrow> deliver s n = (Moved (take n (incoming s)), s\<lparr>incoming := drop n (incoming s)\<rparr>)"
  by (simp add: deliver_def)

text \<open>
  What the kernel answers to recv while it owes bytes: the first \<open>m\<close> of them, at least one, or
  would-block with a retry left.
\<close>

lemma sys_recv_obliging:
  assumes w: "w fd = Some s" and o: "obliging k (sched s)" and n: "0 < n" and pend: "incoming s \<noteq> []"
  shows "(\<exists>m s'. sys_recv w fd n = (Moved (take m (incoming s)), w(fd \<mapsto> s')) \<and> 0 < m \<and> m \<le> n \<and>
      incoming s' = drop m (incoming s) \<and> obliging k (sched s')) \<or>
    (\<exists>s'. sys_recv w fd n = (WouldBlock, w(fd \<mapsto> s')) \<and> k \<noteq> 0 \<and> incoming s' = incoming s \<and>
      obliging (k - 1) (sched s'))"
proof (cases "sched s")
  case Nil
  show ?thesis
    by (rule disjI1, intro exI[of _ n] exI[of _ "s\<lparr>incoming := drop n (incoming s)\<rparr>"])
      (use w n Nil pend in \<open>simp add: sys_recv_def deliver_nonempty\<close>)
next
  case (Cons x xs)
  show ?thesis
  proof (cases x)
    case (Xfer j)
    show ?thesis
      by (rule disjI1, intro exI[of _ "min n j"]
          exI[of _ "s\<lparr>sched := xs, incoming := drop (min n j) (incoming s)\<rparr>"])
        (use w o n Cons Xfer pend in \<open>simp add: sys_recv_def deliver_nonempty obliging_Cons\<close>)
  next
    case Again
    show ?thesis
      by (rule disjI2, intro exI[of _ "s\<lparr>sched := xs\<rparr>"])
        (use w o Cons Again in \<open>simp add: sys_recv_def obliging_Cons\<close>)
  next
    case Broken
    then show ?thesis using o Cons by (simp add: obliging_Cons)
  next
    case Gone
    then show ?thesis using o Cons by (simp add: obliging_Cons)
  qed
qed

text \<open>The first \<open>m\<close> bytes of the rest, and the rest after them, put together again.\<close>

lemma stored_in_two:
  assumes "t + m \<le> length buf" and "t + m \<le> len" and "length bs = m" and "bs = take m xs"
    and "b1 = take t buf @ bs @ drop (t + m) buf"
  shows "take (t + m) b1 @ take (len - (t + m)) (drop m xs) @ drop len b1 =
      take t buf @ take (len - t) xs @ drop len buf"
    and "drop (len - (t + m)) (drop m xs) = drop (len - t) xs"
proof -
  have "len - t = m + (len - (t + m))" using assms(2) by simp
  then have "take (len - t) xs = bs @ take (len - (t + m)) (drop m xs)"
    using take_add[of m "len - (t + m)" xs] assms(4) by presburger
  moreover have "take (t + m) b1 = take t buf @ bs" "drop len b1 = drop len buf"
    using assms(1,2,3) by (simp_all add: assms(5))
  ultimately show "take (t + m) b1 @ take (len - (t + m)) (drop m xs) @ drop len b1 =
      take t buf @ take (len - t) xs @ drop len buf" by simp
  show "drop (len - (t + m)) (drop m xs) = drop (len - t) xs" using assms(2) by simp
qed

lemma recv_loop_obliging:
  assumes "w fd = Some s" and "obliging k (sched s)" and "t \<le> len" and "t \<le> length buf"
    and "len - t \<le> length (incoming s)"
  shows "if len \<le> length buf
    then \<exists>k' w' s'. recv_loop w fd buf len t k =
        Inr (len, k', take t buf @ take (len - t) (incoming s) @ drop len buf, w') \<and>
      w' fd = Some s' \<and> obliging k' (sched s') \<and> incoming s' = drop (len - t) (incoming s)
    else recv_loop w fd buf len t k = Inl OOB"
  using assms
proof (induction w fd buf len t k arbitrary: s rule: recv_loop.induct)
  case (1 w fd buf len t k)
  show ?case
  proof (cases "t < len")
    case False
    then show ?thesis using "1.prems" by (simp add: recv_loop_done)
  next
    case True
    have pend: "0 < len - t" "incoming s \<noteq> []" using "1.prems"(5) True by auto
    from sys_recv_obliging[of w fd, OF "1.prems"(1,2) pend]
    consider (moved) m s' where "sys_recv w fd (len - t) = (Moved (take m (incoming s)), w(fd \<mapsto> s'))"
        "0 < m" "m \<le> len - t" "incoming s' = drop m (incoming s)" "obliging k (sched s')"
      | (again) s' where "sys_recv w fd (len - t) = (WouldBlock, w(fd \<mapsto> s'))" "k \<noteq> 0"
        "incoming s' = incoming s" "obliging (k - 1) (sched s')" by blast
    then show ?thesis
    proof cases
      case again
      have step: "recv_loop w fd buf len t k = recv_loop (w(fd \<mapsto> s')) fd buf len t (k - 1)"
        using again(1,2) True by (subst recv_loop.simps) simp
      show ?thesis
        unfolding step
        by (rule "1.IH"(2)[OF True again(1)[symmetric] refl again(2), of s', unfolded again(3)])
          (use again "1.prems" in simp_all)
    next
      case moved
      let ?bs = "take m (incoming s)"
      have lb: "length ?bs = m" "?bs \<noteq> []" using moved(2,3) "1.prems"(5) pend by auto
      show ?thesis
      proof (cases "t + m \<le> length buf")
        case False
        then have "pokes buf t ?bs = Inl OOB" using lb by (simp add: pokes_def)
        then have "recv_loop w fd buf len t k = Inl OOB"
          using True lb(2) moved(1) by (subst recv_loop.simps) simp
        moreover have "\<not> len \<le> length buf" using False moved(3) True by simp
        ultimately show ?thesis by simp
      next
        case fits: True
        define b1 where "b1 = take t buf @ ?bs @ drop (t + m) buf"
        have p: "pokes buf t ?bs = Inr b1" using fits lb(1) by (simp add: pokes_def b1_def)
        have lb1: "length b1 = length buf" using fits lb by (simp add: b1_def)
        have "t + m \<le> len" using moved(3) True by simp
        note two = stored_in_two[OF fits this lb(1) refl b1_def]
        have ih: "if len \<le> length b1
          then \<exists>k' w' s''. recv_loop (w(fd \<mapsto> s')) fd b1 len (t + length ?bs) k =
              Inr (len, k', take (t + length ?bs) b1 @ take (len - (t + length ?bs)) (incoming s') @
                drop len b1, w') \<and>
            w' fd = Some s'' \<and> obliging k' (sched s'') \<and>
            incoming s'' = drop (len - (t + length ?bs)) (incoming s')
          else recv_loop (w(fd \<mapsto> s')) fd b1 len (t + length ?bs) k = Inl OOB"
          using lb(1) moved(3-5) fits lb1 True "1.prems"(5)
          by (intro "1.IH"(1)[OF True moved(1)[symmetric] refl lb(2) p]) auto
        have step: "recv_loop w fd buf len t k = recv_loop (w(fd \<mapsto> s')) fd b1 len (t + length ?bs) k"
          using True lb(2) p moved(1) by (subst recv_loop.simps) simp
        show ?thesis using ih unfolding step lb(1) moved(4) two lb1 .
      qed
    qed
  qed
qed

section \<open>What the two functions promise their callers\<close>

text \<open>
  The trivial calls (no data, nothing to send, a closed descriptor) succeed without touching
  the network; otherwise 0 means that all of the data went out, and -1 that only a proper
  prefix did.
\<close>

lemma tcp_send_noblock_idle:
  "data = None \<or> len \<le> 0 \<or> sockfd < 0 \<Longrightarrow> tcp_send_noblock w sockfd data len = Inr (0, w)"
  by (simp add: tcp_send_noblock_def)

lemma tcp_send_noblock_take:
  "nat len \<le> length d \<Longrightarrow>
   tcp_send_noblock w fd (Some (take (nat len) d)) len = tcp_send_noblock w fd (Some d) len"
  by (simp add: tcp_send_noblock_def slice_def)

lemma tcp_send_noblock_prefix:
  assumes "tcp_send_noblock w fd (Some d) len = Inr (r, w')" and "0 < len" and "0 \<le> fd"
  shows "nat len \<le> length d \<and>
    (if r = 0 then sends w fd (take (nat len) d) w'
     else r = -1 \<and> (\<exists>n < nat len. sends w fd (take n d) w'))"
proof -
  obtain t k where sl: "slice d 0 (nat len) = Inr (take (nat len) d)" and le: "nat len \<le> length d"
    and loop: "send_loop w fd (take (nat len) d) 0 RETRIES = Inr (t, k, w')"
    and r: "r = (if t \<noteq> nat len then -1 else 0)"
    using assms by (auto simp: tcp_send_noblock_def cbind_eq_Inr_iff slice_eq_Inr_iff split: prod.splits)
  have "t \<le> nat len" and "sends w fd (take t (take (nat len) d)) w'"
    using send_loop_sends[OF loop] le by auto
  then show ?thesis using le r by (auto simp: min_def split: if_splits intro: exI[of _ t])
qed

lemma tcp_send_noblock_obliging:
  assumes "w fd = Some s" and "obliging RETRIES (sched s)" and "0 \<le> fd" and "int (length d) = len"
  shows "\<exists>w'. tcp_send_noblock w fd (Some d) len = Inr (0, w') \<and> sends w fd d w'"
proof (cases "d = []")
  case True
  then show ?thesis using assms by (simp add: tcp_send_noblock_def sends_refl)
next
  case False
  then obtain k' w' where l: "send_loop w fd d 0 RETRIES = Inr (length d, k', w')"
    using send_loop_obliging[of w fd s RETRIES 0 d] assms by auto
  with send_loop_sends[OF l] show ?thesis
    using assms False by (auto simp: tcp_send_noblock_def slice_def)
qed

section \<open>Names and files\<close>

text \<open>
  \<open>name_fix\<close> allocates \<open>strLen(prefix)+strLen(name)+strLen(suffix)\<close> bytes and prints the
  concatenation into them.  \<open>calloc n\<close> is the number of bytes that can be used of the block calloc
  gives for \<open>n\<close>, at least \<open>n\<close> (malloc\_usable\_size of glibc may report more), or \<open>None\<close>; what
  sprintf stores beyond them faults.  The result is what the block holds.
\<close>

definition strLen :: "bytes option \<Rightarrow> nat" where
  "strLen str = (case str of None \<Rightarrow> 0 | Some s \<Rightarrow> length s)"

definition the_bytes :: "bytes option \<Rightarrow> bytes" where
  "the_bytes str = (case str of None \<Rightarrow> [] | Some s \<Rightarrow> s)"

definition sprintf_to :: "nat \<Rightarrow> bytes \<Rightarrow> bytes option cres" where
  "sprintf_to room str = (if length str + 1 \<le> room then Inr (Some (str @ [0])) else Inl OOB)"

definition name_fix ::
    "(nat \<Rightarrow> nat option) \<Rightarrow> bytes option \<Rightarrow> bytes option \<Rightarrow> bytes option \<Rightarrow> bytes option cres" where
  "name_fix calloc pre name suf =
     (let len = strLen pre + strLen name + strLen suf in
      case calloc len of
        None \<Rightarrow> Inr None
      | Some room \<Rightarrow>
          (case (pre, suf) of
             (None, Some suf) \<Rightarrow> cbind (deref name) (\<lambda>n. sprintf_to room (n @ suf))
           | (Some pre, None) \<Rightarrow> cbind (deref name) (\<lambda>n. sprintf_to room (pre @ n))
           | (Some pre, Some suf) \<Rightarrow> cbind (deref name) (\<lambda>n. sprintf_to room (pre @ n @ suf))
           | (None, None) \<Rightarrow> Inr (Some (replicate len 0))))"

lemma the_bytes_simps [simp]: "the_bytes None = []" "the_bytes (Some s) = s"
  by (simp_all add: the_bytes_def)

text \<open>A block that is no larger than asked for is overrun by the terminator, whatever the name.\<close>

lemma name_fix_room:
  assumes "pre \<noteq> None \<or> suf \<noteq> None"
  shows "name_fix calloc pre (Some n) suf =
    (case calloc (length (the_bytes pre @ n @ the_bytes suf)) of
       None \<Rightarrow> Inr None
     | Some room \<Rightarrow> if room \<le> length (the_bytes pre @ n @ the_bytes suf) then Inl OOB
         else Inr (Some ((the_bytes pre @ n @ the_bytes suf) @ [0])))"
  using assms by (cases pre; cases suf) (auto simp: name_fix_def strLen_def sprintf_to_def the_bytes_def
      add.assoc split: option.splits)

lemma name_fix_returns:
  assumes "name_fix calloc (Some pre) name (Some suf) = Inr r"
  shows "r = None \<or> (\<exists>n. name = Some n \<and> r = Some ((pre @ n @ suf) @ [0]))"
  using assms by (cases name)
    (auto simp: name_fix_def sprintf_to_def Let_def split: option.splits if_splits)

text \<open>
  \<open>read_file\<close>: the file is what stat says about its size (nothing, when stat fails and the
  structure stays uninitialised), what fopen can read of it, and whether malloc succeeds.
  \<open>get_file_size\<close> stores the 64-bit size in an int, which keeps its low 32 bits.  malloc of a
  negative size, which becomes a huge one, fails; fread is given the size as a size\_t, so a
  negative one does not bound it.  On success the block holds the file's bytes and ten NULs.
\<close>

record file_env =
  stat_size :: "int option"
  fopen_content :: "bytes option"
  malloc_ok :: bool

definition get_file_size :: "file_env \<Rightarrow> int cres" where
  "get_file_size f =
     (case stat_size f of None \<Rightarrow> Inl Uninit | Some n \<Rightarrow> Inr (sint (word_of_int n :: 32 word)))"

definition fread_one :: "nat \<Rightarrow> bytes \<Rightarrow> nat" where
  "fread_one fsize content = (if 0 < fsize \<and> fsize \<le> length content then 1 else 0)"

definition read_file :: "file_env \<Rightarrow> (int \<times> bytes option) cres" where
  "read_file f =
     cbind (get_file_size f) (\<lambda>fsize.
     if fsize + 10 > 2147483647 then Inl Overflow
     else if fsize + 10 < 0 \<or> \<not> malloc_ok f then Inr (-1, None)
     else case fopen_content f of
       None \<Rightarrow> Inr (-1, None)
     | Some content \<Rightarrow>
         if fsize < 0 then
           (if int (length content) > fsize + 10 then Inl OOB else Inr (-1, None))
         else
           let readlen = fread_one (nat fsize) content in
           if readlen \<noteq> 1 then Inr (-1, None)
           else Inr (int readlen, Some (take (nat fsize) content @ replicate 10 0)))"

lemma read_file_terminated:
  assumes "read_file f = Inr (r, Some d)"
  shows "r = 1 \<and> (\<exists>text. d = text @ replicate 10 0 \<and> text \<noteq> [] \<and>
    (\<exists>c. fopen_content f = Some c \<and> text = take (length text) c))"
proof -
  obtain n c where nc: "0 < nat n" "nat n \<le> length c" and rd: "fopen_content f = Some c" "r = 1"
    "d = take (nat n) c @ replicate 10 0"
    using assms
    by (auto simp: read_file_def cbind_eq_Inr_iff fread_one_def Let_def split: if_splits option.splits)
  have "take (nat n) c \<noteq> []" and "take (nat n) c = take (length (take (nat n) c)) c" using nc by auto
  then show ?thesis using rd by blast
qed

text \<open>
  A file of less than 2 GB that is read whole; one of 4 GB and a little more is taken for a small
  one, and only its beginning is read.
\<close>

lemma sint_small: "n < 2147483648 \<Longrightarrow> sint (word_of_int (int n) :: 32 word) = int n"
  by (subst signed_of_int) (simp add: signed_take_bit_int_eq_self)

lemma read_file_whole:
  assumes "fopen_content f = Some c" and "c \<noteq> []" and "stat_size f = Some (int (length c))"
    and "length c < 2147483638" and "malloc_ok f"
  shows "read_file f = Inr (1, Some (c @ replicate 10 0))"
proof -
  have "sint (word_of_int (int (length c)) :: 32 word) = int (length c)"
    using assms(4) by (intro sint_small) simp
  then show ?thesis
    using assms by (simp add: read_file_def get_file_size_def fread_one_def)
qed

lemma read_file_wraps:
  assumes "stat_size f = Some (2 ^ 32 + int n)" and "0 < n" and "n < 2147483638"
    and "fopen_content f = Some c" and "n \<le> length c" and "malloc_ok f"
  shows "read_file f = Inr (1, Some (take n c @ replicate 10 0))"
proof -
  have w: "(word_of_int (2 ^ 32 + int n) :: 32 word) = word_of_int (int n)"
    by (simp add: word_of_int_eq_iff take_bit_eq_mod)
  have "sint (word_of_int (int n) :: 32 word) = int n"
    using assms(3) by (intro sint_small) simp
  then have "get_file_size f = Inr (int n)"
    unfolding get_file_size_def assms(1) option.case w by simp
  then show ?thesis using assms by (simp add: read_file_def fread_one_def)
qed

definition isDirExists :: "bool option \<Rightarrow> bool" where
  "isDirExists st = (st = Some True)"

text \<open>
  \<open>make_dir\<close> builds a shell command in a 256 byte buffer; the command is returned with the
  result, and too long a path overruns the buffer.
\<close>

definition MAX_SHELL_CMD :: nat where "MAX_SHELL_CMD = 256"

definition mkdir_cmd :: "bytes \<Rightarrow> bytes" where
  "mkdir_cmd path = lit ''mkdir -p '' @ path @ lit '' ''"

definition icehydra_system :: "bool \<Rightarrow> int" where
  "icehydra_system popen_ok = (if popen_ok then 0 else -1)"

definition make_dir :: "bool option \<Rightarrow> bool \<Rightarrow> bytes \<Rightarrow> (int \<times> bytes option) cres" where
  "make_dir st popen_ok path =
     (if isDirExists st then Inr (0, None)
      else if length (mkdir_cmd path) + 1 > MAX_SHELL_CMD then Inl OOB
      else Inr (icehydra_system popen_ok, Some (mkdir_cmd path)))"

lemma make_dir_fits: "\<not> isDirExists st \<Longrightarrow> make_dir st ok path = Inl OOB \<longleftrightarrow> 245 < length path"
  by (simp add: make_dir_def mkdir_cmd_def MAX_SHELL_CMD_def)

section \<open>Locks and processors\<close>

text \<open>
  The advisory locks on a whole file, and the processor a process is bound to.  The system call is a
  parameter; CPU\_SET ignores a number outside the set.
\<close>

datatype lock_type = F_RDLCK | F_WRLCK | F_UNLCK

record flock =
  l_type :: lock_type
  l_start :: int
  l_len :: int

definition whole_file :: "lock_type \<Rightarrow> flock" where
  "whole_file t = \<lparr>l_type = t, l_start = 0, l_len = 0\<rparr>"

definition file_read_lock :: "(int \<Rightarrow> flock \<Rightarrow> int) \<Rightarrow> int \<Rightarrow> int" where
  "file_read_lock setlk fd = setlk fd (whole_file F_RDLCK)"

definition file_write_lock :: "(int \<Rightarrow> flock \<Rightarrow> int) \<Rightarrow> int \<Rightarrow> int" where
  "file_write_lock setlk fd = setlk fd (whole_file F_WRLCK)"

definition file_unlock :: "(int \<Rightarrow> flock \<Rightarrow> int) \<Rightarrow> int \<Rightarrow> int" where
  "file_unlock setlk fd = setlk fd (whole_file F_UNLCK)"

definition bind_cpu :: "(int set \<Rightarrow> int) \<Rightarrow> int \<Rightarrow> int" where
  "bind_cpu setaffinity cpuid = setaffinity (if 0 \<le> cpuid \<and> cpuid < 1024 then {cpuid} else {})"

end
