(* ===== verification/Protocol.thy ===== *)
theory Protocol
  imports Prelude
begin

text \<open>
  The wire header of the broker: \<open>PROTOCOL_CMD\<close> of include/conf.h, the macros that read it
  and the functions of src/conf.c that write it.  A header lives in the first eight bytes of
  some buffer (\<open>cmd_head\<close>, \<open>wbuf\<close>, \<open>rbuf\<close> in the callers) and the operations are
  byte stores into that buffer, bounds-checked.  \<open>head_of\<close> reads the buffer back as a record
  and the lemmas say what each operation does to it.
\<close>

section \<open>Constants and the structure\<close>

definition PROTOCOL_MAGIC :: bytes where
  "PROTOCOL_MAGIC = [73, 72]"

definition IH_CMD_TYPE_SEND_RESERVE :: int where "IH_CMD_TYPE_SEND_RESERVE = 0"
definition IH_CMD_TYPE_SEND_PARALLEL :: int where "IH_CMD_TYPE_SEND_PARALLEL = 1"
definition IH_CMD_TYPE_SEND_SERIAL :: int where "IH_CMD_TYPE_SEND_SERIAL = 2"

definition IH_CMD_ID_RESERVE :: int where "IH_CMD_ID_RESERVE = 0"
definition IH_CMD_ID_CONN_OK :: int where "IH_CMD_ID_CONN_OK = 1"
definition IH_RESERVE_CMD_ID_GET_SHM_INFO :: int where "IH_RESERVE_CMD_ID_GET_SHM_INFO = 2"
definition IH_RESERVE_CMD_ID_GET_SHM_NUM :: int where "IH_RESERVE_CMD_ID_GET_SHM_NUM = 3"
definition IH_CMD_ID_DEFAULT :: int where "IH_CMD_ID_DEFAULT = 188"

lemmas cmd_consts =
  IH_CMD_TYPE_SEND_RESERVE_def IH_CMD_TYPE_SEND_PARALLEL_def IH_CMD_TYPE_SEND_SERIAL_def
  IH_CMD_ID_RESERVE_def IH_CMD_ID_CONN_OK_def IH_RESERVE_CMD_ID_GET_SHM_INFO_def
  IH_RESERVE_CMD_ID_GET_SHM_NUM_def IH_CMD_ID_DEFAULT_def

definition PROTOCOL_CMD_HEAD_LEN :: nat where "PROTOCOL_CMD_HEAD_LEN = 8"

lemma HEAD_LEN_8 [simp]: "PROTOCOL_CMD_HEAD_LEN = 8"
  by (simp add: PROTOCOL_CMD_HEAD_LEN_def)

text \<open>
  Byte offsets of the fields: \<open>szMagic\<close> 0, \<open>bodylen\<close> 2, \<open>cmdSendType\<close> 4, \<open>cmdid\<close> 5,
  \<open>broadcast_num\<close> 6, \<open>pad\<close> 7; \<open>broadcast_ids\<close> starts at 8.
\<close>

record PROTOCOL_CMD =
  szMagic :: bytes
  bodylen :: u16
  cmdSendType :: u8
  cmdid :: u8
  broadcast_num :: u8
  pad :: u8

definition head_of :: "bytes \<Rightarrow> PROTOCOL_CMD" where
  "head_of m = \<lparr>szMagic = [m ! 0, m ! 1], bodylen = un16 (m ! 2) (m ! 3), cmdSendType = m ! 4,
     cmdid = m ! 5, broadcast_num = m ! 6, pad = m ! 7\<rparr>"

definition bytes_of_head :: "PROTOCOL_CMD \<Rightarrow> bytes" where
  "bytes_of_head h = szMagic h @ le16 (bodylen h) @
     [cmdSendType h, cmdid h, broadcast_num h, pad h]"

section \<open>The macros that read a header\<close>

definition GET_PROTOCOL_BODY_LEN :: "bytes \<Rightarrow> u16 cres" where
  "GET_PROTOCOL_BODY_LEN m = cbind (peek m 2) (\<lambda>b0. cbind (peek m 3) (\<lambda>b1. Inr (un16 b0 b1)))"

definition GET_PROTOCOL_CMD_TYPE :: "bytes \<Rightarrow> u8 cres" where
  "GET_PROTOCOL_CMD_TYPE m = peek m 4"

definition GET_PROTOCOL_CMD_ID :: "bytes \<Rightarrow> u8 cres" where
  "GET_PROTOCOL_CMD_ID m = peek m 5"

definition GET_PROTOCOL_CMD_BROADCAST_NUM :: "bytes \<Rightarrow> u8 cres" where
  "GET_PROTOCOL_CMD_BROADCAST_NUM m = peek m 6"

text \<open>
  \<open>round4(x)\<close> of include/icehydra_util.h, on a C int, and the header's own copy of the same
  computation, \<open>GET_PROTOCOL_BROADCAST_LEN\<close>, which divides instead of shifting.
\<close>

definition round4 :: "int \<Rightarrow> int" where
  "round4 x = 4 * (drop_bit 2 x + of_bool (3 AND x \<noteq> 0))"

definition broadcast_len :: "u8 \<Rightarrow> nat" where
  "broadcast_len num = 4 * (unat num div 4 + of_bool (3 AND num \<noteq> 0))"

definition GET_PROTOCOL_BROADCAST_LEN :: "bytes \<Rightarrow> nat cres" where
  "GET_PROTOCOL_BROADCAST_LEN m =
     cbind (GET_PROTOCOL_CMD_BROADCAST_NUM m) (\<lambda>n. Inr (broadcast_len n))"

lemma and_3_eq_mod_4: "(3::int) AND x = x mod 4"
proof -
  have "(3::int) = mask 2" by (simp add: mask_eq_exp_minus_1)
  then have "3 AND x = take_bit 2 x" by (simp add: take_bit_eq_mask and.commute)
  then show ?thesis by (simp add: take_bit_eq_mod)
qed

lemma round4_eq: "round4 x = 4 * (x div 4 + of_bool (x mod 4 \<noteq> 0))"
  by (simp add: round4_def and_3_eq_mod_4 drop_bit_eq_div)

lemma round4_bounds: "x \<le> round4 x" "round4 x < x + 4" "4 dvd round4 x"
  unfolding round4_eq of_bool_def by (simp_all; presburger)+

lemma uint_and_3: "(3 AND (num :: u8) \<noteq> 0) \<longleftrightarrow> unat num mod 4 \<noteq> 0"
proof -
  have "uint (3 AND num) = 3 AND uint num" by (simp add: uint_and)
  then have "uint (3 AND num) = uint num mod 4" by (simp add: and_3_eq_mod_4)
  then have "int (unat (3 AND num)) = int (unat num mod 4)" by (simp add: zmod_int)
  then have "unat (3 AND num) = unat num mod 4" by (simp only: of_nat_eq_iff)
  then show ?thesis by (metis unat_0 unsigned_eq_0_iff)
qed

text \<open>The header macro and \<open>round4\<close> agree on every value the field can hold.\<close>

lemma broadcast_len_round4: "int (broadcast_len num) = round4 (uint num)"
proof -
  have "uint num = int (unat num)" by simp
  moreover have "int (unat num mod 4) \<noteq> 0 \<longleftrightarrow> unat num mod 4 \<noteq> 0" by (simp only: of_nat_eq_0_iff)
  ultimately show ?thesis
    by (simp only: broadcast_len_def round4_eq uint_and_3 zdiv_int zmod_int of_nat_mult of_nat_add
        of_nat_of_bool of_nat_numeral)
qed

lemma broadcast_len_bounds: "unat num \<le> broadcast_len num" "broadcast_len num \<le> 256"
proof -
  have "unat num < 256" using unsigned_less[of num, where 'a = nat] by simp
  then show "unat num \<le> broadcast_len num" "broadcast_len num \<le> 256"
    by (simp_all add: broadcast_len_def uint_and_3 of_bool_def; presburger)+
qed

section \<open>Writing a header\<close>

text \<open>
  A negative argument means that the field is to be left alone; only when all three are
  given is the whole header cleared first.  The stores of \<open>int\<close> arguments into the narrow
  fields truncate.  Every one of these functions returns 0, so only the buffer is returned.
\<close>

definition set_pure_protocol_head :: "bytes \<Rightarrow> int \<Rightarrow> int \<Rightarrow> int \<Rightarrow> bytes cres" where
  "set_pure_protocol_head protocol bl cmdSendTyp cid =
     cbind (if bl \<ge> 0 \<and> cmdSendTyp \<ge> 0 \<and> cid \<ge> 0
            then pokes protocol 0 (replicate PROTOCOL_CMD_HEAD_LEN 0) else Inr protocol) (\<lambda>m1.
     cbind (pokes m1 0 PROTOCOL_MAGIC) (\<lambda>m2.
     cbind (if bl \<ge> 0 then pokes m2 2 (le16 (word_of_int bl)) else Inr m2) (\<lambda>m3.
     cbind (if cmdSendTyp \<ge> 0 then poke m3 4 (word_of_int cmdSendTyp) else Inr m3) (\<lambda>m4.
     if cid \<ge> 0 then poke m4 5 (word_of_int cid) else Inr m4))))"

definition set_broadcast_cmd_head :: "bytes \<Rightarrow> int \<Rightarrow> int \<Rightarrow> int \<Rightarrow> bytes cres" where
  "set_broadcast_cmd_head cmd_head bl cid br_num =
     cbind (set_pure_protocol_head cmd_head (bl + round4 br_num) IH_CMD_TYPE_SEND_PARALLEL cid)
       (\<lambda>m. poke m 6 (word_of_int br_num))"

fun copy_ids :: "nat \<Rightarrow> bytes \<Rightarrow> nat \<Rightarrow> nat \<Rightarrow> bytes \<Rightarrow> bytes cres" where
  "copy_ids 0 ids off i m = Inr m"
| "copy_ids (Suc k) ids off i m =
     cbind (peek ids i) (\<lambda>b. cbind (poke m (off + i) b) (\<lambda>m'. copy_ids k ids off (Suc i) m'))"

text \<open>
  \<open>set_pure_broadcast_field\<close>: with a header, its count is set and the ids go to \<open>data\<close> when
  that is given and behind the header otherwise; without one the ids go to \<open>data\<close>.  The
  result is the pair of buffers.
\<close>

definition set_pure_broadcast_field ::
    "bytes option \<Rightarrow> bytes option \<Rightarrow> int \<Rightarrow> bytes option \<Rightarrow> (bytes option \<times> bytes option) cres"
where
  "set_pure_broadcast_field cmd_head data num ids =
     (case cmd_head of
        Some head \<Rightarrow>
          cbind (poke head 6 (if num > 0 then word_of_int num else 0)) (\<lambda>head1.
          case ids of
            None \<Rightarrow> Inr (Some head1, data)
          | Some bs \<Rightarrow>
              (case data of
                 Some d \<Rightarrow> cbind (copy_ids (nat num) bs 0 0 d) (\<lambda>d'. Inr (Some head1, Some d'))
               | None \<Rightarrow> cbind (copy_ids (nat num) bs 8 0 head1) (\<lambda>h'. Inr (Some h', None))))
      | None \<Rightarrow>
          (case data of
             None \<Rightarrow> Inr (None, None)
           | Some d \<Rightarrow>
               (case ids of
                  None \<Rightarrow> Inr (None, Some d)
                | Some bs \<Rightarrow> cbind (copy_ids (nat num) bs 0 0 d) (\<lambda>d'. Inr (None, Some d')))))"

definition isShmInfo :: "bytes \<Rightarrow> bool cres" where
  "isShmInfo cmd_head =
     cbind (peek cmd_head 5) (\<lambda>b. Inr (uint b = IH_RESERVE_CMD_ID_GET_SHM_INFO))"

section \<open>What the operations do to a header\<close>

lemma head_split:
  assumes "8 \<le> length (m :: bytes)"
  obtains b0 b1 b2 b3 b4 b5 b6 b7 r where "m = b0 # b1 # b2 # b3 # b4 # b5 # b6 # b7 # r"
  using assms by (auto simp: numeral_eq_Suc Suc_le_length_iff)

lemma GET_head [buf_simps]:
  assumes "8 \<le> length m"
  shows "GET_PROTOCOL_BODY_LEN m = Inr (bodylen (head_of m))"
    and "GET_PROTOCOL_CMD_TYPE m = Inr (cmdSendType (head_of m))"
    and "GET_PROTOCOL_CMD_ID m = Inr (cmdid (head_of m))"
    and "GET_PROTOCOL_CMD_BROADCAST_NUM m = Inr (broadcast_num (head_of m))"
    and "GET_PROTOCOL_BROADCAST_LEN m = Inr (broadcast_len (broadcast_num (head_of m)))"
  using assms
  by (simp_all add: GET_PROTOCOL_BODY_LEN_def GET_PROTOCOL_CMD_TYPE_def GET_PROTOCOL_CMD_ID_def
      GET_PROTOCOL_CMD_BROADCAST_NUM_def GET_PROTOCOL_BROADCAST_LEN_def peek_def head_of_def)

lemma head_of_append: "8 \<le> length m \<Longrightarrow> head_of (m @ r) = head_of m"
  by (auto simp: head_of_def nth_append)

lemma head_of_take: "8 \<le> n \<Longrightarrow> 8 \<le> length m \<Longrightarrow> head_of (take n m) = head_of m"
  by (auto simp: head_of_def)

lemma head_bytes_roundtrip:
  assumes "length (szMagic h) = 2"
  shows "head_of (bytes_of_head h @ r) = h" and "length (bytes_of_head h) = 8"
proof -
  obtain a b where "szMagic h = [a, b]"
    using assms by (auto simp: numeral_eq_Suc length_Suc_conv)
  then show "head_of (bytes_of_head h @ r) = h" and "length (bytes_of_head h) = 8"
    by (simp_all add: head_of_def bytes_of_head_def le16_def)
qed

lemma bytes_of_head_of: "8 \<le> length m \<Longrightarrow> bytes_of_head (head_of m) = take 8 m"
  by (erule head_split) (simp add: head_of_def bytes_of_head_def le16_def numeral_eq_Suc)

definition blank_head :: PROTOCOL_CMD where
  "blank_head = \<lparr>szMagic = [0, 0], bodylen = 0, cmdSendType = 0, cmdid = 0, broadcast_num = 0,
     pad = 0\<rparr>"

definition pure_head_upd :: "int \<Rightarrow> int \<Rightarrow> int \<Rightarrow> PROTOCOL_CMD \<Rightarrow> PROTOCOL_CMD" where
  "pure_head_upd bl ty cid h0 =
     (let h = (if 0 \<le> bl \<and> 0 \<le> ty \<and> 0 \<le> cid then blank_head else h0) in
      h\<lparr>szMagic := PROTOCOL_MAGIC,
        bodylen := (if 0 \<le> bl then word_of_int bl else bodylen h),
        cmdSendType := (if 0 \<le> ty then word_of_int ty else cmdSendType h),
        cmdid := (if 0 \<le> cid then word_of_int cid else cmdid h)\<rparr>)"

lemma set_pure_protocol_head_upd:
  assumes "8 \<le> length m"
  shows "\<exists>m'. set_pure_protocol_head m bl ty cid = Inr m' \<and> length m' = length m \<and>
    drop 8 m' = drop 8 m \<and> head_of m' = pure_head_upd bl ty cid (head_of m)"
proof -
  obtain b0 b1 b2 b3 b4 b5 b6 b7 r where m: "m = b0 # b1 # b2 # b3 # b4 # b5 # b6 # b7 # r"
    using head_split[OF assms] .
  show ?thesis
    by (cases "0 \<le> bl"; cases "0 \<le> ty"; cases "0 \<le> cid")
      (simp_all add: m set_pure_protocol_head_def pokes_def poke_def PROTOCOL_MAGIC_def le16_def
        pure_head_upd_def head_of_def blank_head_def numeral_eq_Suc)
qed

lemma head_of_num_upd: "8 \<le> length m \<Longrightarrow> head_of (m[6 := v]) = (head_of m)\<lparr>broadcast_num := v\<rparr>"
  by (simp add: head_of_def)

lemma set_broadcast_cmd_head_upd:
  assumes "8 \<le> length m"
  shows "\<exists>m'. set_broadcast_cmd_head m bl cid n = Inr m' \<and> length m' = length m \<and>
    drop 8 m' = drop 8 m \<and>
    head_of m' = (pure_head_upd (bl + round4 n) 1 cid (head_of m))\<lparr>broadcast_num := word_of_int n\<rparr>"
proof -
  obtain m1 where m1: "set_pure_protocol_head m (bl + round4 n) 1 cid = Inr m1"
    "length m1 = length m" "drop 8 m1 = drop 8 m"
    "head_of m1 = pure_head_upd (bl + round4 n) 1 cid (head_of m)"
    using set_pure_protocol_head_upd[OF assms] by blast
  show ?thesis
    using m1 assms
    by (simp add: set_broadcast_cmd_head_def IH_CMD_TYPE_SEND_PARALLEL_def poke_def head_of_num_upd)
qed

lemma copy_ids_conv:
  "i + k \<le> length ids \<Longrightarrow> off + i + k \<le> length m \<Longrightarrow>
   copy_ids k ids off i m =
     Inr (take (off + i) m @ take k (drop i ids) @ drop (off + i + k) m)"
proof (induction k arbitrary: i m)
  case 0
  then show ?case by simp
next
  case (Suc k)
  let ?m = "m[off + i := ids ! i]"
  have "take (off + Suc i) ?m = take (off + i) m @ [ids ! i]"
    using Suc.prems by (simp add: upd_conv_take_nth_drop)
  moreover have "take (Suc k) (drop i ids) = ids ! i # take k (drop (Suc i) ids)"
    using Suc.prems by (simp add: Cons_nth_drop_Suc[symmetric])
  ultimately show ?case
    using Suc by (simp add: peek_def poke_def drop_update_cancel)
qed

lemma copy_ids_OOB:
  assumes "i + k \<le> length ids" and "length m < off + i + k" and "0 < k"
  shows "copy_ids k ids off i m = Inl OOB"
  using assms
proof (induction k arbitrary: i m)
  case 0
  then show ?case by simp
next
  case (Suc k)
  have "copy_ids k ids off (Suc i) m' = Inl OOB" if "off + i < length m" "length m' = length m" for m'
    using that Suc.prems by (intro Suc.IH) auto
  then show ?case using Suc.prems by (auto simp: peek_def poke_def)
qed

text \<open>
  Writing \<open>n\<close> broadcast ids behind a header succeeds exactly when they fit into the buffer.
\<close>

lemma set_pure_broadcast_field_head:
  assumes "8 \<le> length m" and "0 \<le> n" and "nat n = length ids"
  shows "set_pure_broadcast_field (Some m) None n (Some ids) =
    (if 8 + length ids \<le> length m
     then Inr (Some (take 6 m @ [word_of_int n] @ [m ! 7] @ ids @ drop (8 + length ids) m), None)
     else Inl OOB)"
proof -
  obtain b0 b1 b2 b3 b4 b5 b6 b7 r where m: "m = b0 # b1 # b2 # b3 # b4 # b5 # b6 # b7 # r"
    using head_split[OF assms(1)] .
  have num: "(if 0 < n then word_of_int n else 0) = (word_of_int n :: u8)"
    using assms(2) by auto
  show ?thesis
    using assms copy_ids_conv[of 0 "length ids" ids 8 "m[6 := word_of_int n]"]
      copy_ids_OOB[of 0 "length ids" ids "m[6 := word_of_int n]" 8]
    by (cases "ids = []") (auto simp: set_pure_broadcast_field_def num poke_def m numeral_eq_Suc)
qed

end
