(* ===== verification/UnixSocket.thy ===== *)
theory UnixSocket
  imports IhUtil Protocol
begin

text \<open>
  src/unix_socket.c: the framing of protocol messages (an eight byte header, then
  \<open>bodylen\<close> bytes), descriptor passing, and the set-up of Unix-domain sockets.  The
  framing lemmas are what the broker and the client rely on; they are stated over the
  transfer loops of IhUtil and gathered in the locale \<open>message_sink\<close>.
\<close>

section \<open>Sending and receiving one message\<close>

definition tcp_recv_protocol_cmd ::
    "net \<Rightarrow> int \<Rightarrow> bytes option \<Rightarrow> bytes option \<Rightarrow> (int \<times> bytes option \<times> bytes option \<times> net) cres"
where
  "tcp_recv_protocol_cmd w sockfd cmd_head data =
     (if cmd_head = None \<or> data = None \<or> sockfd < 0 then Inr (0, cmd_head, data, w)
      else cbind (deref cmd_head) (\<lambda>head. cbind (deref data) (\<lambda>d.
           cbind (recv_loop w sockfd head PROTOCOL_CMD_HEAD_LEN 0 RETRIES)
             (\<lambda>(totallen, tries, head', w1).
           if totallen \<noteq> PROTOCOL_CMD_HEAD_LEN then Inr (-1, Some head', data, w1)
           else
             cbind (GET_PROTOCOL_BODY_LEN head') (\<lambda>bl.
             cbind (recv_loop w1 sockfd d (unat bl) 0 tries) (\<lambda>(total2, _, d', w2).
             Inr (if total2 \<noteq> unat bl then -1 else 0, Some head', Some d', w2)))))))"

definition tcp_send_protocol_cmd ::
    "net \<Rightarrow> int \<Rightarrow> bytes option \<Rightarrow> bytes option \<Rightarrow> (int \<times> net) cres"
where
  "tcp_send_protocol_cmd w sockfd cmd_head data =
     (if data = None \<or> cmd_head = None \<or> sockfd < 0 then Inr (0, w)
      else cbind (deref cmd_head) (\<lambda>head. cbind (deref data) (\<lambda>d.
           cbind (slice head 0 PROTOCOL_CMD_HEAD_LEN) (\<lambda>hb.
           cbind (send_loop w sockfd hb 0 RETRIES) (\<lambda>(totallen, tries, w1).
           if totallen \<noteq> PROTOCOL_CMD_HEAD_LEN then Inr (-1, w1)
           else
             cbind (GET_PROTOCOL_BODY_LEN head) (\<lambda>bl.
             cbind (slice d 0 (unat bl)) (\<lambda>body.
             cbind (send_loop w1 sockfd body 0 tries) (\<lambda>(total2, _, w2).
             Inr (if total2 \<noteq> unat bl then -1 else 0, w2)))))))))"

text \<open>The bytes of one message: its header and as much of the data as the header announces.\<close>

definition frame :: "bytes \<Rightarrow> bytes \<Rightarrow> bytes" where
  "frame head d = take 8 head @ take (unat (bodylen (head_of head))) d"

lemma tcp_send_closed:
  "cmd_head = None \<or> data = None \<or> fd < 0 \<Longrightarrow> tcp_send_protocol_cmd w fd cmd_head data = Inr (0, w)"
  by (auto simp: tcp_send_protocol_cmd_def)

text \<open>
  The outcome of a send on an open descriptor, for every behaviour of the kernel: 0 and the
  whole frame is on the wire, or -1 and a proper prefix of it is, or the peer is gone and SIGPIPE
  has ended the process.
\<close>

lemma tcp_send_protocol_cmd_outcome:
  assumes "0 \<le> fd" and "8 \<le> length h" and "unat (bodylen (head_of h)) \<le> length d"
  shows "(tcp_send_protocol_cmd w fd (Some h) (Some d) = Inl Killed \<and> \<not> pipe_ok w fd) \<or>
    (\<exists>r w'. tcp_send_protocol_cmd w fd (Some h) (Some d) = Inr (r, w') \<and>
      (if r = 0 then sends w fd (frame h d) w'
       else r = -1 \<and> (\<exists>n < length (frame h d). sends w fd (take n (frame h d)) w')))"
proof (cases "send_loop w fd (take 8 h) 0 RETRIES")
  case (Inl e)
  then show ?thesis using send_loop_killed[OF Inl] assms
    by (simp add: tcp_send_protocol_cmd_def slice_def)
next
  case (Inr x)
  let ?bl = "unat (bodylen (head_of h))"
  obtain t k w1 where l1: "send_loop w fd (take 8 h) 0 RETRIES = Inr (t, k, w1)"
    using Inr by (metis prod_cases3)
  have s1: "t \<le> 8" "sends w fd (take t (take 8 h)) w1"
    using send_loop_sends[OF l1] assms(2) by auto
  have len: "length (frame h d) = 8 + ?bl" using assms by (simp add: frame_def)
  show ?thesis
  proof (cases "t = 8")
    case False
    then have "sends w fd (take t (frame h d)) w1 \<and> t < length (frame h d)"
      using s1 len assms(2) by (simp add: frame_def min_def)
    then show ?thesis
      using False assms l1 by (auto simp: tcp_send_protocol_cmd_def slice_def)
  next
    case True
    show ?thesis
    proof (cases "send_loop w1 fd (take ?bl d) 0 k")
    case (Inl e)
    have "\<not> pipe_ok w fd" "e = Killed" using send_loop_killed[OF Inl] pipe_ok_sends[OF s1(2)] by auto
    then show ?thesis using Inl True assms l1
      by (simp add: tcp_send_protocol_cmd_def slice_def GET_head)
    next
    case (Inr y)
    obtain t2 k2 w2 where l2: "send_loop w1 fd (take ?bl d) 0 k = Inr (t2, k2, w2)"
      using Inr by (metis prod_cases3)
    have s2: "t2 \<le> ?bl" "sends w1 fd (take t2 (take ?bl d)) w2"
      using send_loop_sends[OF l2] assms(3) by auto
    have "take (8 + t2) (frame h d) = take 8 h @ take t2 (take ?bl d)"
      using assms(2) by (simp add: frame_def min_def)
    then have "sends w fd (take (8 + t2) (frame h d)) w2"
      using sends_trans[OF s1(2) s2(2)] True by simp
    moreover have "tcp_send_protocol_cmd w fd (Some h) (Some d) =
        Inr (if t2 \<noteq> ?bl then -1 else 0, w2)"
      using True assms l1 l2 by (simp add: tcp_send_protocol_cmd_def slice_def GET_head)
    moreover have "t2 = ?bl \<Longrightarrow> take (8 + t2) (frame h d) = frame h d"
      using len by simp
    moreover have "t2 \<noteq> ?bl \<Longrightarrow> 8 + t2 < length (frame h d)"
      using len s2(1) by simp
    ultimately show ?thesis by (cases "t2 = ?bl") auto
    qed
  qed
qed

lemma tcp_send_protocol_cmd_obliging:
  assumes "w fd = Some s" and "obliging RETRIES (sched s)" and "0 \<le> fd" and "8 \<le> length h"
    and "unat (bodylen (head_of h)) \<le> length d"
  shows "\<exists>w'. tcp_send_protocol_cmd w fd (Some h) (Some d) = Inr (0, w') \<and> sends w fd (frame h d) w'"
proof -
  let ?bl = "unat (bodylen (head_of h))"
  obtain k w1 s1 where l1: "send_loop w fd (take 8 h) 0 RETRIES = Inr (8, k, w1)"
    and w1: "w1 fd = Some s1" "obliging k (sched s1)"
    using send_loop_obliging[of w fd s RETRIES 0 "take 8 h", OF assms(1,2)] assms(4) by auto
  obtain k2 w2 where l2: "send_loop w1 fd (take ?bl d) 0 k = Inr (?bl, k2, w2)"
    using send_loop_obliging[of w1 fd s1 k 0 "take ?bl d", OF w1] assms(5) by auto
  have "tcp_send_protocol_cmd w fd (Some h) (Some d) = Inr (0, w2)"
    using assms l1 l2 by (simp add: tcp_send_protocol_cmd_def slice_def GET_head)
  then show ?thesis using tcp_send_protocol_cmd_outcome[OF assms(3,4,5), of w] by auto
qed

text \<open>
  Receiving a frame that is waiting on the socket: with room for the body the header and the
  body end up in their buffers and the rest of the stream is untouched; without it the
  receiving loop writes past the end of the data buffer.
\<close>

lemma tcp_recv_protocol_cmd_frame:
  assumes "w fd = Some s" and "obliging RETRIES (sched s)" and "0 \<le> fd" and "8 \<le> length h"
    and inc: "incoming s = hb @ body @ rest" "length hb = 8"
    and bl: "unat (bodylen (head_of hb)) = length body"
  shows "if length body \<le> length d
    then \<exists>w' s'. tcp_recv_protocol_cmd w fd (Some h) (Some d) =
        Inr (0, Some (hb @ drop 8 h), Some (body @ drop (length body) d), w') \<and>
      w' fd = Some s' \<and> incoming s' = rest
    else tcp_recv_protocol_cmd w fd (Some h) (Some d) = Inl OOB"
proof -
  obtain k w1 s1 where l1: "recv_loop w fd h 8 0 RETRIES = Inr (8, k, hb @ drop 8 h, w1)"
    and w1: "w1 fd = Some s1" "obliging k (sched s1)" "incoming s1 = body @ rest"
    using recv_loop_obliging[of w fd s RETRIES 0 8 h, OF assms(1,2)] assms(4) inc by auto
  have g: "GET_PROTOCOL_BODY_LEN (hb @ drop 8 h) = Inr (bodylen (head_of hb))"
    using inc by (simp add: GET_head head_of_append)
  show ?thesis
  proof (cases "length body \<le> length d")
    case True
    then obtain k2 w2 s2 where
      "recv_loop w1 fd d (length body) 0 k =
        Inr (length body, k2, body @ drop (length body) d, w2)"
      "w2 fd = Some s2" "incoming s2 = rest"
      using recv_loop_obliging[of w1 fd s1 k 0 "length body" d, OF w1(1,2)] w1(3) by auto
    then show ?thesis
      using assms True l1 g bl by (simp add: tcp_recv_protocol_cmd_def)
  next
    case False
    then have "recv_loop w1 fd d (length body) 0 k = Inl OOB"
      using recv_loop_obliging[of w1 fd s1 k 0 "length body" d, OF w1(1,2)] w1(3) by auto
    then show ?thesis
      using assms False l1 g bl by (simp add: tcp_recv_protocol_cmd_def)
  qed
qed

text \<open>
  For any behaviour of the kernel, a receive can only fault by running over the end of the
  data buffer, and only when the header it has just read announces more than fits.
\<close>

lemma tcp_recv_protocol_cmd_fault:
  assumes "tcp_recv_protocol_cmd w fd (Some h) (Some d) = Inl e" and "8 \<le> length h"
  shows "e = OOB \<and> length d < 65536 \<and>
    (\<exists>k hb w1. recv_loop w fd h 8 0 RETRIES = Inr (8, k, hb, w1) \<and>
      length d < unat (bodylen (head_of hb)))"
proof -
  have "0 \<le> fd" using assms(1) by (auto simp: tcp_recv_protocol_cmd_def split: if_splits)
  obtain t k hb w1 where l1: "recv_loop w fd h 8 0 RETRIES = Inr (t, k, hb, w1)"
    using recv_loop_fault[of w fd h 8 0 RETRIES] assms(2)
    by (cases "recv_loop w fd h 8 0 RETRIES") auto
  have len: "length hb = length h" using recv_loop_recvs[OF l1] by simp
  have t: "t = 8" using assms(1) l1 \<open>0 \<le> fd\<close>
    by (auto simp: tcp_recv_protocol_cmd_def split: if_splits)
  have "recv_loop w1 fd d (unat (bodylen (head_of hb))) 0 k = Inl e"
    using assms l1 \<open>0 \<le> fd\<close> t len
    by (auto simp: tcp_recv_protocol_cmd_def GET_head cbind_eq_Inl_iff split: if_splits)
  from recv_loop_fault[OF this] have "e = OOB" "length d < unat (bodylen (head_of hb))" by auto
  moreover have "unat (bodylen (head_of hb)) < 65536"
    using unsigned_less[of "bodylen (head_of hb)", where 'a = nat] by simp
  ultimately show ?thesis using l1 t by auto
qed

lemma tcp_recv_protocol_cmd_returns:
  assumes "tcp_recv_protocol_cmd w fd (Some h) (Some d) = Inr (r, h', d', w')"
  shows "(r = 0 \<or> r = -1) \<and> (\<exists>hb. h' = Some hb \<and> length hb = length h) \<and>
    (\<exists>db. d' = Some db \<and> length db = length d) \<and> (\<forall>g. g \<noteq> fd \<longrightarrow> w' g = w g)"
proof (cases "fd < 0")
  case True
  then show ?thesis using assms by (auto simp: tcp_recv_protocol_cmd_def)
next
  case False
  then obtain t k hb w1 where l1: "recv_loop w fd h 8 0 RETRIES = Inr (t, k, hb, w1)"
    using assms by (auto simp: tcp_recv_protocol_cmd_def cbind_eq_Inr_iff)
  note s1 = recv_loop_recvs[OF l1]
  show ?thesis
  proof (cases "t = 8")
    case False
    then show ?thesis
      using assms l1 s1 \<open>\<not> fd < 0\<close> by (auto simp: tcp_recv_protocol_cmd_def recvs_def)
  next
    case True
    then obtain bl :: u16 and t2 k2 db where l2: "recv_loop w1 fd d (unat bl) 0 k = Inr (t2, k2, db, w')"
      and res: "r = 0 \<or> r = -1" "h' = Some hb" "d' = Some db"
      using assms l1 \<open>\<not> fd < 0\<close>
      by (auto simp: tcp_recv_protocol_cmd_def cbind_eq_Inr_iff split: if_splits)
    show ?thesis using s1 recv_loop_recvs[OF l2] res by (auto simp: recvs_def)
  qed
qed

text \<open>
  Conversely, whatever the kernel does, a receive that reports success on an open descriptor
  has taken exactly one frame off the stream.
\<close>

lemma tcp_recv_protocol_cmd_success:
  assumes "tcp_recv_protocol_cmd w fd (Some h) (Some d) = Inr (0, h', d', w')"
    and "0 \<le> fd" and "length h = 8"
  shows "\<exists>hb body s s'. h' = Some hb \<and> length hb = 8 \<and>
    length body = unat (bodylen (head_of hb)) \<and> d' = Some (body @ drop (length body) d) \<and>
    w fd = Some s \<and> w' fd = Some s' \<and> incoming s = hb @ body @ incoming s' \<and>
    outgoing s' = outgoing s \<and> suffix (sched s') (sched s) \<and> (\<forall>g. g \<noteq> fd \<longrightarrow> w' g = w g)"
proof -
  obtain t k hb w1 where l1: "recv_loop w fd h 8 0 RETRIES = Inr (t, k, hb, w1)"
    using assms(1,2) by (auto simp: tcp_recv_protocol_cmd_def cbind_eq_Inr_iff)
  have t: "t = 8" using assms(1,2) l1
    by (auto simp: tcp_recv_protocol_cmd_def cbind_eq_Inr_iff split: if_splits)
  obtain bs where r1: "length bs = 8" "recvs w fd bs w1" "hb = bs" "length hb = 8"
    using recv_loop_recvs[OF l1] assms(3) t by auto
  let ?bl = "unat (bodylen (head_of hb))"
  obtain t2 k2 db where l2: "recv_loop w1 fd d ?bl 0 k = Inr (t2, k2, db, w')"
    and res: "t2 = ?bl" "h' = Some hb" "d' = Some db"
    using assms(1,2) l1 t r1(4)
    by (auto simp: tcp_recv_protocol_cmd_def cbind_eq_Inr_iff GET_head split: if_splits)
  obtain cs where r2: "length cs = ?bl" "recvs w1 fd cs w'" "db = cs @ drop ?bl d"
    using recv_loop_recvs[OF l2] res(1) by auto
  have rr: "recvs w fd (hb @ cs) w'" using recvs_trans r1(2,3) r2(2) by blast
  then obtain s s' where "w fd = Some s" "w' fd = Some s'" "incoming s = hb @ cs @ incoming s'"
    "outgoing s' = outgoing s" "suffix (sched s') (sched s)" "\<forall>g. g \<noteq> fd \<longrightarrow> w' g = w g"
    using r1(4) by (auto simp: recvs_def split: option.splits)
  then show ?thesis using r1(4) r2(1,3) res(2,3)
    by (intro exI[of _ hb] exI[of _ cs] exI[of _ s] exI[of _ s']) simp
qed

text \<open>
  A byte stream all of whose messages announce at most \<open>cap\<close> bytes (the last one may be
  incomplete).
\<close>

function framed :: "nat \<Rightarrow> bytes \<Rightarrow> bool" where
  "framed cap s \<longleftrightarrow>
     (if length s < 8 then True
      else let bl = unat (bodylen (head_of s)) in
        bl \<le> cap \<and> (length s < 8 + bl \<or> framed cap (drop (8 + bl) s)))"
  by pat_completeness auto
termination by (relation "measure (\<lambda>(cap, s). length s)") (auto simp: not_less)

declare framed.simps [simp del]

lemma framed_msg:
  assumes "framed cap (hb @ body @ r)" and "length hb = 8" and "length body = unat (bodylen (head_of hb))"
  shows "length body \<le> cap \<and> framed cap r"
proof -
  have "head_of (hb @ body @ r) = head_of hb" using assms(2) by (simp add: head_of_append)
  then show ?thesis using assms(1) assms(2,3) by (subst (asm) framed.simps) (simp add: Let_def)
qed

lemma framed_head:
  "framed cap (hb @ r) \<Longrightarrow> length hb = 8 \<Longrightarrow> unat (bodylen (head_of hb)) \<le> cap"
  by (subst (asm) framed.simps) (simp add: Let_def head_of_append)

lemma framed_appendI:
  assumes "length hb = 8" and "length body = unat (bodylen (head_of hb))" and "length body \<le> cap"
    and "framed cap r"
  shows "framed cap (hb @ body @ r)"
  using assms by (subst framed.simps) (simp add: Let_def head_of_append)

text \<open>With room for \<open>cap\<close> bytes no framed stream makes the receive fault.\<close>

lemma tcp_recv_protocol_cmd_framed:
  assumes "w fd = Some s" and "framed cap (incoming s)" and "cap \<le> length d" and "length h = 8"
  shows "\<exists>r h' d' w'. tcp_recv_protocol_cmd w fd (Some h) (Some d) = Inr (r, h', d', w')"
proof (cases "tcp_recv_protocol_cmd w fd (Some h) (Some d)")
  case (Inl e)
  then obtain k hb w1 where l: "recv_loop w fd h 8 0 RETRIES = Inr (8, k, hb, w1)"
    "length d < unat (bodylen (head_of hb))"
    using tcp_recv_protocol_cmd_fault[OF Inl] assms(4) by auto
  obtain bs where "length bs = 8" "recvs w fd bs w1" "hb = bs"
    using recv_loop_recvs[OF l(1)] assms(4) by auto
  then obtain r where "incoming s = hb @ r" "length hb = 8" using assms(1) by (auto simp: recvs_def)
  then show ?thesis using framed_head assms(2,3) l(2) by fastforce
qed auto

section \<open>Passing descriptors and error codes\<close>

text \<open>
  \<open>send_fd_unix_domain\<close> sends two bytes, a zero and a status, with the descriptor in a
  control message when there is one to pass.  The message as the kernel takes it, and the
  result from what sendmsg returned.
\<close>

record fd_msg =
  fm_bytes :: bytes
  fm_fd :: "int option"

definition send_fd_unix_domain :: "int \<Rightarrow> int \<Rightarrow> int \<Rightarrow> int \<times> fd_msg option" where
  "send_fd_unix_domain sockfd fd_to_send sendmsg_ret =
     (if sockfd < 0 then (-1, None)
      else
        let msg = (if fd_to_send < 0 then
                     let b1 = (word_of_int (- fd_to_send) :: u8)
                     in \<lparr>fm_bytes = [0, if b1 = 0 then 1 else b1], fm_fd = None\<rparr>
                   else \<lparr>fm_bytes = [0, 0], fm_fd = Some fd_to_send\<rparr>)
        in (if sendmsg_ret \<noteq> 2 then -1 else 0, Some msg))"

definition send_errno_unix_domain ::
    "net \<Rightarrow> int \<Rightarrow> int \<Rightarrow> bytes \<Rightarrow> int \<Rightarrow> (int \<times> net) cres" where
  "send_errno_unix_domain w sockfd errcode msg sendmsg_ret =
     (if errcode \<ge> 0 then Inr (-1, w)
      else
        let n = int (length msg) in
        cbind (if n > 0 then tcp_send_noblock w sockfd (Some msg) n else Inr (n, w)) (\<lambda>(r, w').
        if n > 0 \<and> r \<noteq> n then Inr (-1, w')
        else if fst (send_fd_unix_domain sockfd errcode sendmsg_ret) < 0 then Inr (-1, w')
        else Inr (0, w')))"

text \<open>
  \<open>recv_fd_unix_domain\<close> scans the bytes recvmsg stored in a 128 byte buffer.  \<open>nr\<close> is
  the bound of the scan and shrinks by two for each zero byte; the status is the byte after
  the zero.  The scan's state is (position, nr, status, newfd); \<open>newfd\<close> is uninitialised
  until a status byte has been seen, and a status of 0 makes it what CMSG\_DATA of the control
  buffer holds, \<open>cfd\<close>.
\<close>

function recv_fd_scan ::
    "bytes \<Rightarrow> int \<Rightarrow> nat \<Rightarrow> int \<Rightarrow> int \<Rightarrow> int option \<Rightarrow> (int \<times> int option) cres" where
  "recv_fd_scan buf cfd ptr nr status newfd =
     (if int ptr < nr then
        cbind (peek buf ptr) (\<lambda>b.
        if b = 0 then
          cbind (peek buf (Suc ptr)) (\<lambda>st.
          recv_fd_scan buf cfd (Suc ptr) (nr - 2) (uint st)
            (if st = 0 then Some cfd else Some (- uint st)))
        else recv_fd_scan buf cfd (Suc ptr) nr status newfd)
      else Inr (status, newfd))"
  by pat_completeness auto
termination
  by (relation "measure (\<lambda>(buf, cfd, ptr, nr, status, newfd). nat (nr - int ptr))") auto

declare recv_fd_scan.simps [simp del]

lemma recv_fd_scan_done: "nr \<le> int ptr \<Longrightarrow> recv_fd_scan buf c ptr nr st f = Inr (st, f)"
  by (subst recv_fd_scan.simps) simp

text \<open>
  The outer loop receives until a status has been seen; what successive calls of recvmsg
  return is its parameter (the bytes and the descriptor of the control message), and a call
  that fails or finds the stream closed ends it.  The list of messages bounds the loop.  The
  control buffer is zeroed once; a message with a descriptor overwrites its data, one without
  leaves what the last one put there.
\<close>

definition recv_store :: "bytes \<Rightarrow> bytes \<Rightarrow> bytes" where
  "recv_store buf bs = take 128 bs @ drop (length (take 128 bs)) buf"

fun recv_fd_loop :: "bytes \<Rightarrow> int \<Rightarrow> int \<Rightarrow> int option \<Rightarrow> fd_msg list \<Rightarrow> int cres" where
  "recv_fd_loop buf cfd status newfd [] = Inr (-1)"
| "recv_fd_loop buf cfd status newfd (m # ms) =
     (let nr = length (take 128 (fm_bytes m)); buf' = recv_store buf (fm_bytes m);
          cfd' = (case fm_fd m of None \<Rightarrow> cfd | Some f \<Rightarrow> f) in
      if nr = 0 then Inr (-1)
      else cbind (recv_fd_scan buf' cfd' 0 (int nr) status newfd) (\<lambda>(status', newfd').
        if status' \<ge> 0 then (case newfd' of None \<Rightarrow> Inl Uninit | Some f \<Rightarrow> Inr f)
        else recv_fd_loop buf' cfd' status' newfd' ms))"

definition recv_fd_unix_domain :: "fd_msg list \<Rightarrow> int cres" where
  "recv_fd_unix_domain ms = recv_fd_loop (replicate 128 0) 0 (-1) None ms"

text \<open>
  What SCM\_RIGHTS does (unix(7)): the receiver gets the bytes and, for a descriptor of the
  sender, a new descriptor of its own, one that was free, for the same open file.  A table maps
  the descriptors of a process to its open files.
\<close>

type_synonym fd_table = "int \<Rightarrow> nat option"

definition scm_delivers :: "fd_table \<Rightarrow> fd_table \<Rightarrow> fd_msg \<Rightarrow> fd_msg \<Rightarrow> fd_table \<Rightarrow> bool" where
  "scm_delivers snd_fds rcv_fds m m' rcv_fds' \<longleftrightarrow> fm_bytes m' = fm_bytes m \<and>
     (case fm_fd m of
        None \<Rightarrow> fm_fd m' = None \<and> rcv_fds' = rcv_fds
      | Some fd \<Rightarrow> snd_fds fd \<noteq> None \<and>
          (\<exists>g. fm_fd m' = Some g \<and> 0 \<le> g \<and> rcv_fds g = None \<and> rcv_fds' = rcv_fds(g := snd_fds fd)))"

lemma send_errno_nonempty_fails:
  assumes "msg \<noteq> []" and "send_errno_unix_domain w fd errcode msg ret = Inr (r, w')"
  shows "r = -1"
proof (cases "0 \<le> errcode \<or> fd < 0")
  case True
  then show ?thesis
    using assms by (auto simp: send_errno_unix_domain_def tcp_send_noblock_idle Let_def split: if_splits)
next
  case False
  then obtain q w1 where q: "tcp_send_noblock w fd (Some msg) (int (length msg)) = Inr (q, w1)"
    and r: "if q \<noteq> int (length msg) then r = -1 else True"
    using assms by (auto simp: send_errno_unix_domain_def cbind_eq_Inr_iff Let_def split: if_splits)
  have "q \<le> 0" using tcp_send_noblock_prefix[OF q] assms(1) False by (auto split: if_splits)
  then show ?thesis using r assms(1) by (auto split: if_splits)
qed

lemma recv_fd_one:
  assumes "length bs = 2" and "bs ! 0 = 0"
  shows "recv_fd_unix_domain [\<lparr>fm_bytes = bs, fm_fd = c\<rparr>] =
    Inr (if bs ! 1 = 0 then (case c of None \<Rightarrow> 0 | Some f \<Rightarrow> f) else - uint (bs ! 1))"
proof -
  obtain st where bs: "bs = [0, st]" using assms by (auto simp: numeral_eq_Suc length_Suc_conv)
  let ?buf = "[0, st] @ replicate 126 0" and ?f = "case c of None \<Rightarrow> 0 | Some f \<Rightarrow> f"
  have "recv_fd_scan ?buf ?f 0 2 (-1) None =
      Inr (uint st, if st = 0 then Some ?f else Some (- uint st))"
    by (subst recv_fd_scan.simps) (simp add: peek_def recv_fd_scan_done)
  moreover have "recv_store (replicate 128 0) bs = ?buf" by (simp add: recv_store_def bs)
  ultimately show ?thesis by (simp add: recv_fd_unix_domain_def bs)
qed

section \<open>Creating, connecting and accepting\<close>

text \<open>
  \<open>sun_path\<close> has 108 bytes.  The system calls' results are parameters; the calls that change
  the outside world are returned in order.  strcpy into \<open>sun_path\<close> stores the name and its
  terminator, so it overruns the array when they do not fit.
\<close>

definition SUN_PATH_SIZE :: nat where "SUN_PATH_SIZE = 108"

datatype sysact = Unlink bytes | Bind int bytes | Chmod bytes nat | Connect int bytes | CloseFd int

definition strcpy_sun_path :: "bytes \<Rightarrow> unit cres" where
  "strcpy_sun_path name = (if length name + 1 \<le> SUN_PATH_SIZE then Inr () else Inl OOB)"

definition creat_bind_unix_tcp ::
    "bytes option \<Rightarrow> int \<Rightarrow> bool \<Rightarrow> (int \<times> sysact list) cres" where
  "creat_bind_unix_tcp name socket_ret bind_ok =
     cbind (deref name) (\<lambda>nm.
     if length nm > SUN_PATH_SIZE then Inr (-1, [])
     else cbind (strcpy_sun_path nm) (\<lambda>_.
       if socket_ret < 0 then Inr (-1, [Unlink nm])
       else if \<not> bind_ok then Inr (-1, [Unlink nm, Bind socket_ret nm])
       else Inr (socket_ret, [Unlink nm, Bind socket_ret nm, Chmod nm 438])))"

definition connect_unix_tcp :: "int \<Rightarrow> bytes option \<Rightarrow> bool \<Rightarrow> (int \<times> sysact list) cres" where
  "connect_unix_tcp sockfd server_name connect_ok =
     (if sockfd < 0 then Inr (-1, [])
      else cbind (deref server_name) (\<lambda>nm.
        cbind (strcpy_sun_path nm) (\<lambda>_.
        Inr (if connect_ok then 0 else -1, [Connect sockfd nm]))))"

definition listen_unix_tcp :: "int \<Rightarrow> int" where
  "listen_unix_tcp listen_ret = listen_ret"

text \<open>
  \<open>accept_unix_tcp\<close>: what accept returned, the length it reported, the 108 bytes of \<open>sun_path\<close>
  afterwards, and what stat says about the name made of them (\<open>None\<close> when it fails, else whether
  it is a socket).  When accept fails the length is still the size of the structure and \<open>sun_path\<close>
  is whatever the stack held; the code goes on with both.  For a path that fills \<open>sun_path\<close> accept
  reports a length of 111, and memcpy reads past the array.
\<close>

record accept_env =
  acc_fd :: int
  acc_len :: nat
  acc_path :: bytes
  acc_is_sock :: "bool option"

definition SOCKADDR_UN_SIZE :: nat where "SOCKADDR_UN_SIZE = 110"

definition accept_unix_tcp :: "accept_env \<Rightarrow> (int \<times> bytes option) cres" where
  "accept_unix_tcp a =
     (let len = (if acc_fd a < 0 then SOCKADDR_UN_SIZE else acc_len a) in
      if len < 2 then Inl OOB
      else cbind (slice (acc_path a) 0 (len - 2)) (\<lambda>sun_path.
        if len - 2 \<ge> 128 then Inl OOB
        else
          let name = cstr (sun_path @ [0]) in
          Inr (case acc_is_sock a of
                 None \<Rightarrow> (-1, None)
               | Some is_sock \<Rightarrow> if \<not> is_sock then (-1, None) else (acc_fd a, Some name))))"

text \<open>
  unix(7): a socket bound to a path is reported with the path and its NUL, one that is not bound
  with no path at all; the structure has 110 bytes.
\<close>

definition reports_path :: "accept_env \<Rightarrow> bytes \<Rightarrow> bool" where
  "reports_path a path \<longleftrightarrow> 0 \<notin> set path \<and> acc_len a = 2 + length path + 1 \<and>
     length (acc_path a) = SUN_PATH_SIZE \<and> take (length path + 1) (acc_path a) = path @ [0]"

lemma accept_unix_tcp_path:
  assumes "0 \<le> acc_fd a" and "reports_path a path" and "length path < SUN_PATH_SIZE"
  shows "accept_unix_tcp a =
    Inr (if acc_is_sock a = Some True then (acc_fd a, Some path) else (-1, None))"
proof -
  have "slice (acc_path a) 0 (length path + 1) = Inr (path @ [0])"
    using assms(2,3) by (simp add: slice_def reports_path_def SUN_PATH_SIZE_def)
  moreover have "cstr ((path @ [0]) @ [0]) = path"
    using assms(2) cstr_append_NUL[of path "[0]"] by (simp add: reports_path_def)
  ultimately show ?thesis
    using assms by (auto simp: accept_unix_tcp_def reports_path_def SUN_PATH_SIZE_def Let_def split: option.splits)
qed

text \<open>A length the structure has room for keeps the copy inside both arrays.\<close>

lemma accept_unix_tcp_total:
  assumes "length (acc_path a) = SUN_PATH_SIZE" and "2 \<le> acc_len a" and "acc_len a \<le> SOCKADDR_UN_SIZE"
  shows "\<exists>c un. accept_unix_tcp a = Inr (c, un) \<and> (c < 0 \<or> (c = acc_fd a \<and> un \<noteq> None))"
proof -
  let ?n = "(if acc_fd a < 0 then SOCKADDR_UN_SIZE else acc_len a) - 2"
  have "?n \<le> length (acc_path a)" using assms by (auto simp: SUN_PATH_SIZE_def SOCKADDR_UN_SIZE_def)
  then have "slice (acc_path a) 0 ?n = Inr (take ?n (acc_path a))" by (simp add: slice_def)
  then show ?thesis
    using assms by (auto simp: accept_unix_tcp_def SOCKADDR_UN_SIZE_def Let_def split: option.splits)
qed

text \<open>
  \<open>wait_all_unix_connet\<close> waits for the eight bytes of \<open>CMD_ALL_CONNECT_OK\<close>; recv with
  MSG\_WAITALL returned the bytes given.
\<close>

definition CMD_ALL_CONNECT_OK :: bytes where
  "CMD_ALL_CONNECT_OK = [73, 72, 0, 0, 1, 1, 0, 0]"

definition wait_all_unix_connet :: "bytes \<Rightarrow> int" where
  "wait_all_unix_connet got =
     (if length got \<noteq> length CMD_ALL_CONNECT_OK then -1
      else if got = CMD_ALL_CONNECT_OK then 0 else -1)"

text \<open>The ready message is the header of an empty parallel command with id CONN\_OK.\<close>

lemma CMD_ALL_CONNECT_OK_head:
  "head_of CMD_ALL_CONNECT_OK =
     \<lparr>szMagic = PROTOCOL_MAGIC, bodylen = 0, cmdSendType = word_of_int IH_CMD_TYPE_SEND_PARALLEL,
       cmdid = word_of_int IH_CMD_ID_CONN_OK, broadcast_num = 0, pad = 0\<rparr>"
  by (simp add: head_of_def CMD_ALL_CONNECT_OK_def PROTOCOL_MAGIC_def cmd_consts un16_def)

section \<open>The contract of the sender\<close>

text \<open>
  What a component that sends prepared messages relies on: \<open>put\<close> on a closed descriptor
  does nothing and reports success, and otherwise reports 0 exactly when all of the message's
  bytes went out, a negative value when only a proper prefix did.  It has no result only on a
  descriptor that is not \<open>quiet\<close> (the peer is gone, and SIGPIPE ends the process); sending keeps
  the quiet descriptors quiet.
\<close>

locale message_sink =
  fixes put :: "net \<Rightarrow> int \<Rightarrow> 'm \<Rightarrow> (int \<times> net) cres"
    and wire :: "'m \<Rightarrow> bytes"
    and valid :: "'m \<Rightarrow> bool"
    and quiet :: "net \<Rightarrow> int \<Rightarrow> bool"
  assumes put_closed: "fd < 0 \<Longrightarrow> put w fd m = Inr (0, w)"
    and put_fault: "valid m \<Longrightarrow> 0 \<le> fd \<Longrightarrow> put w fd m = Inl e \<Longrightarrow> e = Killed \<and> \<not> quiet w fd"
    and quiet_stable: "sends w g bs w' \<Longrightarrow> quiet w fd \<Longrightarrow> quiet w' fd"
    and put_all: "valid m \<Longrightarrow> 0 \<le> fd \<Longrightarrow> put w fd m = Inr (r, w') \<Longrightarrow> 0 \<le> r \<Longrightarrow>
      sends w fd (wire m) w'"
    and put_part: "valid m \<Longrightarrow> 0 \<le> fd \<Longrightarrow> put w fd m = Inr (r, w') \<Longrightarrow> r < 0 \<Longrightarrow>
      \<exists>n < length (wire m). sends w fd (take n (wire m)) w'"
begin

text \<open>A put never touches another descriptor.\<close>

lemma put_frame:
  "valid m \<Longrightarrow> put w fd m = Inr (r, w') \<Longrightarrow> g \<noteq> fd \<Longrightarrow> w' g = w g"
  using put_closed[of fd w m] put_all[of m fd w r w'] put_part[of m fd w r w']
  by (cases "fd < 0"; cases "r < 0") (auto simp: sends_def)

end

text \<open>
  A sink on which some descriptors are known to be ready: a put on a ready descriptor
  succeeds, and sending on any descriptor leaves the ready ones ready.
\<close>

locale reliable_sink = message_sink put wire valid quiet
  for put :: "net \<Rightarrow> int \<Rightarrow> 'm \<Rightarrow> (int \<times> net) cres"
    and wire :: "'m \<Rightarrow> bytes"
    and valid :: "'m \<Rightarrow> bool"
    and quiet :: "net \<Rightarrow> int \<Rightarrow> bool" +
  fixes ready :: "net \<Rightarrow> int \<Rightarrow> bool"
  assumes put_ready: "valid m \<Longrightarrow> 0 \<le> fd \<Longrightarrow> ready w fd \<Longrightarrow> \<exists>r w'. put w fd m = Inr (r, w') \<and> 0 \<le> r"
    and ready_stable: "sends w g bs w' \<Longrightarrow> ready w fd \<Longrightarrow> ready w' fd"

definition put_cmd :: "net \<Rightarrow> int \<Rightarrow> bytes \<times> bytes \<Rightarrow> (int \<times> net) cres" where
  "put_cmd w fd m = tcp_send_protocol_cmd w fd (Some (fst m)) (Some (snd m))"

definition cmd_valid :: "bytes \<times> bytes \<Rightarrow> bool" where
  "cmd_valid m \<longleftrightarrow> 8 \<le> length (fst m) \<and> unat (bodylen (head_of (fst m))) \<le> length (snd m)"

interpretation cmd: message_sink put_cmd "\<lambda>m. frame (fst m) (snd m)" cmd_valid pipe_ok
proof unfold_locales
  fix w :: net and fd :: int and m
  show "fd < 0 \<Longrightarrow> put_cmd w fd m = Inr (0, w)" by (simp add: put_cmd_def tcp_send_closed)
next
  fix w :: net and fd :: int and m e
  assume "cmd_valid m" "0 \<le> fd" "put_cmd w fd m = Inl e"
  then show "e = Killed \<and> \<not> pipe_ok w fd"
    using tcp_send_protocol_cmd_outcome[of fd "fst m" "snd m" w]
    by (auto simp: put_cmd_def cmd_valid_def)
next
  fix w w' :: net and fd g bs
  show "sends w g bs w' \<Longrightarrow> pipe_ok w fd \<Longrightarrow> pipe_ok w' fd" by (rule pipe_ok_sends)
next
  fix w :: net and fd :: int and m r w'
  assume "cmd_valid m" "0 \<le> fd" "put_cmd w fd m = Inr (r, w')" "0 \<le> r"
  then show "sends w fd (frame (fst m) (snd m)) w'"
    using tcp_send_protocol_cmd_outcome[of fd "fst m" "snd m" w]
    by (auto simp: put_cmd_def cmd_valid_def split: if_splits)
next
  fix w :: net and fd :: int and m r w'
  assume "cmd_valid m" "0 \<le> fd" "put_cmd w fd m = Inr (r, w')" "r < 0"
  then show "\<exists>n<length (frame (fst m) (snd m)). sends w fd (take n (frame (fst m) (snd m))) w'"
    using tcp_send_protocol_cmd_outcome[of fd "fst m" "snd m" w]
    by (auto simp: put_cmd_def cmd_valid_def split: if_splits)
qed

definition fd_ready :: "net \<Rightarrow> int \<Rightarrow> bool" where
  "fd_ready w fd \<longleftrightarrow> (\<exists>s. w fd = Some s \<and> obliging RETRIES (sched s))"

lemma fd_ready_sends: "sends w g bs w' \<Longrightarrow> fd_ready w fd \<Longrightarrow> fd_ready w' fd"
  unfolding fd_ready_def sends_def
  by (cases "fd = g") (auto, (metis obliging_suffix)+)

interpretation rcmd: reliable_sink put_cmd "\<lambda>m. frame (fst m) (snd m)" cmd_valid pipe_ok fd_ready
proof unfold_locales
  fix w :: net and fd :: int and m
  assume "cmd_valid m" "0 \<le> fd" "fd_ready w fd"
  then show "\<exists>r w'. put_cmd w fd m = Inr (r, w') \<and> 0 \<le> r"
    using tcp_send_protocol_cmd_obliging[of w fd _ "fst m" "snd m"]
    by (fastforce simp: put_cmd_def cmd_valid_def fd_ready_def)
next
  fix w w' :: net and fd g bs
  show "sends w g bs w' \<Longrightarrow> fd_ready w fd \<Longrightarrow> fd_ready w' fd" by (rule fd_ready_sends)
qed

end
