(* ===== verification/IhList.thy ===== *)
theory IhList
  imports Prelude
begin

text \<open>
  The intrusive lists of include/list.h.  Addresses of the embedded \<open>struct list_head\<close> are
  natural numbers and the store maps each of them to its \<open>next\<close> and \<open>prev\<close> field, so that
  the aliasing of the C code is kept: every operation is the sequence of field assignments
  of the header.  \<open>dlist s h xs\<close> says that the circular list at \<open>h\<close> holds exactly the
  entries \<open>xs\<close>; each operation is shown to implement its list counterpart and the loops of
  the header to visit the entries in order.  The second half does the same for the
  singly-linked \<open>slist\<close>.
\<close>

section \<open>The store and the operations on doubly-linked lists\<close>

record dstore =
  nxt :: "nat \<Rightarrow> nat"
  prv :: "nat \<Rightarrow> nat"

definition set_next :: "nat \<Rightarrow> nat \<Rightarrow> dstore \<Rightarrow> dstore" where
  "set_next p q s = s\<lparr>nxt := (nxt s)(p := q)\<rparr>"

definition set_prev :: "nat \<Rightarrow> nat \<Rightarrow> dstore \<Rightarrow> dstore" where
  "set_prev p q s = s\<lparr>prv := (prv s)(p := q)\<rparr>"

definition INIT_LIST_HEAD :: "nat \<Rightarrow> dstore \<Rightarrow> dstore" where
  "INIT_LIST_HEAD lst s = set_prev lst lst (set_next lst lst s)"

definition list_add_between :: "nat \<Rightarrow> nat \<Rightarrow> nat \<Rightarrow> dstore \<Rightarrow> dstore" where
  "list_add_between node prev next s =
     (let s1 = set_prev next node s;
          s2 = set_next node next s1;
          s3 = set_prev node prev s2
      in set_next prev node s3)"

definition list_add :: "nat \<Rightarrow> nat \<Rightarrow> dstore \<Rightarrow> dstore" where
  "list_add node head s = list_add_between node head (nxt s head) s"

definition list_add_tail :: "nat \<Rightarrow> nat \<Rightarrow> dstore \<Rightarrow> dstore" where
  "list_add_tail node head s = list_add_between node (prv s head) head s"

definition list_del_between :: "nat \<Rightarrow> nat \<Rightarrow> dstore \<Rightarrow> dstore" where
  "list_del_between prev next s = set_next prev next (set_prev next prev s)"

definition list_del :: "nat \<Rightarrow> dstore \<Rightarrow> dstore" where
  "list_del entry s = list_del_between (prv s entry) (nxt s entry) s"

definition list_move :: "nat \<Rightarrow> nat \<Rightarrow> dstore \<Rightarrow> dstore" where
  "list_move lst head s = list_add lst head (list_del_between (prv s lst) (nxt s lst) s)"

definition list_move_tail :: "nat \<Rightarrow> nat \<Rightarrow> dstore \<Rightarrow> dstore" where
  "list_move_tail lst head s =
     list_add_tail lst head (list_del_between (prv s lst) (nxt s lst) s)"

definition list_empty :: "nat \<Rightarrow> dstore \<Rightarrow> bool" where
  "list_empty head s \<longleftrightarrow> nxt s head = head"

definition list_splice_between :: "nat \<Rightarrow> nat \<Rightarrow> dstore \<Rightarrow> dstore" where
  "list_splice_between lst head s =
     (let first = nxt s lst; last = prv s lst; at = nxt s head;
          s1 = set_prev first head s;
          s2 = set_next head first s1;
          s3 = set_next last at s2
      in set_prev at last s3)"

definition list_splice :: "nat \<Rightarrow> nat \<Rightarrow> dstore \<Rightarrow> dstore" where
  "list_splice lst head s =
     (if \<not> list_empty lst s then list_splice_between lst head s else s)"

definition list_splice_init :: "nat \<Rightarrow> nat \<Rightarrow> dstore \<Rightarrow> dstore" where
  "list_splice_init lst head s =
     (if \<not> list_empty lst s then INIT_LIST_HEAD lst (list_splice_between lst head s) else s)"

text \<open>
  The iteration macros.  A loop over a list in the store may run forever (a corrupted list
  need not come back to its head), so the loops take fuel and return \<open>None\<close> when it runs
  out; \<open>for_each_visits\<close> below says that one unit per entry and one for the exit suffice.
\<close>

fun list_walk :: "nat \<Rightarrow> (nat \<Rightarrow> nat) \<Rightarrow> nat \<Rightarrow> nat \<Rightarrow> nat list option" where
  "list_walk 0 step head pos = None"
| "list_walk (Suc fuel) step head pos =
     (if pos = head then Some []
      else map_option (\<lambda>ps. pos # ps) (list_walk fuel step head (step pos)))"

definition list_for_each :: "nat \<Rightarrow> nat \<Rightarrow> dstore \<Rightarrow> nat list option" where
  "list_for_each fuel head s = list_walk fuel (nxt s) head (nxt s head)"

definition list_for_each_prev :: "nat \<Rightarrow> nat \<Rightarrow> dstore \<Rightarrow> nat list option" where
  "list_for_each_prev fuel head s = list_walk fuel (prv s) head (prv s head)"

text \<open>The loop that is safe against removal reads the next entry before it runs the body.\<close>

fun list_safe_loop ::
    "nat \<Rightarrow> (nat \<Rightarrow> dstore \<Rightarrow> dstore) \<Rightarrow> nat \<Rightarrow> nat \<Rightarrow> nat \<Rightarrow> dstore \<Rightarrow> dstore option" where
  "list_safe_loop 0 body head pos n s = None"
| "list_safe_loop (Suc fuel) body head pos n s =
     (if pos = head then Some s
      else let s' = body pos s in list_safe_loop fuel body head n (nxt s' n) s')"

definition list_for_each_safe ::
    "nat \<Rightarrow> (nat \<Rightarrow> dstore \<Rightarrow> dstore) \<Rightarrow> nat \<Rightarrow> dstore \<Rightarrow> dstore option" where
  "list_for_each_safe fuel body head s =
     list_safe_loop fuel body head (nxt s head) (nxt s (nxt s head)) s"

section \<open>The abstraction: what a list in the store holds\<close>

fun seg :: "dstore \<Rightarrow> nat \<Rightarrow> nat list \<Rightarrow> nat \<Rightarrow> bool" where
  "seg s a [] b \<longleftrightarrow> nxt s a = b \<and> prv s b = a"
| "seg s a (x # xs) b \<longleftrightarrow> nxt s a = x \<and> prv s x = a \<and> seg s x xs b"

definition dlist :: "dstore \<Rightarrow> nat \<Rightarrow> nat list \<Rightarrow> bool" where
  "dlist s h xs \<longleftrightarrow> distinct (h # xs) \<and> seg s h xs h"

lemma nxt_set_next [simp]: "nxt (set_next p q s) = (nxt s)(p := q)"
  and prv_set_next [simp]: "prv (set_next p q s) = prv s"
  and nxt_set_prev [simp]: "nxt (set_prev p q s) = nxt s"
  and prv_set_prev [simp]: "prv (set_prev p q s) = (prv s)(p := q)"
  by (simp_all add: set_next_def set_prev_def)

lemma seg_append: "seg s a (xs @ y # ys) b \<longleftrightarrow> seg s a xs y \<and> seg s y ys b"
  by (induction xs arbitrary: a) auto

lemma seg_set_next [simp]: "p \<notin> set (a # xs) \<Longrightarrow> seg (set_next p q s) a xs b = seg s a xs b"
  by (induction xs arbitrary: a) auto

lemma seg_set_prev [simp]: "p \<notin> set (xs @ [b]) \<Longrightarrow> seg (set_prev p q s) a xs b = seg s a xs b"
  by (induction xs arbitrary: a) auto

lemma seg_frame:
  assumes "\<And>p. p \<in> set (a # xs) \<Longrightarrow> nxt s' p = nxt s p"
    and "\<And>p. p \<in> set (xs @ [b]) \<Longrightarrow> prv s' p = prv s p"
  shows "seg s' a xs b = seg s a xs b"
  using assms by (induction xs arbitrary: a) auto

text \<open>Retargeting the two ends of a segment.\<close>

lemma seg_prv_end: "seg s a xs b \<Longrightarrow> prv s b = last (a # xs)"
  by (induction xs arbitrary: a) auto

lemma seg_nxt_start: "seg s a xs b \<Longrightarrow> nxt s a = hd (xs @ [b])"
  by (cases xs) auto

lemma seg_snoc: "seg s a (xs @ [y]) b \<longleftrightarrow> seg s a xs y \<and> nxt s y = b \<and> prv s b = y"
  using seg_append[of s a xs y "[]" b] by simp

section \<open>Each operation implements its list counterpart\<close>

lemma INIT_LIST_HEAD_dlist: "dlist (INIT_LIST_HEAD h s) h []"
  by (simp add: dlist_def INIT_LIST_HEAD_def)

lemma list_empty_dlist: "dlist s h xs \<Longrightarrow> list_empty h s \<longleftrightarrow> xs = []"
  by (cases xs) (auto simp: dlist_def list_empty_def)

lemma list_add_dlist:
  assumes "dlist s h xs" and "n \<notin> set (h # xs)"
  shows "dlist (list_add n h s) h (n # xs)"
  using assms
  by (cases xs) (auto simp: dlist_def list_add_def list_add_between_def Let_def)

lemma list_add_tail_dlist:
  assumes "dlist s h xs" and "n \<notin> set (h # xs)"
  shows "dlist (list_add_tail n h s) h (xs @ [n])"
  using assms
  by (cases xs rule: rev_cases)
    (auto simp: dlist_def list_add_tail_def list_add_between_def Let_def seg_snoc seg_append)

lemma seg_unlink:
  assumes "seg s a (xs @ n # ys) b" and "distinct (a # xs @ n # ys)" and "b \<notin> set (xs @ n # ys)"
  shows "seg (list_del n s) a (xs @ ys) b"
  using assms
  by (cases xs rule: rev_cases; cases ys)
    (auto simp: list_del_def list_del_between_def seg_snoc seg_append)

lemma list_del_dlist:
  "dlist s h (xs @ n # ys) \<Longrightarrow> dlist (list_del n s) h (xs @ ys)"
  using seg_unlink[of s h xs n ys h] by (auto simp: dlist_def)

lemma dlist_frame:
  assumes "dlist s h xs"
    and "\<And>p. p \<in> set (h # xs) \<Longrightarrow> nxt s' p = nxt s p \<and> prv s' p = prv s p"
  shows "dlist s' h xs"
  using assms seg_frame[of h xs s' s h] by (auto simp: dlist_def)

text \<open>Deleting an entry writes only to its two neighbours in its own list.\<close>

lemma dlist_neighbours:
  assumes "dlist s h (xs @ n # ys)"
  shows "prv s n \<in> set (h # xs @ ys)" and "nxt s n \<in> set (h # xs @ ys)"
  using assms by (cases xs rule: rev_cases; cases ys; auto simp: dlist_def seg_append seg_snoc)+

lemma list_del_frame:
  assumes "dlist s h (xs @ n # ys)" and "p \<notin> set (h # xs @ ys)"
  shows "nxt (list_del n s) p = nxt s p" and "prv (list_del n s) p = prv s p"
  using assms dlist_neighbours[OF assms(1)]
  by (auto simp: list_del_def list_del_between_def)

lemma dlist_ends_eq:
  assumes "dlist s h xs"
  shows "nxt s h = hd (xs @ [h])" and "prv s h = last (h # xs)"
  using assms seg_nxt_start seg_prv_end by (auto simp: dlist_def)

lemma dlist_ends:
  assumes "dlist s h xs"
  shows "nxt s h \<in> set (h # xs)" and "prv s h \<in> set (h # xs)"
  using dlist_ends_eq[OF assms] by (cases xs; auto)+

lemma list_add_frame:
  assumes "dlist s h xs" and "p \<notin> set (n # h # xs)"
  shows "nxt (list_add n h s) p = nxt s p" and "prv (list_add n h s) p = prv s p"
  using assms dlist_ends[OF assms(1)] by (auto simp: list_add_def list_add_between_def Let_def)

lemma list_add_tail_frame:
  assumes "dlist s h xs" and "p \<notin> set (n # h # xs)"
  shows "nxt (list_add_tail n h s) p = nxt s p" and "prv (list_add_tail n h s) p = prv s p"
  using assms dlist_ends[OF assms(1)] by (auto simp: list_add_tail_def list_add_between_def Let_def)

lemma list_move_conv: "list_move n h s = list_add n h (list_del n s)"
  and list_move_tail_conv: "list_move_tail n h s = list_add_tail n h (list_del n s)"
  by (simp_all add: list_move_def list_move_tail_def list_del_def)

lemma list_move_same:
  assumes "dlist s h (xs @ n # ys)"
  shows "dlist (list_move n h s) h (n # xs @ ys)"
    and "dlist (list_move_tail n h s) h (xs @ ys @ [n])"
  using assms list_add_dlist[OF list_del_dlist[OF assms]]
    list_add_tail_dlist[OF list_del_dlist[OF assms]]
  by (auto simp: list_move_conv list_move_tail_conv dlist_def)

lemma list_move_other:
  assumes src: "dlist s h1 (xs @ n # ys)" and dst: "dlist s h2 zs"
    and disj: "set (h1 # xs @ n # ys) \<inter> set (h2 # zs) = {}"
  shows "dlist (list_move n h2 s) h1 (xs @ ys)" and "dlist (list_move n h2 s) h2 (n # zs)"
    and "dlist (list_move_tail n h2 s) h1 (xs @ ys)"
    and "dlist (list_move_tail n h2 s) h2 (zs @ [n])"
proof -
  let ?d = "list_del n s"
  have d1: "dlist ?d h1 (xs @ ys)" by (rule list_del_dlist[OF src])
  have d2: "dlist ?d h2 zs"
    using disj by (intro dlist_frame[OF dst] conjI list_del_frame[OF src]) auto
  have n: "n \<notin> set (h2 # zs)" using disj by auto
  show "dlist (list_move n h2 s) h2 (n # zs)" and "dlist (list_move_tail n h2 s) h2 (zs @ [n])"
    using list_add_dlist[OF d2 n] list_add_tail_dlist[OF d2 n]
    by (simp_all add: list_move_conv list_move_tail_conv)
  have n1: "p \<notin> set (n # h2 # zs)" if "p \<in> set (h1 # xs @ ys)" for p
    using that disj src by (auto simp: dlist_def)
  show "dlist (list_move n h2 s) h1 (xs @ ys)" and "dlist (list_move_tail n h2 s) h1 (xs @ ys)"
    unfolding list_move_conv list_move_tail_conv
    using n1 by (auto intro!: dlist_frame[OF d1] list_add_frame[OF d2] list_add_tail_frame[OF d2])
qed

lemma list_splice_dlist:
  assumes "dlist s l xs" and "dlist s h ys" and "set (l # xs) \<inter> set (h # ys) = {}"
  shows "dlist (list_splice l h s) h (xs @ ys)"
proof (cases xs)
  case Nil
  then show ?thesis using assms by (simp add: list_splice_def list_empty_dlist)
next
  case (Cons x xs')
  then obtain zs z where xs: "xs = zs @ [z]" by (metis rev_exhaust list.discI)
  have ne: "\<not> list_empty l s" using assms(1) Cons by (simp add: list_empty_dlist)
  have first: "nxt s l = x" using dlist_ends_eq(1)[OF assms(1)] Cons by simp
  have last: "prv s l = z" using dlist_ends_eq(2)[OF assms(1)] xs by simp
  have seg_xs: "seg s l xs l" and seg_ys: "seg s h ys h" and dist: "distinct (l # xs @ h # ys)"
    using assms by (auto simp: dlist_def)
  show ?thesis
  proof (cases ys)
    case Nil
    then show ?thesis
      using ne first last seg_xs seg_ys dist Cons xs
      by (cases zs)
        (auto simp: dlist_def list_splice_def list_splice_between_def Let_def seg_snoc seg_append)
  next
    case (Cons y ys')
    then show ?thesis
      using ne first last seg_xs seg_ys dist \<open>xs = x # xs'\<close> xs
      by (cases zs)
        (auto simp: dlist_def list_splice_def list_splice_between_def Let_def seg_snoc seg_append)
  qed
qed

lemma list_splice_init_dlist:
  assumes "dlist s l xs" and "dlist s h ys" and "set (l # xs) \<inter> set (h # ys) = {}"
  shows "dlist (list_splice_init l h s) h (xs @ ys)" and "dlist (list_splice_init l h s) l []"
proof -
  have sp: "dlist (list_splice l h s) h (xs @ ys)" by (rule list_splice_dlist[OF assms])
  have conv: "list_splice_init l h s =
      (if list_empty l s then s else INIT_LIST_HEAD l (list_splice l h s))"
    by (simp add: list_splice_init_def list_splice_def)
  have "dlist (INIT_LIST_HEAD l (list_splice l h s)) h (xs @ ys)"
    using assms by (intro dlist_frame[OF sp]) (auto simp: INIT_LIST_HEAD_def dlist_def)
  moreover have "list_empty l s \<Longrightarrow> xs = []" using assms(1) by (simp add: list_empty_dlist)
  ultimately show "dlist (list_splice_init l h s) h (xs @ ys)"
    using assms by (auto simp: conv)
  show "dlist (list_splice_init l h s) l []"
    using assms by (auto simp: conv INIT_LIST_HEAD_dlist list_empty_dlist)
qed

section \<open>The loops visit the entries in order\<close>

lemma list_walk_seg:
  assumes "seg s a xs h" and "h \<notin> set xs" and "length xs < fuel"
  shows "list_walk fuel (nxt s) h (nxt s a) = Some xs"
  using assms
proof (induction xs arbitrary: a fuel)
  case Nil
  then show ?case by (cases fuel) auto
next
  case (Cons x xs)
  then obtain f where "fuel = Suc f" by (cases fuel) auto
  with Cons show ?case by auto
qed

lemma for_each_visits:
  "dlist s h xs \<Longrightarrow> length xs < fuel \<Longrightarrow> list_for_each fuel h s = Some xs"
  by (auto simp: list_for_each_def dlist_def intro: list_walk_seg)

lemma list_walk_seg_prev:
  assumes "seg s h xs b" and "h \<notin> set xs" and "length xs < fuel"
  shows "list_walk fuel (prv s) h (prv s b) = Some (rev xs)"
  using assms
proof (induction xs arbitrary: b fuel rule: rev_induct)
  case Nil
  then show ?case by (cases fuel) auto
next
  case (snoc x xs)
  then obtain f where "fuel = Suc f" by (cases fuel) auto
  with snoc show ?case by (auto simp: seg_snoc)
qed

lemma for_each_prev_visits:
  "dlist s h xs \<Longrightarrow> length xs < fuel \<Longrightarrow> list_for_each_prev fuel h s = Some (rev xs)"
  by (auto simp: list_for_each_prev_def dlist_def intro: list_walk_seg_prev)

text \<open>
  The safe loop may unlink the entry it is at: run with a body that deletes the entries
  satisfying \<open>P\<close>, it leaves exactly the others, in order.
\<close>

definition del_if :: "(nat \<Rightarrow> bool) \<Rightarrow> nat \<Rightarrow> dstore \<Rightarrow> dstore" where
  "del_if P pos s = (if P pos then list_del pos s else s)"

lemma safe_loop_deletes:
  assumes "dlist s h (ks @ xs)" and "length xs < fuel"
  shows "\<exists>s'. list_safe_loop fuel (del_if P) h (hd (xs @ [h])) (nxt s (hd (xs @ [h]))) s = Some s' \<and>
    dlist s' h (ks @ filter (\<lambda>x. \<not> P x) xs)"
  using assms
proof (induction xs arbitrary: s ks fuel)
  case Nil
  then obtain f where "fuel = Suc f" by (cases fuel) auto
  with Nil show ?case by auto
next
  case (Cons x xs)
  obtain f where f: "fuel = Suc f" using Cons.prems by (cases fuel) auto
  have xh: "x \<noteq> h" using Cons.prems by (auto simp: dlist_def)
  have nx: "nxt s x = hd (xs @ [h])"
    using Cons.prems(1) by (auto simp: dlist_def seg_append dest: seg_nxt_start)
  let ?s = "del_if P x s" and ?ks = "if P x then ks else ks @ [x]"
  have "dlist ?s h (?ks @ xs)"
    using Cons.prems(1) by (auto simp: del_if_def intro: list_del_dlist)
  from Cons.IH[OF this] Cons.prems(2) f
  obtain s' where s': "list_safe_loop f (del_if P) h (hd (xs @ [h])) (nxt ?s (hd (xs @ [h]))) ?s = Some s'"
    and d: "dlist s' h (?ks @ filter (\<lambda>x. \<not> P x) xs)" by auto
  show ?case using s' d xh by (auto simp: f nx Let_def split: if_splits)
qed

lemma for_each_safe_deletes:
  assumes "dlist s h xs" and "length xs < fuel"
  shows "\<exists>s'. list_for_each_safe fuel (del_if P) h s = Some s' \<and>
    dlist s' h (filter (\<lambda>x. \<not> P x) xs)"
  using safe_loop_deletes[of s h "[]" xs fuel P] assms dlist_ends_eq(1)[OF assms(1)]
  by (simp add: list_for_each_safe_def)

section \<open>Singly-linked lists\<close>

text \<open>
  A \<open>struct slist_head\<close> is the address of its embedded \<open>first\<close> node and the \<open>last\<close>
  pointer.  \<open>next\<close> may be NULL here (\<open>None\<close>), so an operation that follows it can fault.
\<close>

record sstore =
  snext :: "nat \<Rightarrow> nat option"
  slast :: "nat \<Rightarrow> nat"

definition set_snext :: "nat \<Rightarrow> nat option \<Rightarrow> sstore \<Rightarrow> sstore" where
  "set_snext p q s = s\<lparr>snext := (snext s)(p := q)\<rparr>"

definition set_slast :: "nat \<Rightarrow> nat \<Rightarrow> sstore \<Rightarrow> sstore" where
  "set_slast l p s = s\<lparr>slast := (slast s)(l := p)\<rparr>"

definition INIT_SLIST_HEAD :: "nat \<Rightarrow> sstore \<Rightarrow> sstore" where
  "INIT_SLIST_HEAD l s = set_slast l l (set_snext l None s)"

definition slist_add_after :: "nat \<Rightarrow> nat \<Rightarrow> nat \<Rightarrow> sstore \<Rightarrow> sstore" where
  "slist_add_after node prev l s =
     (let s1 = set_snext node (snext s prev) s;
          s2 = set_snext prev (Some node) s1
      in if snext s2 node = None then set_slast l node s2 else s2)"

definition slist_add_head :: "nat \<Rightarrow> nat \<Rightarrow> sstore \<Rightarrow> sstore" where
  "slist_add_head node l s = slist_add_after node l l s"

definition slist_add_tail :: "nat \<Rightarrow> nat \<Rightarrow> sstore \<Rightarrow> sstore" where
  "slist_add_tail node l s =
     (let s1 = set_snext node None s;
          s2 = set_snext (slast s1 l) (Some node) s1
      in set_slast l node s2)"

definition slist_del_after :: "nat \<Rightarrow> nat \<Rightarrow> sstore \<Rightarrow> sstore cres" where
  "slist_del_after prev l s =
     cbind (deref (snext s prev)) (\<lambda>n.
       let s1 = set_snext prev (snext s n) s
       in Inr (if snext s1 prev = None then set_slast l prev s1 else s1))"

definition slist_del_head :: "nat \<Rightarrow> sstore \<Rightarrow> sstore cres" where
  "slist_del_head l s = slist_del_after l l s"

definition slist_empty :: "nat \<Rightarrow> sstore \<Rightarrow> bool" where
  "slist_empty l s \<longleftrightarrow> snext s l = None"

definition slist_splice_at :: "nat \<Rightarrow> nat \<Rightarrow> nat \<Rightarrow> sstore \<Rightarrow> sstore" where
  "slist_splice_at l at head s =
     (let s1 = set_snext (slast s l) (snext s at) s;
          s2 = set_snext at (snext s1 l) s1
      in if snext s2 (slast s2 l) = None then set_slast head (slast s2 l) s2 else s2)"

definition slist_splice :: "nat \<Rightarrow> nat \<Rightarrow> nat \<Rightarrow> sstore \<Rightarrow> sstore" where
  "slist_splice l at head s = (if \<not> slist_empty l s then slist_splice_at l at head s else s)"

definition slist_splice_init :: "nat \<Rightarrow> nat \<Rightarrow> nat \<Rightarrow> sstore \<Rightarrow> sstore" where
  "slist_splice_init l at head s =
     (if \<not> slist_empty l s then INIT_SLIST_HEAD l (slist_splice_at l at head s) else s)"

fun slist_walk :: "nat \<Rightarrow> sstore \<Rightarrow> nat option \<Rightarrow> nat list option" where
  "slist_walk fuel s None = Some []"
| "slist_walk 0 s (Some p) = None"
| "slist_walk (Suc fuel) s (Some p) = map_option (\<lambda>ps. p # ps) (slist_walk fuel s (snext s p))"

definition slist_for_each :: "nat \<Rightarrow> nat \<Rightarrow> sstore \<Rightarrow> nat list option" where
  "slist_for_each fuel l s = slist_walk fuel s (snext s l)"

fun schain :: "sstore \<Rightarrow> nat \<Rightarrow> nat list \<Rightarrow> nat option \<Rightarrow> bool" where
  "schain s a [] b \<longleftrightarrow> snext s a = b"
| "schain s a (x # xs) b \<longleftrightarrow> snext s a = Some x \<and> schain s x xs b"

definition slist :: "sstore \<Rightarrow> nat \<Rightarrow> nat list \<Rightarrow> bool" where
  "slist s l xs \<longleftrightarrow> distinct (l # xs) \<and> schain s l xs None \<and> slast s l = last (l # xs)"

lemma snext_set_snext [simp]: "snext (set_snext p q s) = (snext s)(p := q)"
  and slast_set_snext [simp]: "slast (set_snext p q s) = slast s"
  and snext_set_slast [simp]: "snext (set_slast l p s) = snext s"
  and slast_set_slast [simp]: "slast (set_slast l p s) = (slast s)(l := p)"
  by (simp_all add: set_snext_def set_slast_def)

lemma schain_set_snext [simp]:
  "p \<notin> set (a # xs) \<Longrightarrow> schain (set_snext p q s) a xs b = schain s a xs b"
  by (induction xs arbitrary: a) auto

lemma schain_set_slast [simp]: "schain (set_slast l p s) a xs b = schain s a xs b"
  by (induction xs arbitrary: a) auto

lemma schain_append: "schain s a (xs @ y # ys) b \<longleftrightarrow> schain s a xs (Some y) \<and> schain s y ys b"
  by (induction xs arbitrary: a) auto

lemma schain_retarget:
  "schain s a xs b \<Longrightarrow> distinct (a # xs) \<Longrightarrow> schain (set_snext (last (a # xs)) q s) a xs q"
  by (induction xs arbitrary: a) auto

lemma INIT_SLIST_HEAD_slist: "slist (INIT_SLIST_HEAD l s) l []"
  by (simp add: slist_def INIT_SLIST_HEAD_def)

lemma slist_empty_slist: "slist s l xs \<Longrightarrow> slist_empty l s \<longleftrightarrow> xs = []"
  by (cases xs) (auto simp: slist_def slist_empty_def)

lemma slist_add_after_slist:
  assumes "slist s l (xs @ ys)" and "n \<notin> set (l # xs @ ys)"
  shows "slist (slist_add_after n (last (l # xs)) l s) l (xs @ n # ys)"
  using assms
  by (cases xs rule: rev_cases; cases ys)
    (auto simp: slist_def slist_add_after_def Let_def schain_append)

lemma slist_add_head_slist:
  "slist s l xs \<Longrightarrow> n \<notin> set (l # xs) \<Longrightarrow> slist (slist_add_head n l s) l (n # xs)"
  using slist_add_after_slist[of s l "[]" xs n] by (simp add: slist_add_head_def)

lemma slist_add_tail_slist:
  assumes "slist s l xs" and "n \<notin> set (l # xs)"
  shows "slist (slist_add_tail n l s) l (xs @ [n])"
  using assms
  by (cases xs rule: rev_cases)
    (auto simp: slist_def slist_add_tail_def Let_def schain_append)

lemma slist_del_after_slist:
  assumes "slist s l (xs @ y # ys)"
  shows "\<exists>s'. slist_del_after (last (l # xs)) l s = Inr s' \<and> slist s' l (xs @ ys)"
  using assms
  by (cases xs rule: rev_cases; cases ys)
    (auto simp: slist_def slist_del_after_def Let_def schain_append)

lemma slist_del_after_last:
  "slist s l xs \<Longrightarrow> slist_del_after (last (l # xs)) l s = Inl NullDeref"
  by (cases xs rule: rev_cases)
    (auto simp: slist_def slist_del_after_def schain_append)

lemma slist_for_each_visits:
  assumes "slist s l xs" and "length xs \<le> fuel"
  shows "slist_for_each fuel l s = Some xs"
proof -
  have "schain s a xs None \<Longrightarrow> length xs \<le> fuel \<Longrightarrow> slist_walk fuel s (snext s a) = Some xs" for a
  proof (induction xs arbitrary: a fuel)
    case (Cons x xs)
    then show ?case by (cases fuel) auto
  qed (cases fuel; simp)
  then show ?thesis using assms by (simp add: slist_for_each_def slist_def)
qed

lemma schain_split:
  "schain s a (ys @ zs) b \<longleftrightarrow>
     schain s a ys (snext s (last (a # ys))) \<and> schain s (last (a # ys)) zs b"
  by (induction ys arbitrary: a) auto

lemma schain_restart:
  assumes "schain s a zs b" and "snext s' a' = snext s a"
    and "\<And>p. p \<in> set zs \<Longrightarrow> snext s' p = snext s p"
  shows "schain s' a' zs b"
  using assms by (induction zs arbitrary: a a') auto

lemma slist_splice_slist:
  assumes xs: "slist s l xs" and hs: "slist s h (ys @ zs)"
    and disj: "set (l # xs) \<inter> set (h # ys @ zs) = {}"
  shows "slist (slist_splice l (last (h # ys)) h s) h (ys @ xs @ zs)"
proof (cases "xs = []")
  case True
  then show ?thesis using xs hs by (simp add: slist_splice_def slist_empty_slist)
next
  case False
  define at x where "at = last (h # ys)" and "x = last (l # xs)"
  define s1 where "s1 = set_snext x (snext s at) s"
  define s2 where "s2 = set_snext at (snext s l) s1"
  have x: "x \<in> set xs" and at: "at \<in> set (h # ys)"
    using False last_in_set[of xs] last_in_set[of "h # ys"] by (auto simp: x_def at_def)
  then have ne: "x \<noteq> l" "x \<noteq> at" and dist: "distinct (h # ys @ xs @ zs)"
    using xs hs disj by (auto simp: slist_def)
  from hs have ys: "schain s h ys (snext s at)" and zs: "schain s at zs None"
    by (simp_all only: slist_def at_def schain_split)
  have "schain s2 h ys (snext s l)"
    unfolding s2_def at_def
  proof (rule schain_retarget)
    show "schain s1 h ys (snext s at)"
      using ys x disj by (intro schain_restart[OF ys]) (auto simp: s1_def)
    show "distinct (h # ys)" using dist by simp
  qed
  moreover have "schain s2 at xs (snext s at)"
  proof (rule schain_restart)
    show "schain s1 l xs (snext s at)"
      unfolding s1_def x_def using xs by (intro schain_retarget) (auto simp: slist_def)
    show "snext s2 at = snext s1 l" and "\<And>p. p \<in> set xs \<Longrightarrow> snext s2 p = snext s1 p"
      using at disj ne by (auto simp: s2_def s1_def)
  qed
  moreover have "schain s2 x zs None"
    using dist at x ne by (intro schain_restart[OF zs]) (auto simp: s2_def s1_def)
  ultimately have "schain s2 h (ys @ xs @ zs) None"
    using False ne by (simp add: schain_split at_def x_def s2_def s1_def)
  moreover have "slist_splice l at h s = (if snext s2 x = None then set_slast h x s2 else s2)"
    using xs ne False slist_empty_slist[OF xs]
    by (simp add: slist_splice_def slist_splice_at_def Let_def s2_def s1_def slist_def x_def)
  moreover have "snext s2 x = None \<longleftrightarrow> zs = []"
    using zs ne by (cases zs) (auto simp: s2_def s1_def)
  moreover have "slast s2 = slast s" by (simp add: s2_def s1_def)
  moreover have "last xs = x" using False by (simp add: x_def)
  moreover have "slast s h = last (h # ys @ zs)" using hs by (simp add: slist_def)
  ultimately show ?thesis
    unfolding at_def[symmetric] using dist False by (auto simp: slist_def)
qed

lemma slist_splice_init_slist:
  assumes "slist s l xs" and "slist s h (ys @ zs)" and "set (l # xs) \<inter> set (h # ys @ zs) = {}"
  shows "slist (slist_splice_init l (last (h # ys)) h s) h (ys @ xs @ zs)"
    and "slist (slist_splice_init l (last (h # ys)) h s) l []"
proof -
  let ?t = "slist_splice l (last (h # ys)) h s"
  have sp: "slist ?t h (ys @ xs @ zs)" by (rule slist_splice_slist[OF assms])
  have conv: "slist_splice_init l (last (h # ys)) h s =
      (if slist_empty l s then s else INIT_SLIST_HEAD l ?t)"
    by (simp add: slist_splice_init_def slist_splice_def)
  have "l \<notin> set (h # ys @ xs @ zs)" using assms by (auto simp: slist_def)
  then have "slist (INIT_SLIST_HEAD l ?t) h (ys @ xs @ zs)"
    using sp by (auto simp: slist_def INIT_SLIST_HEAD_def)
  moreover have "slist_empty l s \<Longrightarrow> xs = []" using assms(1) by (simp add: slist_empty_slist)
  ultimately show "slist (slist_splice_init l (last (h # ys)) h s) h (ys @ xs @ zs)"
    unfolding conv using assms by auto
  show "slist (slist_splice_init l (last (h # ys)) h s) l []"
    unfolding conv using assms by (auto simp: INIT_SLIST_HEAD_slist slist_empty_slist)
qed

text \<open>
  slist\_for\_each\_safe hands the body the predecessor with the node; when the body has unlinked the
  node, the predecessor stays.
\<close>

fun slist_safe_loop ::
  "nat \<Rightarrow> (nat \<Rightarrow> nat \<Rightarrow> sstore \<Rightarrow> sstore cres) \<Rightarrow> nat \<Rightarrow> nat option \<Rightarrow> sstore \<Rightarrow> sstore cres"
where
  "slist_safe_loop fuel body prev None s = Inr s"
| "slist_safe_loop 0 body prev (Some p) s = Inl OutOfFuel"
| "slist_safe_loop (Suc fuel) body prev (Some p) s =
     cbind (body prev p s) (\<lambda>s'.
     let prev' = (if snext s' prev = Some p then p else prev) in
     slist_safe_loop fuel body prev' (snext s' prev') s')"

definition slist_for_each_safe :: "nat \<Rightarrow> (nat \<Rightarrow> nat \<Rightarrow> sstore \<Rightarrow> sstore cres) \<Rightarrow> nat \<Rightarrow> sstore \<Rightarrow> sstore cres" where
  "slist_for_each_safe fuel body l s = slist_safe_loop fuel body l (snext s l) s"

definition sdel_if :: "(nat \<Rightarrow> bool) \<Rightarrow> nat \<Rightarrow> nat \<Rightarrow> nat \<Rightarrow> sstore \<Rightarrow> sstore cres" where
  "sdel_if P l prev p s = (if P p then slist_del_after prev l s else Inr s)"

lemma schain_next: "schain s a xs None \<Longrightarrow> snext s a = (case xs of [] \<Rightarrow> None | x # _ \<Rightarrow> Some x)"
  by (cases xs) simp_all

lemma slist_next_last:
  assumes "slist s l (ys @ zs)"
  shows "snext s (last (l # ys)) = (case zs of [] \<Rightarrow> None | z # _ \<Rightarrow> Some z)"
proof (cases ys rule: rev_cases)
  case Nil
  then show ?thesis using assms schain_next[of s l zs] by (simp add: slist_def)
next
  case (snoc xs y)
  then have "schain s y zs None" using assms by (simp add: slist_def schain_append)
  then show ?thesis using schain_next[of s y zs] snoc by simp
qed

lemma slist_safe_loop_filters:
  assumes "slist s l (ys @ zs)" and "length zs \<le> fuel"
  shows "\<exists>s'. slist_safe_loop fuel (sdel_if P l) (last (l # ys)) (case zs of [] \<Rightarrow> None | z # _ \<Rightarrow> Some z) s = Inr s' \<and>
    slist s' l (ys @ filter (\<lambda>z. \<not> P z) zs)"
  using assms
proof (induction zs arbitrary: s ys fuel)
  case (Cons z zs)
  obtain f where f: "fuel = Suc f" "length zs \<le> f" using Cons.prems(2) by (cases fuel) auto
  note next_z = slist_next_last[OF Cons.prems(1)]
  show ?case
  proof (cases "P z")
    case True
    obtain s1 where s1: "slist_del_after (last (l # ys)) l s = Inr s1" "slist s1 l (ys @ zs)"
      using slist_del_after_slist[OF Cons.prems(1)] by blast
    have "z \<notin> set zs" using Cons.prems(1) by (simp add: slist_def)
    then have "snext s1 (last (l # ys)) \<noteq> Some z" using slist_next_last[OF s1(2)] by (cases zs) auto
    then show ?thesis
      using Cons.IH[OF s1(2) f(2)] s1(1) True slist_next_last[OF s1(2)] by (simp add: f(1) sdel_if_def Let_def)
  next
    case False
    have "slist s l ((ys @ [z]) @ zs)" using Cons.prems(1) by simp
    from Cons.IH[OF this f(2)] slist_next_last[OF this] show ?thesis
      using next_z False by (simp add: f(1) sdel_if_def Let_def)
  qed
qed simp

lemma slist_for_each_safe_filters:
  assumes "slist s l xs" and "length xs \<le> fuel"
  shows "\<exists>s'. slist_for_each_safe fuel (sdel_if P l) l s = Inr s' \<and> slist s' l (filter (\<lambda>x. \<not> P x) xs)"
  using slist_safe_loop_filters[of s l "[]" xs fuel P] slist_next_last[of s l "[]" xs] assms
  by (simp add: slist_for_each_safe_def)

section \<open>The interface other components use\<close>

text \<open>
  A client of the list (the registry of conf.c) only initialises a head, appends at the tail
  and walks; \<open>intrusive_queue\<close> states what it may rely on, and proves once what appending
  a batch of fresh nodes does.  \<open>intrusive_list\<close> adds the other end and removal.
\<close>

locale intrusive_queue =
  fixes rep :: "'s \<Rightarrow> 'p \<Rightarrow> 'p list \<Rightarrow> bool"
    and init :: "'p \<Rightarrow> 's \<Rightarrow> 's"
    and add_tail :: "'p \<Rightarrow> 'p \<Rightarrow> 's \<Rightarrow> 's"
    and walk :: "nat \<Rightarrow> 'p \<Rightarrow> 's \<Rightarrow> 'p list option"
  assumes rep_init: "rep (init h s) h []"
    and rep_add_tail: "rep s h xs \<Longrightarrow> n \<notin> set (h # xs) \<Longrightarrow> rep (add_tail n h s) h (xs @ [n])"
    and walk_rep: "rep s h xs \<Longrightarrow> length xs < fuel \<Longrightarrow> walk fuel h s = Some xs"
begin

lemma rep_append_all:
  assumes "rep s h xs" and "distinct ns" and "set ns \<inter> set (h # xs) = {}"
  shows "rep (fold (\<lambda>n. add_tail n h) ns s) h (xs @ ns)"
  using assms
proof (induction ns arbitrary: s xs)
  case Nil
  then show ?case by simp
next
  case (Cons n ns)
  then have "rep (add_tail n h s) h (xs @ [n])" by (auto intro: rep_add_tail)
  from Cons.IH[OF this] Cons.prems show ?case by auto
qed

lemma walk_built:
  assumes "distinct (h # ns)" and "length ns < fuel"
  shows "walk fuel h (fold (\<lambda>n. add_tail n h) ns (init h s)) = Some ns"
  using rep_append_all[OF rep_init, of ns h s] assms by (auto intro: walk_rep)

end

locale intrusive_list = intrusive_queue +
  fixes add :: "'p \<Rightarrow> 'p \<Rightarrow> 's \<Rightarrow> 's"
    and del :: "'p \<Rightarrow> 's \<Rightarrow> 's"
  assumes rep_add: "rep s h xs \<Longrightarrow> n \<notin> set (h # xs) \<Longrightarrow> rep (add n h s) h (n # xs)"
    and rep_del: "rep s h (xs @ n # ys) \<Longrightarrow> rep (del n s) h (xs @ ys)"
begin

lemma rep_del_added: "rep s h xs \<Longrightarrow> n \<notin> set (h # xs) \<Longrightarrow> rep (del n (add n h s)) h xs"
  using rep_del[of "add n h s" h "[]" n xs] by (auto dest: rep_add)

end

interpretation dl: intrusive_list dlist INIT_LIST_HEAD list_add_tail list_for_each list_add list_del
  by unfold_locales
    (simp_all add: INIT_LIST_HEAD_dlist list_add_tail_dlist for_each_visits list_add_dlist
      list_del_dlist)

interpretation sl: intrusive_queue "\<lambda>s h xs. slist s h xs" INIT_SLIST_HEAD slist_add_tail slist_for_each
  by unfold_locales (simp_all add: INIT_SLIST_HEAD_slist slist_add_tail_slist slist_for_each_visits)

end
