(* ===== verification/Node.thy ===== *)
theory Node
  imports UnixSocket IhList
begin

text \<open>
  The structures of include/conf.h: a node (publisher or subscriber) with its descriptor, and
  the table of shared-memory blocks as it lies in memory and crosses the socket.  The entries
  of \<open>node_start->node_list\<close> are kept as the list of nodes the loop list\_for\_each visits
  (IhList shows that the intrusive list built by list\_add\_tail is visited in that order); a
  position in it stands for the node's address.
\<close>

section \<open>Structures\<close>

definition MAX_FILE_NAME :: nat where "MAX_FILE_NAME = 32"

datatype CHUNK_TYES = CHUNK_TYPE_ERR | CHUNK_TYPE_PUB | CHUNK_TYPE_SUB

record SHM_NODE_T =
  shm_name :: bytes
  shm_id :: u32
  shm_size :: u32

record pub_sub_node_t =
  nd_name :: bytes
  nd_type :: CHUNK_TYES
  nd_cpu_bind :: int
  nd_id :: int
  nd_connfd :: int
  nd_shm_node_ptr :: "SHM_NODE_T list option"
  nd_shm_node_num :: int
  nd_pub_links_num :: int

text \<open>The object calloc returns: every field zero.\<close>

definition create_pub_sub_object :: "bool \<Rightarrow> pub_sub_node_t cres" where
  "create_pub_sub_object calloc_ok =
     (if calloc_ok then
        Inr \<lparr>nd_name = [], nd_type = CHUNK_TYPE_ERR, nd_cpu_bind = 0, nd_id = 0, nd_connfd = 0,
          nd_shm_node_ptr = None, nd_shm_node_num = 0, nd_pub_links_num = 0\<rparr>
      else Inl AssertFailed)"

section \<open>Looking a node up\<close>

text \<open>
  Both walk the list and break at the first hit; the result is the node's position, or
  \<open>None\<close> for NULL.  The name comparison is bounded by the length of the node's own name, so
  it finds the first node whose name is a prefix of the argument.
\<close>

definition strncmp_eq :: "bytes \<Rightarrow> bytes \<Rightarrow> nat \<Rightarrow> bool" where
  "strncmp_eq a b n \<longleftrightarrow> take n (a @ [0]) = take n (b @ [0])"

fun find_first :: "('a \<Rightarrow> bool) \<Rightarrow> 'a list \<Rightarrow> nat option" where
  "find_first P [] = None"
| "find_first P (x # xs) = (if P x then Some 0 else map_option Suc (find_first P xs))"

definition find_node_by_id :: "pub_sub_node_t list \<Rightarrow> int \<Rightarrow> nat option" where
  "find_node_by_id ns i = find_first (\<lambda>n. nd_id n = i) ns"

definition find_node_by_name :: "pub_sub_node_t list \<Rightarrow> bytes \<Rightarrow> nat option" where
  "find_node_by_name ns nm = find_first (\<lambda>n. strncmp_eq (nd_name n) nm (length (nd_name n))) ns"

lemma find_first_Some:
  "find_first P xs = Some i \<Longrightarrow> i < length xs \<and> P (xs ! i) \<and> (\<forall>j < i. \<not> P (xs ! j))"
proof (induction xs arbitrary: i)
  case (Cons x xs)
  then show ?case
    by (auto split: if_splits simp: nth_Cons less_Suc_eq_0_disj split: nat.splits)
qed simp

lemma find_first_None: "find_first P xs = None \<longleftrightarrow> (\<forall>x \<in> set xs. \<not> P x)"
  by (induction xs) auto

lemma strncmp_eq_prefix:
  assumes "0 \<notin> set a"
  shows "strncmp_eq a b (length a) \<longleftrightarrow> take (length a) b = a"
proof
  assume "strncmp_eq a b (length a)"
  then have eq: "a = take (length a) (b @ [0])" by (simp add: strncmp_eq_def)
  have "length a \<le> length b"
  proof (rule ccontr)
    assume "\<not> length a \<le> length b"
    then have "take (length a) (b @ [0]) = b @ [0]" by simp
    then show False using eq assms by (metis in_set_conv_decomp)
  qed
  then show "take (length a) b = a" using eq by simp
next
  assume "take (length a) b = a"
  then have "length a \<le> length b" by (metis length_take min.cobounded1)
  then show "strncmp_eq a b (length a)"
    using \<open>take (length a) b = a\<close> by (simp add: strncmp_eq_def)
qed

text \<open>
  The test main.c makes on the name of a connecting client: the node's name at the right
  offset and the right total length (the subtraction is on size\_t, so a name shorter than
  prefix and suffix together wraps around).
\<close>

definition NAME_PREFIX :: bytes where "NAME_PREFIX = lit ''/run/shm/''"
definition SOCK_NAME_SUFFIX :: bytes where "SOCK_NAME_SUFFIX = lit ''-sock''"
definition NAME_PREFIX_LEN :: nat where "NAME_PREFIX_LEN = 9"
definition SOCK_NAME_SUFFIX_LEN :: nat where "SOCK_NAME_SUFFIX_LEN = 5"

lemma NAME_LENs: "length NAME_PREFIX = NAME_PREFIX_LEN" "length SOCK_NAME_SUFFIX = SOCK_NAME_SUFFIX_LEN"
  by (simp_all add: NAME_PREFIX_def SOCK_NAME_SUFFIX_def NAME_PREFIX_LEN_def SOCK_NAME_SUFFIX_LEN_def)

definition sock_name_matches :: "bytes \<Rightarrow> bytes \<Rightarrow> bool" where
  "sock_name_matches nm un \<longleftrightarrow>
     strncmp_eq nm (drop NAME_PREFIX_LEN un) (length nm) \<and>
     int (length nm) =
       (int (length un) - int NAME_PREFIX_LEN - int SOCK_NAME_SUFFIX_LEN) mod 2 ^ 64"

lemma sock_name_matches_own:
  assumes "0 \<notin> set nm" and "length nm < 2 ^ 64"
  shows "sock_name_matches nm (NAME_PREFIX @ nm @ SOCK_NAME_SUFFIX)"
  using assms NAME_LENs
  by (simp add: sock_name_matches_def strncmp_eq_prefix)

lemma sock_name_matches_iff:
  assumes "0 \<notin> set nm" and "length un < 2 ^ 63" and "length nm < 2 ^ 63"
  shows "sock_name_matches nm un \<longleftrightarrow>
    (\<exists>p s. un = p @ nm @ s \<and> length p = NAME_PREFIX_LEN \<and> length s = SOCK_NAME_SUFFIX_LEN)"
proof
  assume m: "sock_name_matches nm un"
  let ?k = "int (length un) - int NAME_PREFIX_LEN - int SOCK_NAME_SUFFIX_LEN"
  have len: "int (length nm) = ?k mod 2 ^ 64" and pre: "take (length nm) (drop NAME_PREFIX_LEN un) = nm"
    using m assms(1) by (simp_all add: sock_name_matches_def strncmp_eq_prefix)
  have "0 \<le> ?k"
  proof (rule ccontr)
    assume "\<not> 0 \<le> ?k"
    moreover have "?k mod 2 ^ 64 = (?k + 2 ^ 64) mod 2 ^ 64" by simp
    ultimately have "?k mod 2 ^ 64 = ?k + 2 ^ 64"
      using mod_pos_pos_trivial[of "?k + 2 ^ 64" "2 ^ 64"]
      by (simp add: NAME_PREFIX_LEN_def SOCK_NAME_SUFFIX_LEN_def)
    then show False
      using len assms(3) by (simp add: NAME_PREFIX_LEN_def SOCK_NAME_SUFFIX_LEN_def)
  qed
  then have ln: "length un = NAME_PREFIX_LEN + length nm + SOCK_NAME_SUFFIX_LEN"
    using len assms(2) mod_pos_pos_trivial[of ?k "2 ^ 64"] by simp
  have "un = take NAME_PREFIX_LEN un @ nm @ drop (NAME_PREFIX_LEN + length nm) un"
    using pre by (metis append_take_drop_id drop_drop add.commute)
  then show "\<exists>p s. un = p @ nm @ s \<and> length p = NAME_PREFIX_LEN \<and> length s = SOCK_NAME_SUFFIX_LEN"
    using ln by (intro exI[of _ "take NAME_PREFIX_LEN un"] exI[of _ "drop (NAME_PREFIX_LEN + length nm) un"])
      auto
next
  assume "\<exists>p s. un = p @ nm @ s \<and> length p = NAME_PREFIX_LEN \<and> length s = SOCK_NAME_SUFFIX_LEN"
  then show "sock_name_matches nm un"
    using assms(1,3) by (auto simp: sock_name_matches_def strncmp_eq_prefix)
qed

section \<open>The table of shared-memory blocks in memory\<close>

text \<open>
  \<open>SHM_NODE_T\<close> has 40 bytes: the name in a 32 byte array (zero filled by calloc before strcpy),
  the id and the size.
\<close>

definition SHM_NODE_SIZE :: nat where "SHM_NODE_SIZE = 40"

definition shm_node_bytes :: "SHM_NODE_T \<Rightarrow> bytes" where
  "shm_node_bytes s =
     shm_name s @ replicate (MAX_FILE_NAME - length (shm_name s)) 0 @ le32 (shm_id s) @ le32 (shm_size s)"

definition shm_table_bytes :: "SHM_NODE_T list \<Rightarrow> bytes" where
  "shm_table_bytes ss = concat (map shm_node_bytes ss)"

definition shm_node_at :: "bytes \<Rightarrow> SHM_NODE_T" where
  "shm_node_at m = \<lparr>shm_name = cstr (take MAX_FILE_NAME m),
     shm_id = un32 (m ! 32) (m ! 33) (m ! 34) (m ! 35),
     shm_size = un32 (m ! 36) (m ! 37) (m ! 38) (m ! 39)\<rparr>"

definition shm_node_ok :: "SHM_NODE_T \<Rightarrow> bool" where
  "shm_node_ok s \<longleftrightarrow> 0 \<notin> set (shm_name s) \<and> length (shm_name s) < MAX_FILE_NAME"

lemma length_shm_node_bytes: "shm_node_ok s \<Longrightarrow> length (shm_node_bytes s) = 40"
  by (simp add: shm_node_bytes_def shm_node_ok_def MAX_FILE_NAME_def)

lemma length_shm_table_bytes:
  "list_all shm_node_ok ss \<Longrightarrow> length (shm_table_bytes ss) = 40 * length ss"
  by (induction ss) (auto simp: shm_table_bytes_def length_shm_node_bytes)

lemma shm_node_roundtrip:
  assumes "shm_node_ok s"
  shows "shm_node_at (shm_node_bytes s @ r) = s"
proof -
  let ?n = "length (shm_name s)"
  have n: "?n < 32" "0 \<notin> set (shm_name s)" using assms by (simp_all add: shm_node_ok_def MAX_FILE_NAME_def)
  then obtain z where z: "replicate (32 - ?n) (0::u8) = 0 # z" by (cases "32 - ?n") auto
  let ?p = "shm_name s @ replicate (32 - ?n) 0"
  have lp: "length ?p = 32" using n by simp
  have b: "shm_node_bytes s @ r = ?p @ (le32 (shm_id s) @ le32 (shm_size s) @ r)"
    by (simp add: shm_node_bytes_def MAX_FILE_NAME_def)
  have at: "(shm_node_bytes s @ r) ! (32 + i) = (le32 (shm_id s) @ le32 (shm_size s) @ r) ! i" for i
    unfolding b using lp nth_append_length_plus[of ?p _ i] by simp
  have "take 32 (shm_node_bytes s @ r) = ?p" unfolding b using lp by simp
  then have "cstr (take 32 (shm_node_bytes s @ r)) = shm_name s"
    using n z by simp
  moreover have "map (\<lambda>i. (shm_node_bytes s @ r) ! i) [32, 33, 34, 35, 36, 37, 38, 39] =
      le32 (shm_id s) @ le32 (shm_size s)"
    using at[of 0] at[of 1] at[of 2] at[of 3] at[of 4] at[of 5] at[of 6] at[of 7]
    by (simp add: le32_def)
  ultimately show ?thesis
    by (simp add: shm_node_at_def MAX_FILE_NAME_def le32_def un32_le32)
qed

end
