(* ===== verification/Shm.thy ===== *)
theory Shm
  imports IhUtil
begin

text \<open>
  src/shm\_manager.c in its three configurations (memfd, POSIX, System V, the last one the
  default of CMakeLists.txt).  What the kernel answers during one call of these functions is a
  parameter, the record \<open>shm_kernel\<close>: another call, and another process, has another record, since
  the address at which shmat attaches is chosen anew each time.  The calls that change something
  outside are returned as a list of actions.
\<close>

section \<open>The structure and the kernel\<close>

record icehydra_shm_t =
  sh_size :: int
  sh_proj_id :: int
  sh_id :: int
  sh_filename :: "bytes option"
  sh_mem_ptr :: "nat option"

text \<open>
  \<open>sh_id\<close> is the union of \<open>fd\<close> and \<open>id\<close>.  A failed call is a negative number; for the mapping
  calls, which fail with a special address, it is \<open>None\<close>.
\<close>

record shm_kernel =
  k_open :: "bytes \<Rightarrow> int"
  k_ftruncate :: "int \<Rightarrow> int \<Rightarrow> int"
  k_mmap :: "int \<Rightarrow> int \<Rightarrow> nat option"
  k_munmap :: "nat option \<Rightarrow> int"
  k_is_dir :: "bytes \<Rightarrow> bool option"
  k_popen :: bool
  k_ftok :: "bytes \<Rightarrow> int \<Rightarrow> int"
  k_shmget :: "int \<Rightarrow> int \<Rightarrow> bool \<Rightarrow> int"
  k_shmat :: "int \<Rightarrow> nat option"
  k_segsz :: "int \<Rightarrow> int option"

datatype shm_act = RunShell bytes | Memset nat int | CloseShm int | Unmap "nat option"

section \<open>memfd and POSIX shared memory\<close>

text \<open>
  The two configurations differ only in the call that opens the object (\<open>k_open\<close>:
  memfd\_create or shm\_open with O\_CREAT).
\<close>

definition shm_mmap_fd ::
    "shm_kernel \<Rightarrow> icehydra_shm_t \<Rightarrow> nat option \<times> icehydra_shm_t" where
  "shm_mmap_fd k shm =
     (let p = k_mmap k (sh_size shm) (sh_id shm) in (p, shm\<lparr>sh_mem_ptr := p\<rparr>))"

definition shm_create_fd ::
    "shm_kernel \<Rightarrow> icehydra_shm_t \<Rightarrow> (nat option \<times> icehydra_shm_t \<times> shm_act list) cres" where
  "shm_create_fd k shm =
     cbind (deref (sh_filename shm)) (\<lambda>fname.
     let fd = k_open k fname in
     if fd < 0 then Inr (None, shm, [])
     else if k_ftruncate k fd (sh_size shm) < 0 then Inr (None, shm, [CloseShm fd])
     else case shm_mmap_fd k (shm\<lparr>sh_id := fd\<rparr>) of (p, shm') \<Rightarrow> Inr (p, shm', []))"

section \<open>System V shared memory\<close>

definition shm_key :: "shm_kernel \<Rightarrow> bytes \<Rightarrow> int \<Rightarrow> int" where
  "shm_key k fname pid = k_ftok k fname (if pid > 0 then pid else 1)"

definition shm_create ::
    "shm_kernel \<Rightarrow> icehydra_shm_t \<Rightarrow> (nat option \<times> icehydra_shm_t \<times> shm_act list) cres" where
  "shm_create k shm =
     cbind (deref (sh_filename shm)) (\<lambda>fname.
     cbind (make_dir (k_is_dir k fname) (k_popen k) fname) (\<lambda>(_, cmd).
     let acts = (case cmd of None \<Rightarrow> [] | Some c \<Rightarrow> [RunShell c]);
         i = k_shmget k (shm_key k fname (sh_proj_id shm)) (sh_size shm) True in
     Inr (case k_shmat k i of
            None \<Rightarrow> (None, shm\<lparr>sh_mem_ptr := None\<rparr>, acts)
          | Some p \<Rightarrow> (Some p, shm\<lparr>sh_mem_ptr := Some p, sh_id := i\<rparr>,
              acts @ [Memset p (sh_size shm)]))))"

text \<open>
  \<open>shm_mmap\<close>: a negative id is looked up by key first.  The size is what shmctl reports; when
  shmctl fails the structure it should have filled is uninitialised.
\<close>

definition shm_mmap :: "shm_kernel \<Rightarrow> icehydra_shm_t \<Rightarrow> (nat option \<times> icehydra_shm_t) cres" where
  "shm_mmap k shm =
     cbind (if sh_id shm < 0 then
              cbind (deref (sh_filename shm)) (\<lambda>fname.
              Inr (shm\<lparr>sh_id := k_shmget k (shm_key k fname (sh_proj_id shm)) 0 False\<rparr>))
            else Inr shm) (\<lambda>shm1.
     case k_shmat k (sh_id shm1) of
       None \<Rightarrow> Inr (None, shm1\<lparr>sh_mem_ptr := None\<rparr>)
     | Some p \<Rightarrow>
         (case k_segsz k (sh_id shm1) of
            None \<Rightarrow> Inl Uninit
          | Some n \<Rightarrow> Inr (Some p, shm1\<lparr>sh_mem_ptr := Some p, sh_size := n\<rparr>)))"

definition shm_munmap :: "shm_kernel \<Rightarrow> icehydra_shm_t \<Rightarrow> int" where
  "shm_munmap k shm = k_munmap k (sh_mem_ptr shm)"

section \<open>Creating a segment and finding it again\<close>

text \<open>
  What shmget(2), shmat(2), shmctl(2) and ftok(3) document of a call that creates a segment (\<open>k\<close>)
  and a later one, in the same or another process, before the segment is removed (\<open>k'\<close>):
  attaching an invalid id fails, the key of a name and the id of a key are the same, and the segment is
  at least as large as it was asked to be.  Nothing is said of the addresses.
\<close>

definition sysv_laws :: "shm_kernel \<Rightarrow> shm_kernel \<Rightarrow> bool" where
  "sysv_laws k k' \<longleftrightarrow> (\<forall>i < 0. k_shmat k i = None) \<and> k_ftok k' = k_ftok k \<and>
     (\<forall>key n c. 0 \<le> k_shmget k key n c \<longrightarrow> (\<exists>m \<ge> n. k_segsz k' (k_shmget k key n c) = Some m)) \<and>
     (\<forall>key n. 0 \<le> k_shmget k key n True \<longrightarrow> k_shmget k' key 0 False = k_shmget k key n True)"

lemma sysv_invalid: "sysv_laws k k' \<Longrightarrow> i < 0 \<Longrightarrow> k_shmat k i = None"
  unfolding sysv_laws_def by blast

lemma sysv_size:
  "sysv_laws k k' \<Longrightarrow> 0 \<le> k_shmget k key n c \<Longrightarrow> \<exists>m. n \<le> m \<and> k_segsz k' (k_shmget k key n c) = Some m"
  unfolding sysv_laws_def by blast

lemma sysv_same:
  "sysv_laws k k' \<Longrightarrow> 0 \<le> k_shmget k key n True \<Longrightarrow> k_shmget k' key 0 False = k_shmget k key n True"
  unfolding sysv_laws_def by blast

lemma sysv_key: "sysv_laws k k' \<Longrightarrow> shm_key k' = shm_key k"
  by (simp add: sysv_laws_def shm_key_def fun_eq_iff)

lemma shm_create_cases:
  assumes "shm_create k shm = Inr (Some p, shm', acts)"
  obtains fname i acts0 where "sh_filename shm = Some fname"
    "i = k_shmget k (shm_key k fname (sh_proj_id shm)) (sh_size shm) True"
    "k_shmat k i = Some p" "shm' = shm\<lparr>sh_mem_ptr := Some p, sh_id := i\<rparr>"
    "acts = acts0 @ [Memset p (sh_size shm)]"
proof -
  obtain fname where f: "sh_filename shm = Some fname"
    using assms by (cases "sh_filename shm") (simp_all add: shm_create_def)
  obtain r cmd where m: "make_dir (k_is_dir k fname) (k_popen k) fname = Inr (r, cmd)"
    using assms f by (cases "make_dir (k_is_dir k fname) (k_popen k) fname") (auto simp: shm_create_def)
  define i where "i = k_shmget k (shm_key k fname (sh_proj_id shm)) (sh_size shm) True"
  have "k_shmat k i = Some p \<and> shm' = shm\<lparr>sh_mem_ptr := Some p, sh_id := i\<rparr> \<and>
      acts = (case cmd of None \<Rightarrow> [] | Some c \<Rightarrow> [RunShell c]) @ [Memset p (sh_size shm)]"
    using assms f m by (cases "k_shmat k i") (simp_all add: shm_create_def i_def Let_def)
  then show ?thesis using that f i_def by blast
qed

text \<open>
  Whoever attaches the id later, or looks the name up, gets the segment that was created, at an
  address \<open>q\<close> of its own.
\<close>

lemma shm_created_segment:
  assumes "shm_create k shm = Inr (Some p, shm', acts)" and "sysv_laws k k'"
  obtains fname n where "sh_filename shm = Some fname" "0 \<le> sh_id shm'" "sh_size shm \<le> n"
    "k_segsz k' (sh_id shm') = Some n" "k_shmget k' (shm_key k' fname (sh_proj_id shm)) 0 False = sh_id shm'"
  using assms(1)
proof (cases rule: shm_create_cases)
  case (1 fname i acts0)
  have i: "0 \<le> i" using sysv_invalid[OF assms(2), of i] 1(3) by (cases "i < 0") auto
  obtain n where "k_segsz k' i = Some n" "sh_size shm \<le> n"
    using sysv_size[OF assms(2), of "shm_key k fname (sh_proj_id shm)" "sh_size shm" True] 1(2) i by auto
  moreover have "k_shmget k' (shm_key k' fname (sh_proj_id shm)) 0 False = i"
    using sysv_same[OF assms(2)] sysv_key[OF assms(2)] 1(2) i by simp
  ultimately show ?thesis using that[OF 1(1)] i 1(4) by simp
qed

lemma shm_created_by_id:
  assumes "shm_create k shm = Inr (Some p, shm', acts)" and "sysv_laws k k'"
  shows "\<exists>n. sh_size shm \<le> n \<and> shm_mmap k' \<lparr>sh_size = 0, sh_proj_id = 0, sh_id = sh_id shm',
       sh_filename = None, sh_mem_ptr = None\<rparr> =
     (case k_shmat k' (sh_id shm') of
        None \<Rightarrow> Inr (None, \<lparr>sh_size = 0, sh_proj_id = 0, sh_id = sh_id shm', sh_filename = None, sh_mem_ptr = None\<rparr>)
      | Some q \<Rightarrow> Inr (Some q, \<lparr>sh_size = n, sh_proj_id = 0, sh_id = sh_id shm', sh_filename = None,
          sh_mem_ptr = Some q\<rparr>))"
proof -
  obtain fname n where f: "0 \<le> sh_id shm'" "sh_size shm \<le> n" "k_segsz k' (sh_id shm') = Some n"
    using shm_created_segment[OF assms] by metis
  show ?thesis
    by (intro exI[of _ n] conjI f(2), cases "k_shmat k' (sh_id shm')")
      (use f(1,3) in \<open>simp_all add: shm_mmap_def\<close>)
qed

lemma shm_created_by_name:
  assumes "shm_create k shm = Inr (Some p, shm', acts)" and "sysv_laws k k'"
    and "k_shmat k' (sh_id shm') = Some q"
  shows "\<exists>n. shm_mmap k' (shm\<lparr>sh_id := -1\<rparr>) =
    Inr (Some q, shm\<lparr>sh_id := sh_id shm', sh_mem_ptr := Some q, sh_size := n\<rparr>) \<and> sh_size shm \<le> n"
proof -
  obtain fname n where f: "sh_filename shm = Some fname" "0 \<le> sh_id shm'" "sh_size shm \<le> n"
    "k_segsz k' (sh_id shm') = Some n" "k_shmget k' (shm_key k' fname (sh_proj_id shm)) 0 False = sh_id shm'"
    using shm_created_segment[OF assms(1,2)] by blast
  then show ?thesis using assms(3) by (intro exI[of _ n]) (simp add: shm_mmap_def)
qed

text \<open>Creation clears exactly the size it was asked for, at the address it returns.\<close>

lemma shm_create_clears:
  assumes "shm_create k shm = Inr (Some p, shm', acts)"
  shows "last acts = Memset p (sh_size shm)"
  using assms by (cases rule: shm_create_cases) simp

text \<open>
  The descriptor configurations: when creation fails after the object was opened it is closed
  again, and a mapping that succeeds is the one of that descriptor.
\<close>

lemma shm_create_fd_cases:
  assumes "shm_create_fd k shm = Inr (r, shm', acts)"
  shows "\<exists>fname. sh_filename shm = Some fname \<and>
    (if k_open k fname < 0 then r = None \<and> acts = []
     else if k_ftruncate k (k_open k fname) (sh_size shm) < 0
     then r = None \<and> acts = [CloseShm (k_open k fname)]
     else r = k_mmap k (sh_size shm) (k_open k fname) \<and> sh_id shm' = k_open k fname \<and> acts = [])"
  using assms by (cases "sh_filename shm")
    (auto simp: shm_create_fd_def shm_mmap_fd_def Let_def split: if_splits)

end
