(* ===== verification/Client.thy ===== *)
theory Client
  imports Node Shm
begin

text \<open>
  The client library: src/icehydra.c.  Its state is the static variable \<open>client_connfd\<close> and
  the process's sockets; every exported function is a function of that state.
\<close>

section \<open>State\<close>

record client =
  client_connfd :: int
  cl_net :: net

text \<open>The macro close\_s on the client's descriptor.\<close>

definition close_client :: "client \<Rightarrow> client" where
  "close_client c = c\<lparr>client_connfd := -1, cl_net := close_fd (client_connfd c) (cl_net c)\<rparr>"

record IH_BROADCAST_CMD_T =
  bc_data :: "bytes option"
  bc_ids :: "bytes option"
  bc_br_num :: int
  bc_datalen :: int

section \<open>Connecting\<close>

text \<open>
  What the outside answers: what the two callocs give, what socket and connect return,
  and the connected socket.
\<close>

record connect_env =
  ce_calloc1 :: "nat \<Rightarrow> nat option"
  ce_calloc2 :: "nat \<Rightarrow> nat option"
  ce_socket :: int
  ce_bind :: bool
  ce_connect :: bool
  ce_new :: socket

definition blk_name :: "bytes option \<Rightarrow> bytes option" where
  "blk_name = map_option cstr"

text \<open>
  The result is the descriptor, which is also stored in \<open>client_connfd\<close>; the actions are the
  system calls in order.
\<close>

definition ih_subscriber_create_connect ::
    "connect_env \<Rightarrow> bytes option \<Rightarrow> bytes option \<Rightarrow> client \<Rightarrow>
     (int \<times> sysact list \<times> client) cres" where
  "ih_subscriber_create_connect e subscriber publisher c =
     cbind (name_fix (ce_calloc1 e) (Some NAME_PREFIX) subscriber (Some SOCK_NAME_SUFFIX)) (\<lambda>cn.
     cbind (name_fix (ce_calloc2 e) (Some NAME_PREFIX) publisher (Some SOCK_NAME_SUFFIX)) (\<lambda>sn.
     cbind (creat_bind_unix_tcp (blk_name cn) (ce_socket e) (ce_bind e)) (\<lambda>(sockfd, acts1).
     cbind (connect_unix_tcp sockfd (blk_name sn) (ce_connect e)) (\<lambda>(ret, acts2).
     let fd = (if ret < 0 then -1 else sockfd) in
     Inr (fd, acts1 @ acts2 @ (if ret < 0 \<and> sockfd > 0 then [CloseFd sockfd] else []),
       c\<lparr>client_connfd := fd,
         cl_net := (if ret < 0 then cl_net c else (cl_net c)(sockfd := Some (ce_new e)))\<rparr>)))))"

definition ih_wait_other_process :: "bytes \<Rightarrow> unit cres" where
  "ih_wait_other_process got = (if wait_all_unix_connet got < 0 then Inl (Exited (-1)) else Inr ())"

section \<open>Sending\<close>

definition ih_send_broadcast_data :: "IH_BROADCAST_CMD_T \<Rightarrow> client \<Rightarrow> (int \<times> client) cres" where
  "ih_send_broadcast_data cmd c =
     (if client_connfd c < 0 then Inr (-1, c)
      else
        cbind (set_broadcast_cmd_head (replicate 64 0) (bc_datalen cmd) IH_CMD_ID_DEFAULT
                 (bc_br_num cmd)) (\<lambda>h1.
        cbind (set_pure_broadcast_field (Some h1) None (bc_br_num cmd) (bc_ids cmd)) (\<lambda>(h2, _).
        cbind (tcp_send_noblock (cl_net c) (client_connfd c) h2
                 (int PROTOCOL_CMD_HEAD_LEN + round4 (bc_br_num cmd))) (\<lambda>(r1, w1).
        cbind (tcp_send_noblock w1 (client_connfd c) (bc_data cmd) (bc_datalen cmd)) (\<lambda>(r2, w2).
        let c' = c\<lparr>cl_net := w2\<rparr> in
        Inr (r1 + r2, if r1 + r2 < 0 then close_client c' else c'))))))"

definition send_reserve :: "int \<Rightarrow> client \<Rightarrow> (int \<times> client) cres" where
  "send_reserve cid c =
     cbind (set_pure_protocol_head (replicate 64 0) 0 IH_CMD_TYPE_SEND_RESERVE cid) (\<lambda>wbuf.
     cbind (tcp_send_protocol_cmd (cl_net c) (client_connfd c) (Some wbuf)
              (Some (drop PROTOCOL_CMD_HEAD_LEN wbuf))) (\<lambda>(r, w).
     Inr (r, c\<lparr>cl_net := w\<rparr>)))"

definition ih_send_getShmIDs_cmd :: "client \<Rightarrow> (int \<times> client) cres" where
  "ih_send_getShmIDs_cmd c =
     (if client_connfd c < 0 then Inr (-1, c) else send_reserve IH_RESERVE_CMD_ID_GET_SHM_INFO c)"

section \<open>Receiving\<close>

text \<open>
  \<open>ih_recv_data\<close> into the caller's buffer \<open>data\<close>; \<open>*datalen\<close> is \<open>None\<close> when it is not written.
\<close>

definition ih_recv_data :: "bytes \<Rightarrow> client \<Rightarrow> (int \<times> nat option \<times> bytes \<times> client) cres" where
  "ih_recv_data data c =
     (if client_connfd c < 0 then Inr (-1, None, data, c)
      else
        cbind (tcp_recv_protocol_cmd (cl_net c) (client_connfd c) (Some (replicate 8 0)) (Some data))
          (\<lambda>(ret, h, d, w).
        cbind (deref d) (\<lambda>data'.
        if ret < 0 then Inr (-1, Some 0, data', close_client (c\<lparr>cl_net := w\<rparr>))
        else cbind (deref h) (\<lambda>hb.
          cbind (GET_PROTOCOL_BODY_LEN hb) (\<lambda>bl.
          cbind (GET_PROTOCOL_CMD_ID hb) (\<lambda>cid.
          Inr (if uint cid \<noteq> IH_RESERVE_CMD_ID_GET_SHM_INFO then 0
               else IH_RESERVE_CMD_ID_GET_SHM_INFO,
            Some (unat bl), data', c\<lparr>cl_net := w\<rparr>)))))))"

definition ih_recvIsShmIDs :: "int \<Rightarrow> bool" where
  "ih_recvIsShmIDs ret \<longleftrightarrow> IH_RESERVE_CMD_ID_GET_SHM_INFO = ret"

text \<open>\<open>sel\<close> is whether select reported the descriptor readable before its timeout.\<close>

definition ih_select_recv_ready :: "bool \<Rightarrow> client \<Rightarrow> bool" where
  "ih_select_recv_ready sl c \<longleftrightarrow> (if client_connfd c < 0 then False else sl)"

section \<open>The shared-memory table\<close>

text \<open>The address stored in \<open>*ptr\<close> and the size returned.\<close>

definition ih_get_shm_by_id :: "shm_kernel \<Rightarrow> int \<Rightarrow> (int \<times> nat option) cres" where
  "ih_get_shm_by_id k shmid =
     cbind (shm_mmap k \<lparr>sh_size = 0, sh_proj_id = 0, sh_id = shmid, sh_filename = None,
              sh_mem_ptr = None\<rparr>) (\<lambda>(p, shm).
     Inr (sh_size shm, p))"

text \<open>strcmp of a C string with the characters at the start of a buffer, for equality.\<close>

fun c_strcmp_eq :: "bytes \<Rightarrow> bytes \<Rightarrow> bool cres" where
  "c_strcmp_eq a [] = Inl OOB"
| "c_strcmp_eq [] (b # bs) = Inr (b = 0)"
| "c_strcmp_eq (a # as) (b # bs) = (if a = b then c_strcmp_eq as bs else Inr False)"

text \<open>
  The scan of \<open>ih_get_shm_by_name\<close> from byte \<open>off\<close> of the buffer: \<open>Some off'\<close> is the entry found,
  \<open>None\<close> the return of -1 at an entry without a name.
\<close>

function find_shm :: "bytes \<Rightarrow> bytes \<Rightarrow> nat \<Rightarrow> nat option cres" where
  "find_shm buf name off =
     (if off < length buf then
        cbind (c_strcmp_eq name (drop off buf)) (\<lambda>same.
        if same then Inr (Some off)
        else cbind (c_strlen (drop off buf)) (\<lambda>len.
          if len = 0 then Inr None else find_shm buf name (off + SHM_NODE_SIZE)))
      else Inl OOB)"
  by pat_completeness auto
termination
  by (relation "measure (\<lambda>(buf, name, off). length buf - off)") (auto simp: SHM_NODE_SIZE_def)

declare find_shm.simps [simp del]

definition ih_get_shm_by_name ::
    "shm_kernel \<Rightarrow> bytes \<Rightarrow> bytes \<Rightarrow> (int \<times> nat option) cres" where
  "ih_get_shm_by_name k infobuf name =
     cbind (find_shm infobuf name 0) (\<lambda>r.
     case r of
       None \<Rightarrow> Inr (-1, None)
     | Some off \<Rightarrow>
         cbind (slice infobuf off SHM_NODE_SIZE) (\<lambda>e.
         ih_get_shm_by_id k (sint (shm_id (shm_node_at e)))))"

section \<open>Asking the broker for the table\<close>

text \<open>
  \<open>ih_get_shm_infos\<close>: the first loop waits for the answer to GET\_SHM\_NUM and leaves when a
  receive fails; each turn takes at least a header off the stream, so the length of the
  pending input bounds it (\<open>wait_num_fuel\<close> below).  The second loop has no such exit; it runs
  over the answers select gives, and a list of answers that ends before the loop does is
  reported as \<open>OutOfFuel\<close>.
\<close>

definition pending :: "client \<Rightarrow> nat" where
  "pending c = (case cl_net c (client_connfd c) of None \<Rightarrow> 0 | Some s \<Rightarrow> length (incoming s))"

fun wait_num :: "nat \<Rightarrow> client \<Rightarrow> (bytes option \<times> client) cres" where
  "wait_num 0 c = Inl OutOfFuel"
| "wait_num (Suc fuel) c =
     cbind (tcp_recv_protocol_cmd (cl_net c) (client_connfd c) (Some (replicate 8 0))
              (Some (replicate 56 0))) (\<lambda>(ret, h, d, w).
     if ret < 0 then Inr (None, c\<lparr>cl_net := w\<rparr>)
     else cbind (deref h) (\<lambda>hb. cbind (deref d) (\<lambda>db.
       cbind (GET_PROTOCOL_CMD_ID (hb @ db)) (\<lambda>cid.
       if uint cid \<noteq> IH_RESERVE_CMD_ID_GET_SHM_NUM then wait_num fuel (c\<lparr>cl_net := w\<rparr>)
       else Inr (Some (hb @ db), c\<lparr>cl_net := w\<rparr>)))))"

fun wait_infos ::
    "bool list \<Rightarrow> int \<Rightarrow> bytes \<Rightarrow> nat \<Rightarrow> client \<Rightarrow> (nat \<times> bytes \<times> client) cres" where
  "wait_infos [] ret buf datalen c = Inl OutOfFuel"
| "wait_infos (sl # sls) ret buf datalen c =
     (if \<not> ih_select_recv_ready sl c then
        (if ih_recvIsShmIDs ret then Inr (datalen, buf, c) else wait_infos sls ret buf datalen c)
      else cbind (ih_recv_data buf c) (\<lambda>(ret', dl, buf', c').
        let datalen' = (case dl of None \<Rightarrow> datalen | Some n \<Rightarrow> n) in
        if ih_recvIsShmIDs ret' then Inr (datalen', buf', c')
        else wait_infos sls ret' buf' datalen' c'))"

definition ih_get_shm_infos ::
    "bool list \<Rightarrow> bytes \<Rightarrow> int \<Rightarrow> client \<Rightarrow> (int \<times> bytes \<times> client) cres" where
  "ih_get_shm_infos sls buffer buffersize c =
     (if client_connfd c < 0 then Inr (-1, buffer, c)
      else cbind (send_reserve IH_RESERVE_CMD_ID_GET_SHM_NUM c) (\<lambda>(_, c1).
        cbind (wait_num (Suc (pending c1)) c1) (\<lambda>(got, c2).
        case got of
          None \<Rightarrow> Inr (-1, buffer, c2)
        | Some wbuf \<Rightarrow>
            cbind (peek wbuf PROTOCOL_CMD_HEAD_LEN) (\<lambda>n.
            let shm_num = unat n in
            if int (SHM_NODE_SIZE * shm_num) > buffersize mod 2 ^ 64 then Inr (-1, buffer, c2)
            else if shm_num = 0 then Inr (0, buffer, c2)
            else cbind (ih_send_getShmIDs_cmd c2) (\<lambda>(ret, c3).
              if ret < 0 then Inr (ret, buffer, c3)
              else cbind (wait_infos sls ret buffer 0 c3) (\<lambda>(datalen, buf', c4).
                Inr (int (datalen div SHM_NODE_SIZE), buf', c4)))))))"

section \<open>What goes on the wire\<close>

definition client_head :: "nat \<Rightarrow> nat \<Rightarrow> PROTOCOL_CMD" where
  "client_head n len = \<lparr>szMagic = PROTOCOL_MAGIC, bodylen = of_nat (len + nat (round4 (int n))),
     cmdSendType = word_of_int IH_CMD_TYPE_SEND_PARALLEL, cmdid = word_of_int IH_CMD_ID_DEFAULT,
     broadcast_num = of_nat n, pad = 0\<rparr>"

definition client_wire :: "bytes \<Rightarrow> bytes \<Rightarrow> bytes" where
  "client_wire ids d = bytes_of_head (client_head (length ids) (length d)) @
     ids @ replicate (nat (round4 (int (length ids))) - length ids) 0 @ d"

lemma round4_nonneg: "0 \<le> x \<Longrightarrow> 0 \<le> round4 x"
  using round4_bounds(1)[of x] by linarith

text \<open>The header buffer \<open>ih_send_broadcast_data\<close> builds: it has room for 56 ids.\<close>

lemma client_head_buffer:
  shows "cbind (set_broadcast_cmd_head (replicate 64 0) (int len) IH_CMD_ID_DEFAULT (int (length ids)))
      (\<lambda>h1. set_pure_broadcast_field (Some h1) None (int (length ids)) (Some ids)) =
    (if length ids \<le> 56
     then Inr (Some (bytes_of_head (client_head (length ids) len) @ ids @ replicate (56 - length ids) 0), None)
     else Inl OOB)"
proof -
  let ?z = "replicate 64 (0 :: u8)" and ?n = "int (length ids)"
  have z: "8 \<le> length ?z" by simp
  obtain m where m: "set_broadcast_cmd_head ?z (int len) IH_CMD_ID_DEFAULT ?n = Inr m" "length m = 64"
    "drop 8 m = drop 8 ?z"
    "head_of m = (pure_head_upd (int len + round4 ?n) 1 IH_CMD_ID_DEFAULT (head_of ?z))
      \<lparr>broadcast_num := word_of_int ?n\<rparr>"
    using set_broadcast_cmd_head_upd[OF z, of "int len" IH_CMD_ID_DEFAULT ?n]
    unfolding length_replicate by blast
  have bl: "word_of_int (int len + round4 ?n) = (of_nat (len + nat (round4 ?n)) :: u16)"
    using round4_nonneg[of ?n] by (metis int_nat_eq of_int_of_nat_eq of_nat_0_le_iff of_nat_add)
  have h: "head_of m = client_head (length ids) len"
    using m(4) round4_nonneg[of ?n]
    by (simp add: pure_head_upd_def blank_head_def client_head_def cmd_consts bl)
  have 8: "8 \<le> length m" using m(2) by simp
  have tm: "take 8 m = bytes_of_head (client_head (length ids) len)"
    using bytes_of_head_of[OF 8] h by simp
  have "broadcast_num (head_of m) = word_of_int ?n" using h by (simp add: client_head_def)
  then have m6: "m ! 6 = word_of_int ?n" by (simp add: head_of_def)
  have "take 8 m = take 6 m @ [m ! 6, m ! 7]"
    by (rule head_split[OF 8]) (simp add: numeral_eq_Suc)
  then have t6: "take 6 m @ [word_of_int ?n] @ [m ! 7] = take 8 m" using m6 by simp
  have d: "drop (8 + length ids) m = replicate (56 - length ids) 0"
    using arg_cong[OF m(3), of "drop (length ids)"] by (simp add: add.commute)
  show ?thesis
    using set_pure_broadcast_field_head[OF 8, of ?n ids] m(1,2) t6 tm d by auto
qed

lemma client_head_facts:
  "length (bytes_of_head (client_head n len)) = 8"
  "head_of (bytes_of_head (client_head n len) @ r) = client_head n len"
  using head_bytes_roundtrip[of "client_head n len"] by (simp_all add: client_head_def PROTOCOL_MAGIC_def)

lemma round4_pad: "n \<le> 56 \<Longrightarrow> nat (round4 (int n)) \<le> 56 \<and> n \<le> nat (round4 (int n))"
proof
  assume n: "n \<le> 56"
  obtain k where k: "round4 (int n) = 4 * k" using round4_bounds(3)[of "int n"] by blast
  then have "4 * k < 60" using round4_bounds(2)[of "int n"] n by linarith
  then have "k \<le> 14" by simp
  then show "nat (round4 (int n)) \<le> 56" using k by simp
  show "n \<le> nat (round4 (int n))" using round4_bounds(1)[of "int n"] by linarith
qed

text \<open>
  With at most 56 ids and an obliging kernel the whole message goes out; with more the header
  buffer overflows.
\<close>

lemma ih_send_broadcast_data_ok:
  assumes "0 \<le> client_connfd c" and "fd_ready (cl_net c) (client_connfd c)"
    and "length ids \<le> 56"
  shows "\<exists>w'. ih_send_broadcast_data \<lparr>bc_data = Some d, bc_ids = Some ids,
      bc_br_num = int (length ids), bc_datalen = int (length d)\<rparr> c = Inr (0, c\<lparr>cl_net := w'\<rparr>) \<and>
    sends (cl_net c) (client_connfd c) (client_wire ids d) w'"
proof -
  let ?n = "int (length ids)" and ?w = "cl_net c" and ?fd = "client_connfd c"
  let ?p = "nat (round4 ?n)"
  let ?h = "bytes_of_head (client_head (length ids) (length d)) @ ids @ replicate (56 - length ids) 0"
  note pad = round4_pad[OF assms(3)]
  let ?msg = "bytes_of_head (client_head (length ids) (length d)) @ ids @ replicate (?p - length ids) 0"
  have tk: "take (8 + ?p) ?h = ?msg"
    using pad assms(3) client_head_facts(1) by (simp add: min_absorb1 diff_le_mono)
  have len: "8 + round4 ?n = int (8 + ?p)" using round4_nonneg[of ?n] by simp
  obtain s where s: "?w ?fd = Some s" "obliging RETRIES (sched s)" using assms(2) by (auto simp: fd_ready_def)
  have lm: "int (length ?msg) = 8 + round4 ?n" using len pad client_head_facts(1) by simp
  obtain w1 where w1: "tcp_send_noblock ?w ?fd (Some ?msg) (8 + round4 ?n) = Inr (0, w1)"
    "sends ?w ?fd ?msg w1"
    using tcp_send_noblock_obliging[of ?w ?fd s ?msg, OF s assms(1) lm] by blast
  have n8: "nat (8 + round4 ?n) = 8 + ?p" unfolding len by (rule nat_int)
  have "8 + ?p \<le> length ?h" using pad assms(3) client_head_facts(1) by simp
  then have "tcp_send_noblock ?w ?fd (Some (take (8 + ?p) ?h)) (8 + round4 ?n) =
      tcp_send_noblock ?w ?fd (Some ?h) (8 + round4 ?n)"
    using tcp_send_noblock_take[of "8 + round4 ?n" ?h ?w ?fd] unfolding n8 by blast
  then have t1: "tcp_send_noblock ?w ?fd (Some ?h) (8 + round4 ?n) = Inr (0, w1)"
    using w1(1) unfolding tk by simp
  obtain s1 where s1: "w1 ?fd = Some s1" "obliging RETRIES (sched s1)"
    using fd_ready_sends[OF w1(2) assms(2)] by (auto simp: fd_ready_def)
  obtain w2 where w2: "tcp_send_noblock w1 ?fd (Some d) (int (length d)) = Inr (0, w2)" "sends w1 ?fd d w2"
    using tcp_send_noblock_obliging[of w1 ?fd s1 d, OF s1 assms(1) refl] by blast
  obtain h1 where h1: "set_broadcast_cmd_head (replicate 64 0) (int (length d)) IH_CMD_ID_DEFAULT ?n = Inr h1"
    "set_pure_broadcast_field (Some h1) None ?n (Some ids) = Inr (Some ?h, None)"
    using client_head_buffer[of "length d" ids] assms(3)
    by (auto simp: cbind_eq_Inr_iff)
  have "ih_send_broadcast_data \<lparr>bc_data = Some d, bc_ids = Some ids, bc_br_num = ?n,
      bc_datalen = int (length d)\<rparr> c = Inr (0, c\<lparr>cl_net := w2\<rparr>)"
    using assms(1) h1 t1 w2(1) by (simp add: ih_send_broadcast_data_def)
  moreover have "sends ?w ?fd (client_wire ids d) w2"
    using sends_trans[OF w1(2) w2(2)] by (simp add: client_wire_def)
  ultimately show ?thesis by blast
qed

lemma ih_send_broadcast_data_overflow:
  assumes "0 \<le> client_connfd c" and "56 < length ids"
  shows "ih_send_broadcast_data \<lparr>bc_data = d, bc_ids = Some ids,
      bc_br_num = int (length ids), bc_datalen = int len\<rparr> c = Inl OOB"
  using client_head_buffer[of len ids] assms
  by (auto simp: ih_send_broadcast_data_def cbind_eq_Inl_iff)

section \<open>What comes off the wire\<close>

lemma ih_recv_data_frame:
  assumes "0 \<le> client_connfd c" and "cl_net c (client_connfd c) = Some s"
    and "obliging RETRIES (sched s)" and "incoming s = hb @ body @ rest" and "length hb = 8"
    and "unat (bodylen (head_of hb)) = length body" and "length body \<le> length data"
  shows "\<exists>w' s'. ih_recv_data data c =
      Inr (if uint (cmdid (head_of hb)) = IH_RESERVE_CMD_ID_GET_SHM_INFO
           then IH_RESERVE_CMD_ID_GET_SHM_INFO else 0,
         Some (length body), body @ drop (length body) data, c\<lparr>cl_net := w'\<rparr>) \<and>
    w' (client_connfd c) = Some s' \<and> incoming s' = rest \<and>
    fd_ready w' (client_connfd c)"
proof -
  let ?fd = "client_connfd c" and ?z = "replicate 8 (0 :: u8)"
  obtain w' s' where r: "tcp_recv_protocol_cmd (cl_net c) ?fd (Some ?z) (Some data) =
      Inr (0, Some hb, Some (body @ drop (length body) data), w')"
    "w' ?fd = Some s'" "incoming s' = rest"
    using tcp_recv_protocol_cmd_frame[of "cl_net c" ?fd s ?z hb body rest data] assms by auto
  have "suffix (sched s') (sched s)"
    using tcp_recv_protocol_cmd_success[OF r(1) assms(1)] r(2) assms(2) by auto
  then have "fd_ready w' ?fd" using r(2) assms(3) obliging_suffix by (auto simp: fd_ready_def)
  moreover have "ih_recv_data data c =
      Inr (if uint (cmdid (head_of hb)) = IH_RESERVE_CMD_ID_GET_SHM_INFO
           then IH_RESERVE_CMD_ID_GET_SHM_INFO else 0,
         Some (length body), body @ drop (length body) data, c\<lparr>cl_net := w'\<rparr>)"
    using r(1) assms by (simp add: ih_recv_data_def GET_head)
  ultimately show ?thesis using r(2,3) by blast
qed

section \<open>Looking a block up by name\<close>

lemma c_strcmp_eq_cstr:
  "0 \<notin> set a \<Longrightarrow> 0 \<notin> set b \<Longrightarrow> c_strcmp_eq a (b @ 0 # r) = Inr (a = b)"
proof (induction a arbitrary: b)
  case Nil
  then show ?case by (cases b) auto
next
  case (Cons x a)
  then show ?case by (cases b) auto
qed

lemma c_strlen_cstr: "0 \<notin> set b \<Longrightarrow> c_strlen (b @ 0 # r) = Inr (length b)"
  by (simp add: c_strlen_def)

lemma shm_node_bytes_cstr:
  assumes "shm_node_ok s"
  obtains r where "shm_node_bytes s = shm_name s @ 0 # r"
proof -
  have "0 < MAX_FILE_NAME - length (shm_name s)" using assms by (simp add: shm_node_ok_def)
  then obtain k where "MAX_FILE_NAME - length (shm_name s) = Suc k" by (cases "MAX_FILE_NAME - length (shm_name s)") auto
  then show ?thesis using that by (simp add: shm_node_bytes_def)
qed

lemma find_shm_step:
  assumes "drop off buf = shm_node_bytes s @ r" and "shm_node_ok s" and "0 \<notin> set name"
  shows "find_shm buf name off =
    (if shm_name s = name then Inr (Some off)
     else if shm_name s = [] then Inr None else find_shm buf name (off + 40))"
proof -
  obtain q where q: "shm_node_bytes s = shm_name s @ 0 # q" using shm_node_bytes_cstr[OF assms(2)] .
  have "off < length buf"
  proof (rule ccontr)
    assume "\<not> off < length buf"
    then have "drop off buf = []" by simp
    then show False using assms(1) q by simp
  qed
  moreover have "0 \<notin> set (shm_name s)" using assms(2) by (simp add: shm_node_ok_def)
  ultimately show ?thesis
    using assms(3) c_strcmp_eq_cstr[of name "shm_name s" "q @ r"] c_strlen_cstr[of "shm_name s" "q @ r"]
    by (subst find_shm.simps) (auto simp: assms(1) q SHM_NODE_SIZE_def)
qed

lemma find_shm_table:
  assumes "drop off buf = shm_table_bytes ss @ r" and "list_all shm_node_ok ss"
    and "\<forall>s \<in> set ss. shm_name s \<noteq> []" and "0 \<notin> set name"
  shows "find_shm buf name off =
    (case find_first (\<lambda>s. shm_name s = name) ss of
       Some i \<Rightarrow> Inr (Some (off + 40 * i))
     | None \<Rightarrow> find_shm buf name (off + 40 * length ss))"
  using assms
proof (induction ss arbitrary: off)
  case Nil
  then show ?case by simp
next
  case (Cons s ss)
  have step: "find_shm buf name off =
    (if shm_name s = name then Inr (Some off)
     else if shm_name s = [] then Inr None else find_shm buf name (off + 40))"
    using Cons.prems by (intro find_shm_step[of _ _ s "shm_table_bytes ss @ r"]) (simp_all add: shm_table_bytes_def)
  have "drop (off + 40) buf = drop 40 (drop off buf)" by (simp add: add.commute)
  then have d: "drop (off + 40) buf = shm_table_bytes ss @ r"
    using Cons.prems(1,2) length_shm_node_bytes[of s] by (simp add: shm_table_bytes_def)
  from Cons.IH[OF d] Cons.prems show ?case
    by (simp add: step add.assoc split: option.splits)
qed

text \<open>
  A name that is in the table is found, at its first occurrence, and its id is handed to
  \<open>ih_get_shm_by_id\<close>; a name that is not is reported only when something without a name
  follows the table: otherwise the scan reads past the end of the buffer.
\<close>

lemma ih_get_shm_by_name_found:
  assumes "list_all shm_node_ok ss" and "\<forall>s \<in> set ss. shm_name s \<noteq> []" and "0 \<notin> set name"
    and "find_first (\<lambda>s. shm_name s = name) ss = Some i"
  shows "ih_get_shm_by_name k (shm_table_bytes ss @ r) name =
    ih_get_shm_by_id k (sint (shm_id (ss ! i)))"
proof -
  let ?buf = "shm_table_bytes ss @ r"
  have i: "i < length ss" using find_first_Some[OF assms(4)] by simp
  have split: "ss = take i ss @ ss ! i # drop (Suc i) ss" using i by (rule id_take_nth_drop)
  have lenb: "length (shm_table_bytes (take i ss)) = 40 * i"
    using length_shm_table_bytes[of "take i ss"] assms(1) i by (auto simp: list_all_iff dest: in_set_takeD)
  have "?buf = shm_table_bytes (take i ss) @ shm_node_bytes (ss ! i) @
      shm_table_bytes (drop (Suc i) ss) @ r"
    by (subst split) (simp add: shm_table_bytes_def)
  then have d: "drop (40 * i) ?buf = shm_node_bytes (ss ! i) @ shm_table_bytes (drop (Suc i) ss) @ r"
    using lenb by simp
  have ok: "shm_node_ok (ss ! i)" using assms(1) i by (simp add: list_all_length)
  have l40: "length (shm_node_bytes (ss ! i)) = 40" using length_shm_node_bytes[OF ok] .
  have le: "40 * i + 40 \<le> length ?buf"
  proof -
    have "length (drop (40 * i) ?buf) \<ge> 40" unfolding d using l40 by simp
    then show ?thesis by simp
  qed
  have "slice ?buf (40 * i) 40 = Inr (shm_node_bytes (ss ! i))"
    using le d l40 by (simp add: slice_def)
  moreover have "find_shm ?buf name 0 = Inr (Some (40 * i))"
    using find_shm_table[of 0 ?buf ss r name] assms by simp
  moreover have "shm_node_at (shm_node_bytes (ss ! i)) = ss ! i"
    using shm_node_roundtrip[OF ok, of "[]"] by simp
  ultimately show ?thesis by (simp add: ih_get_shm_by_name_def SHM_NODE_SIZE_def)
qed

lemma ih_get_shm_by_name_absent:
  assumes "list_all shm_node_ok ss" and "\<forall>s \<in> set ss. shm_name s \<noteq> []" and "0 \<notin> set name"
    and "name \<notin> shm_name ` set ss" and "name \<noteq> []"
  shows "ih_get_shm_by_name k (shm_table_bytes ss @ 0 # r) name = Inr (-1, None)"
    and "ih_get_shm_by_name k (shm_table_bytes ss) name = Inl OOB"
proof -
  have none: "find_first (\<lambda>s. shm_name s = name) ss = None"
    using assms(4) by (auto simp: find_first_None)
  note len = length_shm_table_bytes[OF assms(1)]
  have "find_shm (shm_table_bytes ss @ 0 # r) name (40 * length ss) = Inr None"
    using c_strcmp_eq_cstr[of name "[]" r] c_strlen_cstr[of "[]" r] assms(3,5) len
    by (subst find_shm.simps) simp
  then show "ih_get_shm_by_name k (shm_table_bytes ss @ 0 # r) name = Inr (-1, None)"
    using find_shm_table[of 0 "shm_table_bytes ss @ 0 # r" ss "0 # r" name] assms none
    by (simp add: ih_get_shm_by_name_def)
  have "find_shm (shm_table_bytes ss) name (40 * length ss) = Inl OOB"
    using len by (subst find_shm.simps) simp
  then show "ih_get_shm_by_name k (shm_table_bytes ss) name = Inl OOB"
    using find_shm_table[of 0 "shm_table_bytes ss" ss "[]" name] assms none
    by (simp add: ih_get_shm_by_name_def)
qed

section \<open>Waiting for the answers\<close>

lemma wait_num_fuel:
  assumes "0 \<le> client_connfd c" and "pending c < fuel"
  shows "wait_num fuel c \<noteq> Inl OutOfFuel"
  using assms
proof (induction fuel arbitrary: c)
  case 0
  then show ?case by simp
next
  case (Suc fuel)
  let ?r = "tcp_recv_protocol_cmd (cl_net c) (client_connfd c) (Some (replicate 8 0)) (Some (replicate 56 0))"
  show ?case
  proof (cases ?r)
    case (Inl e)
    then have "e = OOB" using tcp_recv_protocol_cmd_fault by fastforce
    then show ?thesis using Inl by simp
  next
    case (Inr x)
    obtain r h d w where x: "x = (r, h, d, w)" by (metis prod_cases4)
    note ret = tcp_recv_protocol_cmd_returns[OF Inr[unfolded x]]
    show ?thesis
    proof (cases "r < 0")
      case True
      then show ?thesis using Inr x by simp
    next
      case False
      then have r0: "r = 0" using ret by auto
      obtain hb body s s' where su: "h = Some hb" "length hb = 8" "d = Some (body @ drop (length body) (replicate 56 0))"
        "cl_net c (client_connfd c) = Some s" "w (client_connfd c) = Some s'"
        "incoming s = hb @ body @ incoming s'"
        using tcp_recv_protocol_cmd_success[OF Inr[unfolded x r0] Suc.prems(1)] by auto
      let ?c = "c\<lparr>cl_net := w\<rparr>"
      have "pending ?c < fuel" using su Suc.prems(2) by (simp add: pending_def)
      then have "wait_num fuel ?c \<noteq> Inl OutOfFuel" using Suc.IH[of ?c] Suc.prems(1) by simp
      then show ?thesis using Inr x r0 su(1,2,3) by (simp add: GET_head)
    qed
  qed
qed

text \<open>Once the descriptor is closed the second loop never ends, whatever select says.\<close>

lemma wait_infos_closed:
  "client_connfd c < 0 \<Longrightarrow> \<not> ih_recvIsShmIDs ret \<Longrightarrow> wait_infos sls ret buf dl c = Inl OutOfFuel"
  by (induction sls) (simp_all add: ih_select_recv_ready_def)

lemma wait_infos_disconnect:
  assumes "0 \<le> client_connfd c" and "cl_net c (client_connfd c) = Some s"
    and "sched s = []" and "incoming s = []" and "peer_closed s" and "\<not> ih_recvIsShmIDs ret"
  shows "wait_infos sls ret buf dl c = Inl OutOfFuel"
proof (induction sls)
  case Nil
  then show ?case by simp
next
  case (Cons sl sls)
  have l: "recv_loop (cl_net c) (client_connfd c) (replicate 8 0) 8 0 RETRIES =
      Inr (0, RETRIES, replicate 8 0, (cl_net c)(client_connfd c \<mapsto> s))"
    using assms(2-5) by (subst recv_loop.simps) (simp add: sys_recv_def deliver_def)
  have "ih_recv_data buf c =
      Inr (-1, Some 0, buf, close_client (c\<lparr>cl_net := (cl_net c)(client_connfd c \<mapsto> s)\<rparr>))"
    using assms(1) l by (simp add: ih_recv_data_def tcp_recv_protocol_cmd_def)
  moreover have "\<not> ih_recvIsShmIDs (-1)"
    by (simp add: ih_recvIsShmIDs_def IH_RESERVE_CMD_ID_GET_SHM_INFO_def)
  ultimately show ?case
    using Cons assms(1,6) by (simp add: ih_select_recv_ready_def wait_infos_closed close_client_def)
qed

end
