(* ===== verification/Broker.thy ===== *)
theory Broker
  imports Node
begin

text \<open>
  The broker: broadcast\_cmd and parser\_reserve\_cmd of src/conf.c and the event loop of
  main.c.  One turn of the loop is \<open>main_step\<close>, a function of the broker's state and of what
  select, accept and stat report; \<open>broker_step\<close> is the step relation over all reports.
\<close>

section \<open>Forwarding a message\<close>

text \<open>
  The two nested loops of broadcast\_cmd: for every node, for every id of the message, send
  when they are equal.  \<open>put\<close> sends the prepared message on a descriptor.  \<open>Some r\<close> in the
  result is an early return of the function with value \<open>r\<close>.
\<close>

fun bcast_ids ::
    "(net \<Rightarrow> int \<Rightarrow> 'm \<Rightarrow> (int \<times> net) cres) \<Rightarrow> net \<Rightarrow> pub_sub_node_t \<Rightarrow> bytes \<Rightarrow> 'm \<Rightarrow>
     (int option \<times> net) cres" where
  "bcast_ids put w n [] m = Inr (None, w)"
| "bcast_ids put w n (b # bs) m =
     (if uint b = nd_id n then
        cbind (put w (nd_connfd n) m) (\<lambda>(r, w').
          if r < 0 then Inr (Some (- nd_id n), w') else bcast_ids put w' n bs m)
      else bcast_ids put w n bs m)"

fun bcast_nodes ::
    "(net \<Rightarrow> int \<Rightarrow> 'm \<Rightarrow> (int \<times> net) cres) \<Rightarrow> net \<Rightarrow> pub_sub_node_t list \<Rightarrow> bytes \<Rightarrow> 'm \<Rightarrow>
     (int option \<times> net) cres" where
  "bcast_nodes put w [] ids m = Inr (None, w)"
| "bcast_nodes put w (n # ns) ids m =
     cbind (bcast_ids put w n ids m) (\<lambda>(r, w').
       case r of Some v \<Rightarrow> Inr (Some v, w') | None \<Rightarrow> bcast_nodes put w' ns ids m)"

text \<open>
  \<open>broadcast_cmd\<close> on the receive buffer \<open>buf\<close>, whose header is at 0 and whose data (the ids,
  padded, then the payload) is at 8.  The header is rewritten in place before the message is
  sent on; the count of ids is read before that, the ids after it.
\<close>

definition broadcast_cmd ::
    "pub_sub_node_t list \<Rightarrow> net \<Rightarrow> bytes \<Rightarrow> (int \<times> net \<times> bytes) cres" where
  "broadcast_cmd ns w buf =
     cbind (GET_PROTOCOL_CMD_BROADCAST_NUM buf) (\<lambda>num.
     cbind (GET_PROTOCOL_BODY_LEN buf) (\<lambda>bl.
     cbind (GET_PROTOCOL_BROADCAST_LEN buf) (\<lambda>brl.
     let len = uint bl - int brl; data = drop (8 + brl) buf in
     cbind (set_broadcast_cmd_head buf len (-1) 0) (\<lambda>b1.
     cbind (set_pure_broadcast_field (Some b1) None 0 None) (\<lambda>(h, _).
     cbind (deref h) (\<lambda>b2.
     cbind (slice b2 8 (unat num)) (\<lambda>ids.
     cbind (bcast_nodes put_cmd w ns ids (b2, data)) (\<lambda>(r, w').
     Inr (case r of None \<Rightarrow> 0 | Some v \<Rightarrow> v, w', b2)))))))))"

section \<open>Answering a reserved command\<close>

definition parser_reserve_cmd ::
    "pub_sub_node_t \<Rightarrow> int \<Rightarrow> net \<Rightarrow> bytes \<Rightarrow> (int \<times> net) cres" where
  "parser_reserve_cmd node_start connfd w cmd =
     (let buf = replicate 2000 (0 :: u8) in
      cbind (GET_PROTOCOL_CMD_ID cmd) (\<lambda>cid.
      if uint cid = IH_RESERVE_CMD_ID_GET_SHM_INFO then
        cbind (set_pure_protocol_head buf (int SHM_NODE_SIZE * nd_shm_node_num node_start) 0
                 IH_RESERVE_CMD_ID_GET_SHM_INFO) (\<lambda>b.
        tcp_send_protocol_cmd w connfd (Some b)
          (map_option shm_table_bytes (nd_shm_node_ptr node_start)))
      else if uint cid = IH_RESERVE_CMD_ID_GET_SHM_NUM then
        cbind (set_pure_protocol_head buf 1 0 IH_RESERVE_CMD_ID_GET_SHM_NUM) (\<lambda>b.
        cbind (poke b PROTOCOL_CMD_HEAD_LEN (word_of_int (nd_shm_node_num node_start))) (\<lambda>b'.
        tcp_send_protocol_cmd w connfd (Some b') (Some (drop PROTOCOL_CMD_HEAD_LEN b'))))
      else Inr (0, w)))"

section \<open>The event loop\<close>

record broker =
  br_start :: pub_sub_node_t
  br_nodes :: "pub_sub_node_t list"
  br_sockfd :: int
  br_max_conn_fd :: int
  br_link_count :: int
  br_net :: net

text \<open>
  What the outside answers in one turn: select timed out, failed, or marked some descriptors
  readable; in the last case also what accept would return, the socket it would create and
  what stat says about the peer's name.
\<close>

datatype sel =
    SelTimeout
  | SelError
  | SelReady "int list" accept_env socket

definition close_node :: "nat \<Rightarrow> broker \<Rightarrow> broker" where
  "close_node i b =
     b\<lparr>br_net := close_fd (nd_connfd (br_nodes b ! i)) (br_net b),
       br_nodes := (br_nodes b)[i := (br_nodes b ! i)\<lparr>nd_connfd := -1\<rparr>]\<rparr>"

definition remove_node :: "nat \<Rightarrow> broker \<Rightarrow> broker" where
  "remove_node i b = (close_node i b)\<lparr>br_link_count := br_link_count b - 1\<rparr>"

text \<open>
  An fd\_set holds the descriptors below FD\_SETSIZE; FD\_SET and FD\_ISSET of any other one, and
  a select that is told of more descriptors than the set has, leave it.
\<close>

definition FD_SETSIZE :: int where "FD_SETSIZE = 1024"

definition FD_SET :: "int \<Rightarrow> int list \<Rightarrow> int list cres" where
  "FD_SET fd rset = (if 0 \<le> fd \<and> fd < FD_SETSIZE then Inr (fd # rset) else Inl OOB)"

definition FD_ISSET :: "int \<Rightarrow> int list \<Rightarrow> bool cres" where
  "FD_ISSET fd rset = (if 0 \<le> fd \<and> fd < FD_SETSIZE then Inr (fd \<in> set rset) else Inl OOB)"

text \<open>
  The first loop of a turn: the set of descriptors for select, and \<open>max_conn_fd\<close>, the largest
  descriptor any node has had so far.
\<close>

fun watch_nodes :: "pub_sub_node_t list \<Rightarrow> int list \<Rightarrow> int \<Rightarrow> (int list \<times> int) cres" where
  "watch_nodes [] rset mx = Inr (rset, mx)"
| "watch_nodes (n # ns) rset mx =
     cbind (if nd_connfd n > 0 then FD_SET (nd_connfd n) rset else Inr rset) (\<lambda>rset'.
     watch_nodes ns rset' (max (nd_connfd n) mx))"

text \<open>select with \<open>nfds\<close> keeps those of the descriptors below \<open>nfds\<close> that are ready.\<close>

definition select_set :: "int \<Rightarrow> int list \<Rightarrow> int list \<Rightarrow> int list" where
  "select_set nfds rset ready = filter (\<lambda>fd. fd < nfds \<and> fd \<in> set ready) rset"

text \<open>A new connection is entered at every node whose name its path carries.\<close>

fun register_all :: "bytes \<Rightarrow> int \<Rightarrow> pub_sub_node_t list \<Rightarrow> int \<Rightarrow> pub_sub_node_t list \<times> int" where
  "register_all un connfd [] lc = ([], lc)"
| "register_all un connfd (n # ns) lc =
     (if sock_name_matches (nd_name n) un
      then case register_all un connfd ns (lc + 1) of (ns', lc') \<Rightarrow>
             (n\<lparr>nd_connfd := connfd\<rparr> # ns', lc')
      else case register_all un connfd ns lc of (ns', lc') \<Rightarrow> (n # ns', lc'))"

definition accept_client :: "accept_env \<Rightarrow> socket \<Rightarrow> broker \<Rightarrow> broker cres" where
  "accept_client env sk b =
     cbind (accept_unix_tcp env) (\<lambda>(connfd, un).
     let b0 = (if acc_fd env < 0 then b else b\<lparr>br_net := (br_net b)(acc_fd env := Some sk)\<rparr>) in
     if connfd < 0 then Inr b0
     else cbind (deref un) (\<lambda>name.
       case register_all name connfd (br_nodes b0) (br_link_count b0) of (ns, lc) \<Rightarrow>
       Inr (b0\<lparr>br_nodes := ns, br_link_count := lc\<rparr>)))"

definition MAX_CMD_LEN :: nat where "MAX_CMD_LEN = 4096"

text \<open>One command from the node at position \<open>i\<close>.\<close>

definition serve_node :: "nat \<Rightarrow> broker \<Rightarrow> broker cres" where
  "serve_node i b =
     (let fd = nd_connfd (br_nodes b ! i); rbuf = replicate MAX_CMD_LEN (0 :: u8) in
      cbind (tcp_recv_protocol_cmd (br_net b) fd (Some (take 8 rbuf)) (Some (drop 8 rbuf)))
        (\<lambda>(ret, h, d, w).
      let b1 = b\<lparr>br_net := w\<rparr> in
      if ret < 0 then Inr (remove_node i b1)
      else cbind (deref h) (\<lambda>hb. cbind (deref d) (\<lambda>db.
        let rbuf1 = hb @ db in
        cbind (GET_PROTOCOL_CMD_TYPE rbuf1) (\<lambda>ty.
        if uint ty = IH_CMD_TYPE_SEND_RESERVE then
          cbind (parser_reserve_cmd (br_start b1) fd (br_net b1) rbuf1) (\<lambda>(_, w2).
          Inr (b1\<lparr>br_net := w2\<rparr>))
        else if uint ty = IH_CMD_TYPE_SEND_SERIAL then Inr b1
        else
          cbind (broadcast_cmd (br_nodes b1) (br_net b1) rbuf1) (\<lambda>(ret2, w2, _).
          let b2 = b1\<lparr>br_net := w2\<rparr> in
          Inr (if ret2 < 0 then
                 (case find_node_by_id (br_nodes b2) (- ret2) of
                    Some j \<Rightarrow> close_node j b2
                  | None \<Rightarrow> b2)
               else b2)))))))"

text \<open>
  The loop over the nodes after select; a node's descriptor is looked at when its turn comes,
  so one closed on behalf of an earlier node is skipped.
\<close>

fun serve_all :: "nat list \<Rightarrow> int list \<Rightarrow> broker \<Rightarrow> broker cres" where
  "serve_all [] rset b = Inr b"
| "serve_all (i # is) rset b =
     (let fd = nd_connfd (br_nodes b ! i) in
      if fd < 0 then serve_all is rset b
      else cbind (FD_ISSET fd rset) (\<lambda>is_set.
        if \<not> is_set then serve_all is rset b
        else cbind (serve_node i b) (\<lambda>b'. serve_all is rset b')))"

text \<open>One turn; the boolean says whether the loop goes on.\<close>

definition main_step :: "sel \<Rightarrow> broker \<Rightarrow> (bool \<times> broker) cres" where
  "main_step ev b =
     cbind (FD_SET (br_sockfd b) []) (\<lambda>r0.
     cbind (watch_nodes (br_nodes b) r0 (br_max_conn_fd b)) (\<lambda>(rset, mx).
     let b0 = b\<lparr>br_max_conn_fd := mx\<rparr>; maxfd = max (br_sockfd b) mx in
     if maxfd + 1 > FD_SETSIZE then Inl OOB
     else case ev of
       SelTimeout \<Rightarrow> Inr (True, b0)
     | SelError \<Rightarrow> Inr (False, b0)
     | SelReady ready env sk \<Rightarrow>
         let rset' = select_set (maxfd + 1) rset ready in
         cbind (FD_ISSET (br_sockfd b0) rset') (\<lambda>is_set.
         if is_set then cbind (accept_client env sk b0) (\<lambda>b1. Inr (True, b1))
         else cbind (serve_all [0..<length (br_nodes b0)] rset' b0) (\<lambda>b1. Inr (True, b1)))))"

section \<open>What a broadcast delivers\<close>

fun sends_all :: "net \<Rightarrow> (int \<times> bytes) list \<Rightarrow> net \<Rightarrow> bool" where
  "sends_all w [] w' \<longleftrightarrow> w' = w"
| "sends_all w ((fd, bs) # ds) w' \<longleftrightarrow> (\<exists>w1. sends w fd bs w1 \<and> sends_all w1 ds w')"

lemma sends_all_append:
  "sends_all w (as @ bs) w' \<longleftrightarrow> (\<exists>w1. sends_all w as w1 \<and> sends_all w1 bs w')"
proof (induction as arbitrary: w)
  case Nil
  then show ?case by simp
next
  case (Cons d as)
  obtain fd b where d: "d = (fd, b)" by fastforce
  show ?case using Cons.IH unfolding d by (simp; blast)
qed

lemma sends_all_frame: "sends_all w ds w' \<Longrightarrow> fd \<notin> fst ` set ds \<Longrightarrow> w' fd = w fd"
  by (induction ds arbitrary: w) (auto simp: sends_def)

lemma sends_open: "sends w fd bs w' \<Longrightarrow> (w' g = None) = (w g = None)"
  by (cases "g = fd") (auto simp: sends_def split: option.splits)

lemma sends_all_open: "sends_all w ds w' \<Longrightarrow> (w' g = None) = (w g = None)"
proof (induction ds arbitrary: w)
  case (Cons d ds)
  obtain fd b where d: "d = (fd, b)" by fastforce
  then obtain w1 where "sends w fd b w1" "sends_all w1 ds w'" using Cons.prems by auto
  then show ?case using Cons.IH sends_open by simp
qed simp

text \<open>All the bytes a list of deliveries puts on one descriptor.\<close>

definition bytes_to :: "int \<Rightarrow> (int \<times> bytes) list \<Rightarrow> bytes" where
  "bytes_to fd ds = concat (map snd (filter (\<lambda>d. fst d = fd) ds))"

lemma sends_all_outgoing:
  "sends_all w ds w' \<Longrightarrow> w fd = Some s \<Longrightarrow>
   \<exists>s'. w' fd = Some s' \<and> outgoing s' = outgoing s @ bytes_to fd ds \<and> incoming s' = incoming s"
proof (induction ds arbitrary: w s)
  case Nil
  then show ?case by (simp add: bytes_to_def)
next
  case (Cons d ds)
  obtain g bs where d: "d = (g, bs)" by fastforce
  then obtain w1 where w1: "sends w g bs w1" "sends_all w1 ds w'" using Cons.prems by auto
  show ?case
  proof (cases "g = fd")
    case True
    then obtain s1 where "w1 fd = Some s1" "outgoing s1 = outgoing s @ bs" "incoming s1 = incoming s"
      using w1(1) Cons.prems(2) by (auto simp: sends_def)
    with Cons.IH[OF w1(2), of s1] True d show ?thesis by (auto simp: bytes_to_def)
  next
    case False
    then have "w1 fd = Some s" using w1(1) Cons.prems(2) by (auto simp: sends_def)
    with Cons.IH[OF w1(2), of s] False d show ?thesis by (auto simp: bytes_to_def)
  qed
qed

definition id_count :: "pub_sub_node_t \<Rightarrow> bytes \<Rightarrow> nat" where
  "id_count n ids = length (filter (\<lambda>b. uint b = nd_id n) ids)"

definition node_deliveries :: "bytes \<Rightarrow> bytes \<Rightarrow> pub_sub_node_t \<Rightarrow> (int \<times> bytes) list" where
  "node_deliveries ids msg n =
     (if nd_connfd n < 0 then [] else replicate (id_count n ids) (nd_connfd n, msg))"

definition deliveries :: "pub_sub_node_t list \<Rightarrow> bytes \<Rightarrow> bytes \<Rightarrow> (int \<times> bytes) list" where
  "deliveries ns ids msg = concat (map (node_deliveries ids msg) ns)"

lemma deliveries_simps [simp]:
  "deliveries [] ids msg = []"
  "deliveries (n # ns) ids msg = node_deliveries ids msg n @ deliveries ns ids msg"
  by (simp_all add: deliveries_def)

text \<open>A node the sink fails for: some copies went out, then a proper prefix of another.\<close>

definition node_cut ::
    "net \<Rightarrow> pub_sub_node_t \<Rightarrow> bytes \<Rightarrow> bytes \<Rightarrow> net \<Rightarrow> bool" where
  "node_cut w n ids msg w' \<longleftrightarrow> 0 \<le> nd_connfd n \<and>
     (\<exists>k p. k < id_count n ids \<and> p < length msg \<and>
        sends_all w (replicate k (nd_connfd n, msg) @ [(nd_connfd n, take p msg)]) w')"

definition broadcast_cut ::
    "net \<Rightarrow> pub_sub_node_t list \<Rightarrow> bytes \<Rightarrow> bytes \<Rightarrow> int \<Rightarrow> net \<Rightarrow> bool" where
  "broadcast_cut w ns ids msg v w' \<longleftrightarrow>
     (\<exists>ns1 n ns2 w1. ns = ns1 @ n # ns2 \<and> v = - nd_id n \<and>
        sends_all w (deliveries ns1 ids msg) w1 \<and> node_cut w1 n ids msg w')"

text \<open>An addressed node whose peer is gone: sending to it ends the process.\<close>

definition addressed :: "pub_sub_node_t \<Rightarrow> bytes \<Rightarrow> bool" where
  "addressed n ids \<longleftrightarrow> 0 \<le> nd_connfd n \<and> 0 < id_count n ids"

context message_sink
begin

lemma put_cases:
  assumes "valid m" and "0 \<le> fd"
  obtains (all) r w1 where "put w fd m = Inr (r, w1)" "0 \<le> r" "sends w fd (wire m) w1"
  | (part) r w1 p where "put w fd m = Inr (r, w1)" "r < 0" "p < length (wire m)"
      "sends w fd (take p (wire m)) w1"
  | (dead) "put w fd m = Inl Killed" "\<not> quiet w fd"
proof (cases "put w fd m")
  case (Inl e)
  then show ?thesis using put_fault[OF assms Inl] dead by simp
next
  case (Inr x)
  then obtain r w1 where r: "put w fd m = Inr (r, w1)" by (cases x) simp
  show ?thesis
  proof (cases "r < 0")
    case True
    then show ?thesis using put_part[OF assms r] part[OF r] by blast
  next
    case False
    then show ?thesis using put_all[OF assms r] all[OF r] by simp
  qed
qed

lemma quiet_sends_all: "sends_all w ds w' \<Longrightarrow> quiet w fd \<Longrightarrow> quiet w' fd"
proof (induction ds arbitrary: w)
  case (Cons d ds)
  obtain g b where d: "d = (g, b)" by fastforce
  then obtain w1 where "sends w g b w1" "sends_all w1 ds w'" using Cons.prems by auto
  then show ?case using Cons.IH[of w1] quiet_stable[of w g b w1 fd] Cons.prems(2) by blast
qed simp

lemma bcast_ids_closed: "nd_connfd n < 0 \<Longrightarrow> bcast_ids put w n ids m = Inr (None, w)"
  by (induction ids) (simp_all add: put_closed)

lemma bcast_ids_outcome:
  assumes "valid m" and "0 \<le> nd_connfd n"
  obtains (full) w' where "bcast_ids put w n ids m = Inr (None, w')"
      "sends_all w (replicate (id_count n ids) (nd_connfd n, wire m)) w'"
  | (cut) w' where "bcast_ids put w n ids m = Inr (Some (- nd_id n), w')"
      "node_cut w n ids (wire m) w'"
  | (dead) "bcast_ids put w n ids m = Inl Killed" "addressed n ids" "\<not> quiet w (nd_connfd n)"
proof -
  have "(\<exists>w'. bcast_ids put w n ids m = Inr (None, w') \<and>
      sends_all w (replicate (id_count n ids) (nd_connfd n, wire m)) w') \<or>
    (\<exists>w'. bcast_ids put w n ids m = Inr (Some (- nd_id n), w') \<and> node_cut w n ids (wire m) w') \<or>
    (bcast_ids put w n ids m = Inl Killed \<and> addressed n ids \<and> \<not> quiet w (nd_connfd n))"
  proof (induction ids arbitrary: w)
    case Nil
    then show ?case by (simp add: id_count_def)
  next
    case (Cons b ids)
    show ?case
    proof (cases "uint b = nd_id n")
      case False
      then have "id_count n (b # ids) = id_count n ids" by (simp add: id_count_def)
      then show ?thesis using Cons.IH[of w] False by (simp add: node_cut_def addressed_def)
    next
      case True
      then have c: "id_count n (b # ids) = Suc (id_count n ids)" by (simp add: id_count_def)
      then have ad: "addressed n (b # ids)" using assms(2) by (simp add: addressed_def)
      from assms show ?thesis
      proof (cases rule: put_cases[where w = w])
        case dead
        then show ?thesis using True ad by simp
      next
        case (part r w1 p)
        have "node_cut w n (b # ids) (wire m) w1"
          unfolding node_cut_def c using part assms(2)
          by (intro conjI exI[of _ 0] exI[of _ p]) simp_all
        then show ?thesis using True part by simp
      next
        case (all r w1)
        then have e: "bcast_ids put w n (b # ids) m = bcast_ids put w1 n ids m"
          using True by simp
        consider w' where "bcast_ids put w1 n ids m = Inr (None, w')"
            "sends_all w1 (replicate (id_count n ids) (nd_connfd n, wire m)) w'"
          | w' where "bcast_ids put w1 n ids m = Inr (Some (- nd_id n), w')"
            "node_cut w1 n ids (wire m) w'"
          | "bcast_ids put w1 n ids m = Inl Killed" "\<not> quiet w1 (nd_connfd n)"
          using Cons.IH[of w1] by blast
        then show ?thesis
        proof cases
          case 1
          have "sends_all w (replicate (id_count n (b # ids)) (nd_connfd n, wire m)) w'"
            using all(3) 1(2) unfolding c by (simp; blast)
          then show ?thesis using e 1(1) by simp
        next
          case 2
          then obtain k p where w': "k < id_count n ids" "p < length (wire m)"
            "sends_all w1 (replicate k (nd_connfd n, wire m) @ [(nd_connfd n, take p (wire m))]) w'"
            unfolding node_cut_def by blast
          have "sends_all w (replicate (Suc k) (nd_connfd n, wire m) @
              [(nd_connfd n, take p (wire m))]) w'"
            using w'(3) all(3) by (simp; blast)
          then have "node_cut w n (b # ids) (wire m) w'"
            unfolding node_cut_def c using w'(1,2) assms(2)
            by (intro conjI exI[of _ "Suc k"] exI[of _ p]) simp_all
          then show ?thesis using 2(1) e by simp
        next
          case 3
          then have "\<not> quiet w (nd_connfd n)" using quiet_stable[OF all(3)] by blast
          then show ?thesis using 3(1) e ad by simp
        qed
      qed
    qed
  qed
  then show ?thesis using full cut dead by blast
qed

text \<open>
  A broadcast over a list of nodes either delivers every copy to every addressed node, in
  list order, or stops at the first node the sink fails for: the nodes before it got theirs,
  the nodes after it nothing.  It has no result only when the peer of an addressed node is gone.
\<close>

lemma bcast_nodes_outcome:
  assumes "valid m"
  shows "(\<exists>w'. bcast_nodes put w ns ids m = Inr (None, w') \<and>
      sends_all w (deliveries ns ids (wire m)) w') \<or>
    (\<exists>v w'. bcast_nodes put w ns ids m = Inr (Some v, w') \<and>
      broadcast_cut w ns ids (wire m) v w') \<or>
    (bcast_nodes put w ns ids m = Inl Killed \<and>
      (\<exists>n \<in> set ns. addressed n ids \<and> \<not> quiet w (nd_connfd n)))"
proof (induction ns arbitrary: w)
  case Nil
  then show ?case by simp
next
  case (Cons n ns)
  have rest: ?case
    if e: "bcast_nodes put w (n # ns) ids m = bcast_nodes put w1 ns ids m"
      and s: "sends_all w (node_deliveries ids (wire m) n) w1" for w1
    using Cons.IH[of w1]
  proof (elim disjE)
    assume "\<exists>w'. bcast_nodes put w1 ns ids m = Inr (None, w') \<and>
      sends_all w1 (deliveries ns ids (wire m)) w'"
    then show ?thesis using e s by (simp add: sends_all_append) blast
  next
    assume "\<exists>v w'. bcast_nodes put w1 ns ids m = Inr (Some v, w') \<and>
      broadcast_cut w1 ns ids (wire m) v w'"
    then obtain v w' where v: "bcast_nodes put w1 ns ids m = Inr (Some v, w')"
      "broadcast_cut w1 ns ids (wire m) v w'" by blast
    then obtain ns1 k ns2 w2 where "ns = ns1 @ k # ns2" "v = - nd_id k"
      "sends_all w1 (deliveries ns1 ids (wire m)) w2" "node_cut w2 k ids (wire m) w'"
      unfolding broadcast_cut_def by blast
    then have "broadcast_cut w (n # ns) ids (wire m) v w'"
      unfolding broadcast_cut_def using s
      by (intro exI[of _ "n # ns1"] exI[of _ k] exI[of _ ns2] exI[of _ w2])
        (simp add: sends_all_append; blast)
    then show ?thesis using e v(1) by metis
  next
    assume "bcast_nodes put w1 ns ids m = Inl Killed \<and>
      (\<exists>n \<in> set ns. addressed n ids \<and> \<not> quiet w1 (nd_connfd n))"
    then show ?thesis using e quiet_sends_all[OF s] by (metis list.set_intros(2))
  qed
  show ?case
  proof (cases "nd_connfd n < 0")
    case True
    then show ?thesis by (intro rest[of w]) (simp_all add: bcast_ids_closed node_deliveries_def)
  next
    case False
    then have "0 \<le> nd_connfd n" by simp
    with assms show ?thesis
    proof (cases rule: bcast_ids_outcome[where w = w and ids = ids])
      case (full w1)
      then show ?thesis using False
        by (intro rest[of w1]) (simp_all add: node_deliveries_def)
    next
      case (cut w1)
      have "broadcast_cut w (n # ns) ids (wire m) (- nd_id n) w1"
        unfolding broadcast_cut_def using cut(2)
        by (intro exI[of _ "[]"] exI[of _ n] exI[of _ ns] exI[of _ w]) simp
      then show ?thesis using cut(1) by simp
    next
      case dead
      then show ?thesis by simp
    qed
  qed
qed

text \<open>The first addressed node whose peer is gone ends the process, whatever comes after it.\<close>

lemma bcast_ids_dead:
  assumes "0 < id_count n ids" and "put w (nd_connfd n) m = Inl e"
  shows "bcast_ids put w n ids m = Inl e"
  using assms(1) by (induction ids) (use assms(2) in \<open>auto simp: id_count_def split: if_splits\<close>)

end

text \<open>When every addressed descriptor is ready, nothing is cut.\<close>

context reliable_sink
begin

lemma ready_sends_all: "sends_all w ds w' \<Longrightarrow> ready w fd \<Longrightarrow> ready w' fd"
proof (induction ds arbitrary: w)
  case (Cons d ds)
  obtain g b where d: "d = (g, b)" by fastforce
  then obtain w1 where "sends w g b w1" "sends_all w1 ds w'" using Cons.prems by auto
  then show ?case using Cons.IH[of w1] ready_stable[of w g b w1 fd] Cons.prems(2) by blast
qed simp

lemma bcast_ids_ready:
  assumes "valid m" and "0 \<le> nd_connfd n \<Longrightarrow> 0 < id_count n ids \<Longrightarrow> ready w (nd_connfd n)"
  shows "\<exists>w'. bcast_ids put w n ids m = Inr (None, w') \<and>
    sends_all w (node_deliveries ids (wire m) n) w'"
proof (cases "nd_connfd n < 0")
  case True
  then show ?thesis by (simp add: bcast_ids_closed node_deliveries_def)
next
  case False
  from assms(2) False show ?thesis
  proof (induction ids arbitrary: w)
    case Nil
    then show ?case by (simp add: node_deliveries_def id_count_def)
  next
    case (Cons b ids)
    show ?case
    proof (cases "uint b = nd_id n")
      case False
      then have c: "id_count n (b # ids) = id_count n ids" by (simp add: id_count_def)
      show ?thesis using Cons.IH[of w] Cons.prems False by (simp add: node_deliveries_def c)
    next
      case True
      then have c: "id_count n (b # ids) = Suc (id_count n ids)" by (simp add: id_count_def)
      then have "ready w (nd_connfd n)" using Cons.prems by simp
      then obtain r w1 where r: "put w (nd_connfd n) m = Inr (r, w1)" "0 \<le> r"
        using put_ready[OF assms(1), of "nd_connfd n" w] Cons.prems(2) by auto
      then have s: "sends w (nd_connfd n) (wire m) w1"
        using put_all[OF assms(1) _ r] Cons.prems(2) by simp
      obtain w' where "bcast_ids put w1 n ids m = Inr (None, w')"
        "sends_all w1 (node_deliveries ids (wire m) n) w'"
        using Cons.IH[of w1] ready_stable[OF s \<open>ready w _\<close>] Cons.prems(2) by blast
      then show ?thesis
        using True r s Cons.prems(2) by (simp add: node_deliveries_def c; blast)
    qed
  qed
qed

lemma bcast_nodes_ready:
  assumes "valid m"
    and "\<And>n. n \<in> set ns \<Longrightarrow> 0 \<le> nd_connfd n \<Longrightarrow> 0 < id_count n ids \<Longrightarrow> ready w (nd_connfd n)"
  shows "\<exists>w'. bcast_nodes put w ns ids m = Inr (None, w') \<and>
    sends_all w (deliveries ns ids (wire m)) w'"
  using assms(2)
proof (induction ns arbitrary: w)
  case Nil
  then show ?case by simp
next
  case (Cons n ns)
  obtain w1 where w1: "bcast_ids put w n ids m = Inr (None, w1)"
    "sends_all w (node_deliveries ids (wire m) n) w1"
    using bcast_ids_ready[OF assms(1), of n ids w] Cons.prems by auto
  obtain w' where w': "bcast_nodes put w1 ns ids m = Inr (None, w')"
    "sends_all w1 (deliveries ns ids (wire m)) w'"
    using Cons.IH[of w1] Cons.prems ready_sends_all[OF w1(2)] by fastforce
  show ?case using w1 w' by (auto simp: sends_all_append)
qed

end

section \<open>The message broadcast\_cmd forwards\<close>

text \<open>
  The subscribers get the message without the ids: the header with magic, type and count
  reset and \<open>bodylen\<close> reduced by the padded id field, then the payload.
\<close>

definition forwarded_head :: "PROTOCOL_CMD \<Rightarrow> PROTOCOL_CMD" where
  "forwarded_head h = h\<lparr>szMagic := PROTOCOL_MAGIC,
     bodylen := bodylen h - of_nat (broadcast_len (broadcast_num h)),
     cmdSendType := word_of_int IH_CMD_TYPE_SEND_PARALLEL, broadcast_num := 0\<rparr>"

definition ids_of :: "bytes \<Rightarrow> bytes" where
  "ids_of buf = take (unat (broadcast_num (head_of buf))) (drop 8 buf)"

definition payload_of :: "bytes \<Rightarrow> bytes" where
  "payload_of buf =
     (let brl = broadcast_len (broadcast_num (head_of buf)) in
      take (unat (bodylen (head_of buf)) - brl) (drop (8 + brl) buf))"

definition forwarded :: "bytes \<Rightarrow> bytes" where
  "forwarded buf = bytes_of_head (forwarded_head (head_of buf)) @ payload_of buf"

definition well_sized :: "bytes \<Rightarrow> bool" where
  "well_sized buf \<longleftrightarrow> 8 + unat (bodylen (head_of buf)) \<le> length buf \<and>
     broadcast_len (broadcast_num (head_of buf)) \<le> unat (bodylen (head_of buf))"

lemma unat_sub_u16: "n \<le> unat (b :: u16) \<Longrightarrow> unat (b - of_nat n) = unat b - n"
proof -
  assume n: "n \<le> unat b"
  then have "n < 65536" using unsigned_less[of b, where 'a = nat] by simp
  then have "unat (of_nat n :: u16) = n" by (simp add: unat_of_nat take_bit_eq_mod)
  then show ?thesis using n by (simp add: unat_sub word_le_nat_alt)
qed

text \<open>
  What \<open>broadcast_cmd\<close> makes of a well-sized message before it sends: the rewritten buffer, the
  ids it addresses and the frame its puts carry.
\<close>

lemma broadcast_cmd_prepare:
  assumes "8 \<le> length buf" and "8 + unat (broadcast_num (head_of buf)) \<le> length buf"
  shows "\<exists>b2. length b2 = length buf \<and> drop 8 b2 = drop 8 buf \<and>
    broadcast_cmd ns w buf =
      cbind (bcast_nodes put_cmd w ns (ids_of buf)
          (b2, drop (8 + broadcast_len (broadcast_num (head_of buf))) buf)) (\<lambda>(r, w').
        Inr (case r of None \<Rightarrow> 0 | Some v \<Rightarrow> v, w', b2)) \<and>
    head_of b2 = (if broadcast_len (broadcast_num (head_of buf)) \<le> unat (bodylen (head_of buf))
      then forwarded_head (head_of buf)
      else (forwarded_head (head_of buf))\<lparr>bodylen := bodylen (head_of buf)\<rparr>)"
proof -
  let ?h = "head_of buf" and ?brl = "broadcast_len (broadcast_num (head_of buf))"
  let ?len = "uint (bodylen ?h) - int ?brl"
  obtain b1 where b1: "set_broadcast_cmd_head buf ?len (-1) 0 = Inr b1" "length b1 = length buf"
    "drop 8 b1 = drop 8 buf"
    "head_of b1 = (pure_head_upd (?len + round4 0) 1 (-1) ?h)\<lparr>broadcast_num := word_of_int 0\<rparr>"
    using set_broadcast_cmd_head_upd[OF assms(1)] by blast
  let ?b2 = "b1[6 := 0]"
  have f: "set_pure_broadcast_field (Some b1) None 0 None = Inr (Some ?b2, None)"
    using assms(1) b1(2) by (simp add: set_pure_broadcast_field_def poke_def)
  have b2: "length ?b2 = length buf" "drop 8 ?b2 = drop 8 buf"
    "head_of ?b2 = (head_of b1)\<lparr>broadcast_num := 0\<rparr>"
    using b1 assms(1) by (simp_all add: head_of_num_upd)
  have sl: "slice ?b2 8 (unat (broadcast_num ?h)) = Inr (ids_of buf)"
    using assms(2) b2 by (simp add: slice_def ids_of_def)
  have r0: "round4 0 = 0" by (simp add: round4_def)
  have un: "uint (bodylen ?h) = int (unat (bodylen ?h))" by simp
  have h: "head_of ?b2 = (if ?brl \<le> unat (bodylen ?h) then forwarded_head ?h
      else (forwarded_head ?h)\<lparr>bodylen := bodylen ?h\<rparr>)"
  proof (cases "?brl \<le> unat (bodylen ?h)")
    case True
    then have "0 \<le> ?len" using un by linarith
    then show ?thesis
      using True b2(3) b1(4) r0
      by (simp add: pure_head_upd_def forwarded_head_def IH_CMD_TYPE_SEND_PARALLEL_def)
  next
    case False
    then have "?len < 0" using un by linarith
    then show ?thesis
      using False b2(3) b1(4) r0
      by (simp add: pure_head_upd_def forwarded_head_def IH_CMD_TYPE_SEND_PARALLEL_def)
  qed
  have "broadcast_cmd ns w buf =
      cbind (bcast_nodes put_cmd w ns (ids_of buf) (?b2, drop (8 + ?brl) buf)) (\<lambda>(r, w').
        Inr (case r of None \<Rightarrow> 0 | Some v \<Rightarrow> v, w', ?b2))"
    using assms(1) b1(1) f sl by (simp add: broadcast_cmd_def GET_head Let_def)
  then show ?thesis using b2(1,2) h by (intro exI[of _ ?b2]) simp
qed

lemma forwarded_frame:
  assumes "well_sized buf" and "8 \<le> length b2" and "head_of b2 = forwarded_head (head_of buf)"
  shows "frame b2 (drop (8 + broadcast_len (broadcast_num (head_of buf))) buf) = forwarded buf"
    and "cmd_valid (b2, drop (8 + broadcast_len (broadcast_num (head_of buf))) buf)"
  using assms bytes_of_head_of[OF assms(2)]
    unat_sub_u16[of "broadcast_len (broadcast_num (head_of buf))" "bodylen (head_of buf)"]
  by (simp_all add: frame_def forwarded_def payload_of_def forwarded_head_def well_sized_def
      cmd_valid_def Let_def, linarith)

lemma well_sized_num:
  "well_sized buf \<Longrightarrow> 8 + unat (broadcast_num (head_of buf)) \<le> length buf"
  using broadcast_len_bounds(1)[of "broadcast_num (head_of buf)"] by (simp add: well_sized_def)

lemma broadcast_cmd_outcome:
  assumes "well_sized buf"
  shows "(\<exists>r w' b2. broadcast_cmd ns w buf = Inr (r, w', b2) \<and>
      (r = 0 \<and> sends_all w (deliveries ns (ids_of buf) (forwarded buf)) w' \<or>
       broadcast_cut w ns (ids_of buf) (forwarded buf) r w')) \<or>
    (broadcast_cmd ns w buf = Inl Killed \<and>
      (\<exists>n \<in> set ns. addressed n (ids_of buf) \<and> \<not> pipe_ok w (nd_connfd n)))"
proof -
  have len: "8 \<le> length buf" using assms by (simp add: well_sized_def)
  let ?d = "drop (8 + broadcast_len (broadcast_num (head_of buf))) buf"
  obtain b2 where b2: "length b2 = length buf"
    "broadcast_cmd ns w buf =
      cbind (bcast_nodes put_cmd w ns (ids_of buf) (b2, ?d)) (\<lambda>(r, w').
        Inr (case r of None \<Rightarrow> 0 | Some v \<Rightarrow> v, w', b2))"
    "head_of b2 = forwarded_head (head_of buf)"
    using broadcast_cmd_prepare[OF len well_sized_num[OF assms], of ns w] assms
    by (auto simp: well_sized_def)
  have ok: "8 \<le> length b2" using b2(1) len by simp
  note fr = forwarded_frame[OF assms ok b2(3)]
  from cmd.bcast_nodes_outcome[OF fr(2), of w ns "ids_of buf"]
  show ?thesis
  proof (elim disjE exE conjE)
    fix w' assume "bcast_nodes put_cmd w ns (ids_of buf) (b2, ?d) = Inr (None, w')"
      "sends_all w (deliveries ns (ids_of buf) (frame (fst (b2, ?d)) (snd (b2, ?d)))) w'"
    then show ?thesis using b2(2) fr(1) by (intro disjI1 exI[of _ 0] exI[of _ w'] exI[of _ b2]) simp
  next
    fix v w' assume "bcast_nodes put_cmd w ns (ids_of buf) (b2, ?d) = Inr (Some v, w')"
      "broadcast_cut w ns (ids_of buf) (frame (fst (b2, ?d)) (snd (b2, ?d))) v w'"
    then show ?thesis using b2(2) fr(1) by (intro disjI1 exI[of _ v] exI[of _ w'] exI[of _ b2]) simp
  next
    assume "bcast_nodes put_cmd w ns (ids_of buf) (b2, ?d) = Inl Killed"
      "\<exists>n \<in> set ns. addressed n (ids_of buf) \<and> \<not> pipe_ok w (nd_connfd n)"
    then show ?thesis using b2(2) by simp
  qed
qed

lemma broadcast_cmd_ready:
  assumes "well_sized buf"
    and "\<And>n. n \<in> set ns \<Longrightarrow> 0 \<le> nd_connfd n \<Longrightarrow> 0 < id_count n (ids_of buf) \<Longrightarrow>
      fd_ready w (nd_connfd n)"
  shows "\<exists>w' b2. broadcast_cmd ns w buf = Inr (0, w', b2) \<and>
    sends_all w (deliveries ns (ids_of buf) (forwarded buf)) w'"
proof -
  have len: "8 \<le> length buf" using assms(1) by (simp add: well_sized_def)
  let ?d = "drop (8 + broadcast_len (broadcast_num (head_of buf))) buf"
  obtain b2 where b2: "length b2 = length buf"
    "broadcast_cmd ns w buf =
      cbind (bcast_nodes put_cmd w ns (ids_of buf) (b2, ?d)) (\<lambda>(r, w').
        Inr (case r of None \<Rightarrow> 0 | Some v \<Rightarrow> v, w', b2))"
    "head_of b2 = forwarded_head (head_of buf)"
    using broadcast_cmd_prepare[OF len well_sized_num[OF assms(1)], of ns w] assms(1)
    by (auto simp: well_sized_def)
  have ok: "8 \<le> length b2" using b2(1) len by simp
  note fr = forwarded_frame[OF assms(1) ok b2(3)]
  obtain w' where "bcast_nodes put_cmd w ns (ids_of buf) (b2, ?d) = Inr (None, w')"
    "sends_all w (deliveries ns (ids_of buf) (frame (fst (b2, ?d)) (snd (b2, ?d)))) w'"
    using rcmd.bcast_nodes_ready[OF fr(2), of ns "ids_of buf" w] assms(2) by blast
  then show ?thesis using b2(2) fr(1) by (intro exI[of _ w'] exI[of _ b2]) simp
qed

text \<open>
  A node that has never connected still has descriptor 0.  When it is addressed, and 0 is no
  socket, the broadcast ends there: nobody after it in the list gets the message.
\<close>

lemma put_cmd_no_socket:
  assumes "0 \<le> fd" and "w fd = None" and "8 \<le> length (fst m)"
  shows "put_cmd w fd m = Inr (-1, w)"
proof -
  have "length (take 8 (fst m)) = 8" using assms(3) by simp
  then have "send_loop w fd (take 8 (fst m)) 0 RETRIES = Inr (0, RETRIES - 1, w)"
    using assms(2) by (subst send_loop.simps) (simp add: sys_send_def)
  then show ?thesis
    using assms by (simp add: put_cmd_def tcp_send_protocol_cmd_def slice_def PROTOCOL_CMD_HEAD_LEN_def)
qed

lemma bcast_ids_none: "id_count n ids = 0 \<Longrightarrow> bcast_ids put w n ids m = Inr (None, w)"
  by (induction ids) (auto simp: id_count_def split: if_splits)

lemma bcast_ids_no_socket:
  assumes "0 < id_count n ids" and "0 \<le> nd_connfd n" and "w (nd_connfd n) = None" and "8 \<le> length (fst m)"
  shows "bcast_ids put_cmd w n ids m = Inr (Some (- nd_id n), w)"
  using assms(1)
proof (induction ids)
  case (Cons b ids)
  then show ?case using put_cmd_no_socket[of "nd_connfd n" w m] assms(2-4)
    by (auto simp: id_count_def split: if_splits)
qed (simp add: id_count_def)

lemma bcast_nodes_skip:
  "\<forall>n \<in> set ns1. id_count n ids = 0 \<Longrightarrow> bcast_nodes put w (ns1 @ ns) ids m = bcast_nodes put w ns ids m"
  by (induction ns1) (auto simp: bcast_ids_none)

lemma broadcast_cmd_no_socket:
  assumes "well_sized buf" and "\<forall>k \<in> set ns1. id_count k (ids_of buf) = 0"
    and "0 < id_count n (ids_of buf)" and "0 \<le> nd_connfd n" and "w (nd_connfd n) = None"
  shows "\<exists>b2. broadcast_cmd (ns1 @ n # ns2) w buf = Inr (- nd_id n, w, b2)"
proof -
  have len: "8 \<le> length buf" using assms(1) by (simp add: well_sized_def)
  obtain b2 where b2: "length b2 = length buf"
    "broadcast_cmd (ns1 @ n # ns2) w buf =
      cbind (bcast_nodes put_cmd w (ns1 @ n # ns2) (ids_of buf)
          (b2, drop (8 + broadcast_len (broadcast_num (head_of buf))) buf)) (\<lambda>(r, w').
        Inr (case r of None \<Rightarrow> 0 | Some v \<Rightarrow> v, w', b2))"
    using broadcast_cmd_prepare[OF len well_sized_num[OF assms(1)], of "ns1 @ n # ns2" w] by blast
  then show ?thesis
    using bcast_ids_no_socket[of n "ids_of buf" w] assms(3-5) len
    by (simp add: bcast_nodes_skip[OF assms(2)])
qed

text \<open>The first addressed node's peer is gone: SIGPIPE, on the header.\<close>

lemma put_cmd_gone:
  assumes "cmd_valid m" and "0 \<le> fd" and "w fd = Some s" and "sched s = Gone # r"
  shows "put_cmd w fd m = Inl Killed"
proof -
  have "take 8 (fst m) \<noteq> []" "slice (fst m) 0 PROTOCOL_CMD_HEAD_LEN = Inr (take 8 (fst m))"
    using assms(1) by (auto simp: cmd_valid_def slice_def PROTOCOL_CMD_HEAD_LEN_def)
  moreover have "send_loop w fd (take 8 (fst m)) 0 RETRIES = Inl Killed"
    using assms calculation(1) by (subst send_loop.simps) (simp add: sys_send_def)
  ultimately show ?thesis using assms(2) by (simp add: put_cmd_def tcp_send_protocol_cmd_def)
qed

lemma broadcast_cmd_gone:
  assumes "well_sized buf" and "\<forall>k \<in> set ns1. id_count k (ids_of buf) = 0"
    and "addressed n (ids_of buf)" and "w (nd_connfd n) = Some s" and "sched s = Gone # r"
  shows "broadcast_cmd (ns1 @ n # ns2) w buf = Inl Killed"
proof -
  have len: "8 \<le> length buf" using assms(1) by (simp add: well_sized_def)
  let ?d = "drop (8 + broadcast_len (broadcast_num (head_of buf))) buf"
  obtain b2 where b2: "length b2 = length buf"
    "broadcast_cmd (ns1 @ n # ns2) w buf =
      cbind (bcast_nodes put_cmd w (ns1 @ n # ns2) (ids_of buf) (b2, ?d)) (\<lambda>(r, w').
        Inr (case r of None \<Rightarrow> 0 | Some v \<Rightarrow> v, w', b2))"
    "head_of b2 = forwarded_head (head_of buf)"
    using broadcast_cmd_prepare[OF len well_sized_num[OF assms(1)], of "ns1 @ n # ns2" w] assms(1)
    by (auto simp: well_sized_def)
  have valid: "cmd_valid (b2, ?d)" by (rule forwarded_frame(2)[OF assms(1) _ b2(3)]) (use b2(1) len in simp)
  have n: "0 \<le> nd_connfd n" "0 < id_count n (ids_of buf)" using assms(3) by (simp_all add: addressed_def)
  have "bcast_ids put_cmd w n (ids_of buf) (b2, ?d) = Inl Killed"
    by (rule cmd.bcast_ids_dead[OF n(2)]) (rule put_cmd_gone[where w = w and s = s, OF valid n(1) assms(4,5)])
  then show ?thesis unfolding b2(2) by (simp add: bcast_nodes_skip[OF assms(2)])
qed

text \<open>
  A message whose \<open>bodylen\<close> does not even cover its id field is forwarded with that length
  unchanged, so each addressed node gets that many bytes from behind the message.
\<close>

definition stale_frame :: "bytes \<Rightarrow> bytes" where
  "stale_frame buf =
     bytes_of_head ((forwarded_head (head_of buf))\<lparr>bodylen := bodylen (head_of buf)\<rparr>) @
     take (unat (bodylen (head_of buf))) (drop (8 + broadcast_len (broadcast_num (head_of buf))) buf)"

lemma broadcast_cmd_short:
  assumes "length buf = MAX_CMD_LEN"
    and "unat (bodylen (head_of buf)) < broadcast_len (broadcast_num (head_of buf))"
    and "\<And>n. n \<in> set ns \<Longrightarrow> 0 \<le> nd_connfd n \<Longrightarrow> 0 < id_count n (ids_of buf) \<Longrightarrow>
      fd_ready w (nd_connfd n)"
  shows "\<exists>w' b2. broadcast_cmd ns w buf = Inr (0, w', b2) \<and>
    sends_all w (deliveries ns (ids_of buf) (stale_frame buf)) w'"
proof -
  note bnds = broadcast_len_bounds[of "broadcast_num (head_of buf)"]
  have len: "8 \<le> length buf" "8 + unat (broadcast_num (head_of buf)) \<le> length buf"
    using assms(1) bnds by (simp_all add: MAX_CMD_LEN_def)
  let ?d = "drop (8 + broadcast_len (broadcast_num (head_of buf))) buf"
  obtain b2 where b2: "length b2 = length buf"
    "broadcast_cmd ns w buf =
      cbind (bcast_nodes put_cmd w ns (ids_of buf) (b2, ?d)) (\<lambda>(r, w').
        Inr (case r of None \<Rightarrow> 0 | Some v \<Rightarrow> v, w', b2))"
    "head_of b2 = (forwarded_head (head_of buf))\<lparr>bodylen := bodylen (head_of buf)\<rparr>"
    using broadcast_cmd_prepare[OF len, of ns w] assms(2) by auto
  have "8 \<le> length b2" using b2(1) len(1) by simp
  then have fr: "frame b2 ?d = stale_frame buf" using b2(3) bytes_of_head_of[of b2]
    by (simp add: frame_def stale_frame_def)
  have ok: "cmd_valid (b2, ?d)"
    using assms(1,2) b2(1,3) bnds by (simp add: cmd_valid_def MAX_CMD_LEN_def)
  obtain w' where "bcast_nodes put_cmd w ns (ids_of buf) (b2, ?d) = Inr (None, w')"
    "sends_all w (deliveries ns (ids_of buf) (frame (fst (b2, ?d)) (snd (b2, ?d)))) w'"
    using rcmd.bcast_nodes_ready[OF ok, of ns "ids_of buf" w] assms(3) by blast
  then show ?thesis using b2(2) fr by (intro exI[of _ w'] exI[of _ b2]) simp
qed

section \<open>Sending never touches what is to be received\<close>

definition same_in :: "net \<Rightarrow> net \<Rightarrow> bool" where
  "same_in w w' \<longleftrightarrow> (\<forall>g. map_option incoming (w' g) = map_option incoming (w g)) \<and>
     (\<forall>g. pipe_ok w g \<longrightarrow> pipe_ok w' g)"

definition no_sigpipe :: "net \<Rightarrow> bool" where
  "no_sigpipe w \<longleftrightarrow> (\<forall>fd. pipe_ok w fd)"

lemma same_in_quiet: "same_in w w' \<Longrightarrow> no_sigpipe w \<Longrightarrow> no_sigpipe w'"
  by (simp add: same_in_def no_sigpipe_def)

lemma same_in_open: "same_in w w' \<Longrightarrow> (w' g = None) = (w g = None)"
  unfolding same_in_def by (metis map_option_is_None)

lemma same_in_refl: "same_in w w"
  by (simp add: same_in_def)

lemma same_in_trans: "same_in w w1 \<Longrightarrow> same_in w1 w2 \<Longrightarrow> same_in w w2"
  by (simp add: same_in_def)

lemma sends_same_in: "sends w fd bs w' \<Longrightarrow> same_in w w'"
  unfolding same_in_def
proof (intro conjI allI)
  fix g assume "sends w fd bs w'"
  then show "map_option incoming (w' g) = map_option incoming (w g)"
    by (cases "g = fd") (auto simp: sends_def split: option.splits)
qed (blast intro: pipe_ok_sends)

lemma sends_all_same_in: "sends_all w ds w' \<Longrightarrow> same_in w w'"
proof (induction ds arbitrary: w)
  case Nil
  then show ?case by (simp add: same_in_refl)
next
  case (Cons d ds)
  obtain g b where d: "d = (g, b)" by fastforce
  then obtain w1 where "sends w g b w1" "sends_all w1 ds w'" using Cons.prems by auto
  then show ?case using Cons.IH[of w1] sends_same_in same_in_trans by blast
qed

lemma broadcast_cut_same_in: "broadcast_cut w ns ids msg v w' \<Longrightarrow> same_in w w'"
  unfolding broadcast_cut_def node_cut_def using sends_all_same_in same_in_trans by blast

lemma put_cmd_total:
  assumes "cmd_valid m" and "no_sigpipe w"
  shows "\<exists>r w'. put_cmd w fd m = Inr (r, w') \<and> same_in w w'"
proof (cases "fd < 0")
  case True
  then show ?thesis by (simp add: cmd.put_closed same_in_refl)
next
  case False
  then have "0 \<le> fd" by simp
  with assms(1) show ?thesis
  proof (cases rule: cmd.put_cases[where w = w])
    case dead
    then show ?thesis using assms(2) by (simp add: no_sigpipe_def)
  qed (auto dest: sends_same_in)
qed

lemma bcast_total:
  assumes "cmd_valid m" and "no_sigpipe w"
  shows "\<exists>r w'. bcast_nodes put_cmd w ns ids m = Inr (r, w') \<and> same_in w w'"
  using cmd.bcast_nodes_outcome[OF assms(1), of w ns ids] sends_all_same_in broadcast_cut_same_in
    assms(2)[unfolded no_sigpipe_def] by blast

text \<open>
  On the broker's receive buffer \<open>broadcast_cmd\<close> never faults while no peer is gone, even when \<open>bodylen\<close> is
  smaller than the id field it should contain.
\<close>

lemma broadcast_cmd_total:
  assumes "length buf = MAX_CMD_LEN" and "unat (bodylen (head_of buf)) \<le> 4088" and "no_sigpipe w"
  shows "\<exists>r w' b2. broadcast_cmd ns w buf = Inr (r, w', b2) \<and> same_in w w'"
proof -
  let ?bl = "unat (bodylen (head_of buf))" and ?brl = "broadcast_len (broadcast_num (head_of buf))"
  note bnds = broadcast_len_bounds[of "broadcast_num (head_of buf)"]
  have len: "8 \<le> length buf" "8 + unat (broadcast_num (head_of buf)) \<le> length buf"
    using assms(1) bnds by (simp_all add: MAX_CMD_LEN_def)
  obtain b2 where b2: "length b2 = length buf"
    "broadcast_cmd ns w buf = cbind (bcast_nodes put_cmd w ns (ids_of buf) (b2, drop (8 + ?brl) buf))
      (\<lambda>(r, w'). Inr (case r of None \<Rightarrow> 0 | Some v \<Rightarrow> v, w', b2))"
    "head_of b2 = (if ?brl \<le> ?bl then forwarded_head (head_of buf)
      else (forwarded_head (head_of buf))\<lparr>bodylen := bodylen (head_of buf)\<rparr>)"
    using broadcast_cmd_prepare[OF len] by blast
  have "unat (bodylen (head_of b2)) \<le> 4088 - ?brl"
  proof (cases "?brl \<le> ?bl")
    case True
    then have "unat (bodylen (head_of b2)) = ?bl - ?brl"
      using b2(3) unat_sub_u16[OF True] by (simp add: forwarded_head_def)
    then show ?thesis using assms(2) by simp
  next
    case False
    then show ?thesis using b2(3) bnds by simp
  qed
  then have "cmd_valid (b2, drop (8 + ?brl) buf)"
    using assms(1) b2(1) by (simp add: cmd_valid_def MAX_CMD_LEN_def)
  from bcast_total[OF this assms(3), of ns "ids_of buf"] show ?thesis using b2(2) by auto
qed

text \<open>The table the broker answers with: well-formed entries, as many as the count says.\<close>

definition shm_ok :: "pub_sub_node_t \<Rightarrow> bool" where
  "shm_ok n \<longleftrightarrow> (case nd_shm_node_ptr n of None \<Rightarrow> True
     | Some ss \<Rightarrow> list_all shm_node_ok ss \<and> nd_shm_node_num n = int (length ss))"

lemma word_of_int_u16_le: "0 \<le> i \<Longrightarrow> unat (word_of_int i :: u16) \<le> nat i"
proof -
  assume "0 \<le> i"
  have "uint (word_of_int i :: u16) = i mod 65536" by (simp add: uint_word_of_int)
  also have "\<dots> \<le> i" using \<open>0 \<le> i\<close> by (simp add: zmod_le_nonneg_dividend)
  finally show ?thesis by (simp add: le_nat_iff \<open>0 \<le> i\<close>)
qed

text \<open>The two answers of \<open>parser_reserve_cmd\<close>, the table and the number of its entries, are sent or cut.\<close>

lemma reserve_info_total:
  assumes ok: "shm_ok n" and len: "8 \<le> length cmd"
    and info: "uint (cmdid (head_of cmd)) = IH_RESERVE_CMD_ID_GET_SHM_INFO" and quiet: "no_sigpipe w"
  shows "\<exists>r w'. parser_reserve_cmd n fd w cmd = Inr (r, w') \<and> same_in w w'"
proof -
  let ?buf = "replicate 2000 (0 :: u8)" and ?bl = "int SHM_NODE_SIZE * nd_shm_node_num n"
  obtain b where b: "set_pure_protocol_head ?buf ?bl 0 IH_RESERVE_CMD_ID_GET_SHM_INFO = Inr b"
    "length b = 2000"
    "head_of b = pure_head_upd ?bl 0 IH_RESERVE_CMD_ID_GET_SHM_INFO (head_of ?buf)"
    using set_pure_protocol_head_upd[of ?buf ?bl 0 IH_RESERVE_CMD_ID_GET_SHM_INFO]
    unfolding length_replicate by auto
  have step: "parser_reserve_cmd n fd w cmd =
      tcp_send_protocol_cmd w fd (Some b) (map_option shm_table_bytes (nd_shm_node_ptr n))"
    using info len b(1) by (simp add: parser_reserve_cmd_def GET_head)
  show ?thesis
  proof (cases "nd_shm_node_ptr n")
    case None
    then show ?thesis using step by (simp add: tcp_send_closed same_in_refl)
  next
    case (Some ss)
    then have ss: "list_all shm_node_ok ss" "nd_shm_node_num n = int (length ss)"
      using ok by (simp_all add: shm_ok_def)
    have "unat (bodylen (head_of b)) \<le> 40 * length ss"
      using b(3) ss(2) word_of_int_u16_le[of ?bl]
      by (simp add: pure_head_upd_def SHM_NODE_SIZE_def cmd_consts)
    then have "cmd_valid (b, shm_table_bytes ss)"
      using b(2) length_shm_table_bytes[OF ss(1)] by (simp add: cmd_valid_def)
    from put_cmd_total[OF this quiet, of fd] show ?thesis using step Some by (simp add: put_cmd_def)
  qed
qed

lemma reserve_num_total:
  assumes len: "8 \<le> length cmd" and num: "uint (cmdid (head_of cmd)) = IH_RESERVE_CMD_ID_GET_SHM_NUM"
    and quiet: "no_sigpipe w"
  shows "\<exists>r w'. parser_reserve_cmd n fd w cmd = Inr (r, w') \<and> same_in w w'"
proof -
  let ?buf = "replicate 2000 (0 :: u8)"
  obtain b where b: "set_pure_protocol_head ?buf 1 0 IH_RESERVE_CMD_ID_GET_SHM_NUM = Inr b"
    "length b = 2000"
    "head_of b = pure_head_upd 1 0 IH_RESERVE_CMD_ID_GET_SHM_NUM (head_of ?buf)"
    using set_pure_protocol_head_upd[of ?buf 1 0 IH_RESERVE_CMD_ID_GET_SHM_NUM]
    unfolding length_replicate by auto
  let ?b' = "b[8 := word_of_int (nd_shm_node_num n)]"
  have "head_of ?b' = head_of b" by (simp add: head_of_def)
  then have "cmd_valid (?b', drop 8 ?b')"
    using b(2,3) by (simp add: cmd_valid_def pure_head_upd_def cmd_consts)
  from put_cmd_total[OF this quiet, of fd] show ?thesis
    using num len b(1,2)
    by (simp add: parser_reserve_cmd_def GET_head cmd_consts poke_def put_cmd_def
        PROTOCOL_CMD_HEAD_LEN_def)
qed

lemma parser_reserve_cmd_total:
  assumes "shm_ok n" and "8 \<le> length cmd" and "no_sigpipe w"
  shows "\<exists>r w'. parser_reserve_cmd n fd w cmd = Inr (r, w') \<and> same_in w w'"
proof -
  consider (info) "uint (cmdid (head_of cmd)) = IH_RESERVE_CMD_ID_GET_SHM_INFO"
    | (num) "uint (cmdid (head_of cmd)) = IH_RESERVE_CMD_ID_GET_SHM_NUM"
    | (other) "uint (cmdid (head_of cmd)) \<noteq> IH_RESERVE_CMD_ID_GET_SHM_INFO"
      "uint (cmdid (head_of cmd)) \<noteq> IH_RESERVE_CMD_ID_GET_SHM_NUM" by blast
  then show ?thesis
  proof cases
    case info
    then show ?thesis using reserve_info_total assms by blast
  next
    case num
    then show ?thesis using reserve_num_total assms(2,3) by blast
  next
    case other
    then show ?thesis using assms(2) by (simp add: parser_reserve_cmd_def GET_head same_in_refl)
  qed
qed

section \<open>The invariant of the event loop\<close>

text \<open>
  Names are distinct C strings, every positive descriptor belongs to one node only and is an
  open socket (not the listening one) whose pending input fits the receive buffer message by
  message, the shared-memory table matches its count, all descriptors fit an fd\_set, and no peer
  of an open socket is gone.
\<close>

definition names_ok :: "pub_sub_node_t list \<Rightarrow> bool" where
  "names_ok ns \<longleftrightarrow> distinct (map nd_name ns) \<and> (\<forall>n \<in> set ns. 0 \<notin> set (nd_name n))"

definition own_fds :: "pub_sub_node_t list \<Rightarrow> bool" where
  "own_fds ns \<longleftrightarrow> (\<forall>i < length ns. \<forall>j < length ns.
     0 < nd_connfd (ns ! i) \<and> nd_connfd (ns ! i) = nd_connfd (ns ! j) \<longrightarrow> i = j)"

definition open_fds :: "int \<Rightarrow> pub_sub_node_t list \<Rightarrow> net \<Rightarrow> bool" where
  "open_fds sockfd ns w \<longleftrightarrow> (\<forall>n \<in> set ns. 0 < nd_connfd n \<longrightarrow>
     nd_connfd n \<noteq> sockfd \<and> (\<exists>s. w (nd_connfd n) = Some s \<and> framed 4088 (incoming s)))"

definition fds_bounded :: "broker \<Rightarrow> bool" where
  "fds_bounded b \<longleftrightarrow> 0 < br_sockfd b \<and> br_sockfd b < FD_SETSIZE \<and> br_max_conn_fd b < FD_SETSIZE \<and>
     (\<forall>n \<in> set (br_nodes b). nd_connfd n < FD_SETSIZE)"

definition broker_inv :: "broker \<Rightarrow> bool" where
  "broker_inv b \<longleftrightarrow> names_ok (br_nodes b) \<and> own_fds (br_nodes b) \<and>
     open_fds (br_sockfd b) (br_nodes b) (br_net b) \<and> shm_ok (br_start b) \<and> fds_bounded b \<and>
     no_sigpipe (br_net b)"

text \<open>
  What the safety of a turn rests on, in three parts.  \<open>accept_ok\<close> is what accept(2) and unix(7)
  document: accept fails or returns a descriptor that was not in use (0, standard input, is), and
  reports an address with at least its family.  \<open>below_fd_setsize\<close>: the new descriptor fits an
  fd\_set; a limit RLIMIT\_NOFILE of at most 1024, the usual one, gives that.  \<open>client_behaves\<close> is
  about the client and holds of no client by itself: its path leaves room in \<open>sun_path\<close>, all its
  input, now and later, consists of messages of at most 4088 bytes, and it is not gone while the
  broker sends to it.
\<close>

definition accept_ok :: "broker \<Rightarrow> sel \<Rightarrow> bool" where
  "accept_ok b ev \<longleftrightarrow> (case ev of SelReady ready env sk \<Rightarrow>
       length (acc_path env) = SUN_PATH_SIZE \<and> 2 \<le> acc_len env \<and>
       (acc_fd env < 0 \<or>
        0 < acc_fd env \<and> br_net b (acc_fd env) = None \<and> acc_fd env \<noteq> br_sockfd b)
     | _ \<Rightarrow> True)"

definition below_fd_setsize :: "sel \<Rightarrow> bool" where
  "below_fd_setsize ev \<longleftrightarrow> (case ev of SelReady ready env sk \<Rightarrow> acc_fd env < FD_SETSIZE | _ \<Rightarrow> True)"

definition client_behaves :: "sel \<Rightarrow> bool" where
  "client_behaves ev \<longleftrightarrow> (case ev of SelReady ready env sk \<Rightarrow>
       acc_len env \<le> SOCKADDR_UN_SIZE \<and> framed 4088 (incoming sk) \<and> Gone \<notin> set (sched sk)
     | _ \<Rightarrow> True)"

text \<open>
  A positive descriptor is leaked when it is open and no node has it: nothing will read from it or
  close it.
\<close>

definition leaked :: "int \<Rightarrow> broker \<Rightarrow> bool" where
  "leaked g b \<longleftrightarrow> 0 < g \<and> br_net b g \<noteq> None \<and> (\<forall>n \<in> set (br_nodes b). nd_connfd n \<noteq> g)"

definition node_id_part :: "pub_sub_node_t \<Rightarrow> pub_sub_node_t" where
  "node_id_part n = n\<lparr>nd_connfd := 0\<rparr>"

text \<open>What no turn of the loop changes: everything in the nodes but the descriptors.\<close>

definition br_static :: "broker \<Rightarrow> pub_sub_node_t \<times> pub_sub_node_t list \<times> int" where
  "br_static b = (br_start b, map node_id_part (br_nodes b), br_sockfd b)"

text \<open>
  What is proved of every piece of a turn, from the state \<open>b\<close> to \<open>b'\<close>: the invariant holds, the
  configuration is the same, and what was leaked is leaked still.
\<close>

definition kept :: "broker \<Rightarrow> broker \<Rightarrow> bool" where
  "kept b b' \<longleftrightarrow> broker_inv b' \<and> br_static b' = br_static b \<and> (\<forall>g. leaked g b \<longrightarrow> leaked g b')"

lemma kept_trans: "kept b b1 \<Longrightarrow> kept b1 b2 \<Longrightarrow> kept b b2"
  by (simp add: kept_def)

lemma names_ok_static:
  "map node_id_part ns' = map node_id_part ns \<Longrightarrow> names_ok ns \<Longrightarrow> names_ok ns'"
proof -
  assume eq: "map node_id_part ns' = map node_id_part ns" and ok: "names_ok ns"
  have "nd_name n = nd_name (node_id_part n)" for n by (simp add: node_id_part_def)
  then have nm: "map nd_name ms = map nd_name (map node_id_part ms)" for ms by simp
  have "map nd_name ns' = map nd_name ns" using eq nm by metis
  moreover have "(\<forall>n \<in> set ms. 0 \<notin> set (nd_name n)) \<longleftrightarrow> (\<forall>x \<in> set (map nd_name ms). 0 \<notin> set x)"
    for ms by simp
  ultimately show ?thesis using ok unfolding names_ok_def by metis
qed

lemma br_static_nodes_length: "br_static b' = br_static b \<Longrightarrow> length (br_nodes b') = length (br_nodes b)"
  unfolding br_static_def by (metis length_map prod.inject)

lemma open_fds_same_in:
  assumes "same_in w w'" and "open_fds sfd ns w"
  shows "open_fds sfd ns w'"
  unfolding open_fds_def
proof (intro ballI impI)
  fix n assume n: "n \<in> set ns" "0 < nd_connfd n"
  then obtain s where "nd_connfd n \<noteq> sfd" "w (nd_connfd n) = Some s" "framed 4088 (incoming s)"
    using assms(2) by (auto simp: open_fds_def)
  moreover have "map_option incoming (w' (nd_connfd n)) = map_option incoming (w (nd_connfd n))"
    using assms(1) by (simp add: same_in_def)
  ultimately show "nd_connfd n \<noteq> sfd \<and> (\<exists>s. w' (nd_connfd n) = Some s \<and> framed 4088 (incoming s))"
    by (cases "w' (nd_connfd n)") auto
qed

lemma close_node_static: "i < length (br_nodes b) \<Longrightarrow> br_static (close_node i b) = br_static b"
  by (auto simp: br_static_def close_node_def node_id_part_def nth_list_update
      intro!: nth_equalityI)

lemma close_node_leaked:
  "i < length (br_nodes b) \<Longrightarrow> leaked g b \<Longrightarrow> leaked g (close_node i b)"
  by (auto simp: leaked_def close_node_def close_fd_def dest!: subsetD[OF set_update_subset_insert])

lemma close_node_inv:
  assumes "broker_inv b" and "i < length (br_nodes b)"
  shows "broker_inv (close_node i b)"
proof -
  let ?ns = "br_nodes b" and ?fd = "nd_connfd (br_nodes b ! i)"
  let ?ns' = "?ns[i := (?ns ! i)\<lparr>nd_connfd := -1\<rparr>]"
  have inv: "names_ok ?ns" "own_fds ?ns" "open_fds (br_sockfd b) ?ns (br_net b)" "shm_ok (br_start b)"
    "fds_bounded b" "no_sigpipe (br_net b)"
    using assms(1) by (simp_all add: broker_inv_def)
  have "map node_id_part ?ns' = map node_id_part ?ns"
    using close_node_static[OF assms(2)] by (simp add: br_static_def close_node_def)
  then have "names_ok ?ns'" using inv(1) names_ok_static by blast
  moreover have "own_fds ?ns'"
    using inv(2) assms(2) by (auto simp: own_fds_def nth_list_update)
  moreover have "open_fds (br_sockfd b) ?ns' (close_fd ?fd (br_net b))"
    unfolding open_fds_def
  proof (intro ballI impI)
    fix n assume "n \<in> set ?ns'" and pos: "0 < nd_connfd n"
    then obtain j where j: "j < length ?ns" "n = ?ns' ! j" by (auto simp: in_set_conv_nth)
    then have ne: "j \<noteq> i" "n = ?ns ! j" using pos assms(2) by (auto simp: nth_list_update split: if_splits)
    then have "nd_connfd n \<noteq> ?fd" using inv(2) j(1) assms(2) pos by (auto simp: own_fds_def)
    moreover have "n \<in> set ?ns" using ne j(1) by simp
    ultimately show "nd_connfd n \<noteq> br_sockfd b \<and>
        (\<exists>s. close_fd ?fd (br_net b) (nd_connfd n) = Some s \<and> framed 4088 (incoming s))"
      using inv(3) pos by (auto simp: open_fds_def close_fd_def)
  qed
  moreover have "fds_bounded (close_node i b)"
    using inv(5) by (auto simp: fds_bounded_def close_node_def FD_SETSIZE_def
        dest!: subsetD[OF set_update_subset_insert])
  moreover have "no_sigpipe (close_fd ?fd (br_net b))"
    using inv(6) by (auto simp: no_sigpipe_def pipe_ok_def close_fd_def)
  ultimately show ?thesis using inv(4) by (simp add: broker_inv_def close_node_def)
qed

lemma close_node_kept:
  "broker_inv b \<Longrightarrow> i < length (br_nodes b) \<Longrightarrow> kept b (close_node i b)"
  using close_node_inv close_node_static close_node_leaked by (simp add: kept_def)

lemma kept_link_count: "kept b b1 \<Longrightarrow> kept b (b1\<lparr>br_link_count := x\<rparr>)"
proof -
  let ?b = "b1\<lparr>br_link_count := x\<rparr>"
  have "broker_inv ?b = broker_inv b1" by (simp add: broker_inv_def fds_bounded_def)
  moreover have "br_static ?b = br_static b1" by (simp add: br_static_def)
  moreover have "leaked g ?b = leaked g b1" for g by (simp add: leaked_def)
  ultimately show "kept b b1 \<Longrightarrow> kept b ?b" by (simp add: kept_def)
qed

lemma remove_node_kept:
  "broker_inv b \<Longrightarrow> i < length (br_nodes b) \<Longrightarrow> kept b (remove_node i b)"
  unfolding remove_node_def by (intro kept_link_count close_node_kept)

text \<open>The descriptors handed to select, and the bound: none of them is cut off by it.\<close>

lemma fold_max_bounds:
  fixes m :: int
  shows "m \<le> fold max xs m" and "x \<in> set xs \<Longrightarrow> x \<le> fold max xs m"
    and "m < c \<Longrightarrow> \<forall>x \<in> set xs. x < c \<Longrightarrow> fold max xs m < c"
proof (induction xs arbitrary: m)
  case (Cons a xs)
  { case 1 show ?case using Cons.IH(1)[of "max a m"] by simp }
  { case 2 then show ?case using Cons.IH(1)[of "max a m"] Cons.IH(2)[of "max a m"] by auto }
  { case 3 then show ?case using Cons.IH(3)[of "max a m"] by simp }
qed simp_all

lemma watch_nodes_eq:
  "watch_nodes ns rset mx =
     (if \<forall>n \<in> set ns. nd_connfd n < FD_SETSIZE
      then Inr (rev (filter (\<lambda>fd. 0 < fd) (map nd_connfd ns)) @ rset, fold max (map nd_connfd ns) mx)
      else Inl OOB)"
proof (induction ns arbitrary: rset mx)
  case (Cons n ns)
  consider "nd_connfd n \<le> 0" | "0 < nd_connfd n" "nd_connfd n < FD_SETSIZE" | "FD_SETSIZE \<le> nd_connfd n" by linarith
  then show ?case by cases (auto simp: Cons.IH FD_SET_def FD_SETSIZE_def)
qed simp

text \<open>
  One turn with every descriptor in range, freed of the arithmetic of descriptor sets.  \<open>seen\<close> is the
  state with the new \<open>max_conn_fd\<close>.
\<close>

definition seen :: "broker \<Rightarrow> broker" where
  "seen b = b\<lparr>br_max_conn_fd := fold max (map nd_connfd (br_nodes b)) (br_max_conn_fd b)\<rparr>"

definition watched :: "broker \<Rightarrow> int list" where
  "watched b = rev (filter (\<lambda>fd. 0 < fd) (map nd_connfd (br_nodes b))) @ [br_sockfd b]"

lemma main_step_bounded:
  assumes "fds_bounded b"
  shows "main_step ev b =
    (case ev of
       SelTimeout \<Rightarrow> Inr (True, seen b)
     | SelError \<Rightarrow> Inr (False, seen b)
     | SelReady ready env sk \<Rightarrow>
         if br_sockfd b \<in> set ready then cbind (accept_client env sk (seen b)) (\<lambda>b1. Inr (True, b1))
         else cbind (serve_all [0..<length (br_nodes b)]
             (filter (\<lambda>fd. fd \<in> set ready) (watched b)) (seen b)) (\<lambda>b1. Inr (True, b1)))"
proof -
  let ?mx = "fold max (map nd_connfd (br_nodes b)) (br_max_conn_fd b)"
  have fs: "0 < br_sockfd b" "br_sockfd b < FD_SETSIZE" "\<forall>n \<in> set (br_nodes b). nd_connfd n < FD_SETSIZE"
    "br_max_conn_fd b < FD_SETSIZE"
    using assms by (simp_all add: fds_bounded_def)
  have w: "watch_nodes (br_nodes b) [br_sockfd b] (br_max_conn_fd b) = Inr (watched b, ?mx)"
    using fs(3) by (simp add: watch_nodes_eq watched_def)
  have "?mx < FD_SETSIZE" using fs(3,4) by (intro fold_max_bounds(3)) auto
  then have mx: "\<not> max (br_sockfd b) ?mx + 1 > FD_SETSIZE" using fs(2) by simp
  have "fd < max (br_sockfd b) ?mx + 1" if "fd \<in> set (watched b)" for fd
    using that fold_max_bounds(2)[of fd "map nd_connfd (br_nodes b)" "br_max_conn_fd b"]
    by (fastforce simp: watched_def)
  then have sel: "select_set (max (br_sockfd b) ?mx + 1) (watched b) ready =
      filter (\<lambda>fd. fd \<in> set ready) (watched b)" for ready
    by (auto simp: select_set_def intro: filter_cong)
  have set0: "FD_ISSET (br_sockfd b) (filter (\<lambda>fd. fd \<in> set ready) (watched b)) =
      Inr (br_sockfd b \<in> set ready)" for ready
    using fs(1,2) by (simp add: FD_ISSET_def watched_def)
  show ?thesis
    using fs(1,2) w mx sel set0 by (simp add: main_step_def FD_SET_def seen_def Let_def split: sel.split)
qed

lemma seen_kept: "broker_inv b \<Longrightarrow> kept b (seen b)"
  using fold_max_bounds(3)[of "br_max_conn_fd b" FD_SETSIZE "map nd_connfd (br_nodes b)"]
  by (auto simp: kept_def seen_def broker_inv_def br_static_def leaked_def fds_bounded_def)

text \<open>
  What \<open>serve_node\<close> does with a message once it is read into \<open>buf\<close>.  Whichever type the message
  has, the invariant is kept.
\<close>

definition dispatch_cmd :: "broker \<Rightarrow> int \<Rightarrow> bytes \<Rightarrow> broker cres" where
  "dispatch_cmd b fd buf =
     (if uint (cmdSendType (head_of buf)) = IH_CMD_TYPE_SEND_RESERVE then
        cbind (parser_reserve_cmd (br_start b) fd (br_net b) buf) (\<lambda>(_, w2). Inr (b\<lparr>br_net := w2\<rparr>))
      else if uint (cmdSendType (head_of buf)) = IH_CMD_TYPE_SEND_SERIAL then Inr b
      else cbind (broadcast_cmd (br_nodes b) (br_net b) buf) (\<lambda>(ret2, w2, _).
        let b2 = b\<lparr>br_net := w2\<rparr> in
        Inr (if ret2 < 0 then
              (case find_node_by_id (br_nodes b2) (- ret2) of
                 Some j \<Rightarrow> close_node j b2
               | None \<Rightarrow> b2)
            else b2)))"

text \<open>A change of the sockets that sending makes keeps everything.\<close>

lemma same_in_kept:
  assumes "broker_inv b" and "same_in (br_net b) w"
  shows "kept b (b\<lparr>br_net := w\<rparr>)"
proof -
  have "leaked g (b\<lparr>br_net := w\<rparr>)" if "leaked g b" for g
    using that same_in_open[OF assms(2), of g] by (simp add: leaked_def)
  moreover have "broker_inv (b\<lparr>br_net := w\<rparr>)"
    using assms(1) open_fds_same_in[OF assms(2)] same_in_quiet[OF assms(2)]
    by (simp add: broker_inv_def fds_bounded_def)
  ultimately show ?thesis by (simp add: kept_def br_static_def)
qed

lemma dispatch_cmd_kept:
  assumes inv: "broker_inv b" and len: "length buf = MAX_CMD_LEN"
    and body: "unat (bodylen (head_of buf)) \<le> 4088"
  shows "\<exists>b'. dispatch_cmd b fd buf = Inr b' \<and> kept b b'"
proof -
  let ?ty = "uint (cmdSendType (head_of buf))"
  have quiet: "no_sigpipe (br_net b)" and shm: "shm_ok (br_start b)" using inv by (simp_all add: broker_inv_def)
  consider (reserve) "?ty = IH_CMD_TYPE_SEND_RESERVE"
    | (serial) "?ty \<noteq> IH_CMD_TYPE_SEND_RESERVE" "?ty = IH_CMD_TYPE_SEND_SERIAL"
    | (bcast) "?ty \<noteq> IH_CMD_TYPE_SEND_RESERVE" "?ty \<noteq> IH_CMD_TYPE_SEND_SERIAL" by blast
  then show ?thesis
  proof cases
    case reserve
    obtain r2 w2 where "parser_reserve_cmd (br_start b) fd (br_net b) buf = Inr (r2, w2)"
      "same_in (br_net b) w2"
      using parser_reserve_cmd_total[OF shm _ quiet, of buf fd] len by (auto simp: MAX_CMD_LEN_def)
    then show ?thesis using reserve same_in_kept[OF inv, of w2] by (auto simp: dispatch_cmd_def)
  next
    case serial
    then show ?thesis using inv by (simp add: dispatch_cmd_def kept_def)
  next
    case bcast
    obtain r2 w2 bb where bc: "broadcast_cmd (br_nodes b) (br_net b) buf = Inr (r2, w2, bb)"
      "same_in (br_net b) w2"
      using broadcast_cmd_total[OF len body quiet, of "br_nodes b"] by auto
    let ?b2 = "b\<lparr>br_net := w2\<rparr>"
    have k2: "kept b ?b2" by (rule same_in_kept[OF inv bc(2)])
    have step: "dispatch_cmd b fd buf = Inr (if r2 < 0 then
        (case find_node_by_id (br_nodes ?b2) (- r2) of Some j \<Rightarrow> close_node j ?b2 | None \<Rightarrow> ?b2) else ?b2)"
      using bcast bc(1) by (simp add: dispatch_cmd_def Let_def)
    show ?thesis
    proof (cases "find_node_by_id (br_nodes ?b2) (- r2)")
      case None
      then show ?thesis using step k2 by simp
    next
      case (Some j)
      then have "j < length (br_nodes ?b2)"
        using find_first_Some[of _ "br_nodes ?b2" j] unfolding find_node_by_id_def by blast
      moreover have "broker_inv ?b2" using k2 by (simp add: kept_def)
      ultimately have "kept b (close_node j ?b2)" using kept_trans[OF k2] close_node_kept by blast
      then show ?thesis using step Some k2 by simp
    qed
  qed
qed

lemma serve_node_kept:
  assumes inv: "broker_inv b" and i: "i < length (br_nodes b)"
    and pos: "0 < nd_connfd (br_nodes b ! i)"
  shows "\<exists>b'. serve_node i b = Inr b' \<and> kept b b'"
proof -
  let ?ns = "br_nodes b" and ?fd = "nd_connfd (br_nodes b ! i)" and ?h = "replicate 8 (0 :: u8)"
  let ?d = "replicate 4088 (0 :: u8)"
  have parts: "names_ok ?ns" "own_fds ?ns" "open_fds (br_sockfd b) ?ns (br_net b)" "shm_ok (br_start b)"
    "fds_bounded b" "no_sigpipe (br_net b)"
    using inv by (simp_all add: broker_inv_def)
  obtain s where s: "br_net b ?fd = Some s" "framed 4088 (incoming s)"
    using parts(3) i pos by (auto simp: open_fds_def)
  obtain r h' d' w' where rc: "tcp_recv_protocol_cmd (br_net b) ?fd (Some ?h) (Some ?d) = Inr (r, h', d', w')"
    using tcp_recv_protocol_cmd_framed[of "br_net b" ?fd s 4088 ?d ?h] s by auto
  note ret = tcp_recv_protocol_cmd_returns[OF rc]
  let ?b1 = "b\<lparr>br_net := w'\<rparr>"
  have others: "w' g = br_net b g" if "g \<noteq> ?fd" for g using ret that by blast
  show ?thesis
  proof (cases "r < 0")
    case True
    have "close_fd ?fd w' = close_fd ?fd (br_net b)"
      using others pos by (auto simp: close_fd_def fun_eq_iff)
    then have "remove_node i ?b1 = remove_node i b"
      by (simp add: remove_node_def close_node_def)
    then show ?thesis
      using True rc remove_node_kept[OF inv i] by (simp add: serve_node_def Let_def MAX_CMD_LEN_def)
  next
    case False
    then have "r = 0" using ret by auto
    then obtain hb body s0 s' where ok: "h' = Some hb" "length hb = 8"
      "length body = unat (bodylen (head_of hb))" "d' = Some (body @ drop (length body) ?d)"
      "br_net b ?fd = Some s0" "w' ?fd = Some s'" "incoming s0 = hb @ body @ incoming s'"
      "suffix (sched s') (sched s0)"
      using tcp_recv_protocol_cmd_success[of "br_net b" ?fd ?h ?d h' d' w'] rc pos by auto
    have fr: "length body \<le> 4088" "framed 4088 (incoming s')"
      using framed_msg[of 4088 hb body "incoming s'"] s ok by simp_all
    let ?buf = "hb @ body @ drop (length body) ?d"
    have buf: "length ?buf = MAX_CMD_LEN" "head_of ?buf = head_of hb" "unat (bodylen (head_of ?buf)) \<le> 4088"
      using ok(2,3) fr(1) by (simp_all add: MAX_CMD_LEN_def head_of_append)
    have open1: "open_fds (br_sockfd b) ?ns w'"
      using parts(3) others ok(6) fr(2) unfolding open_fds_def by (metis)
    have "pipe_ok w' g" for g
    proof (cases "g = ?fd")
      case True
      have "pipe_ok (br_net b) ?fd" using parts(6) by (simp add: no_sigpipe_def)
      then show ?thesis using True ok(5,6,8) by (auto simp: pipe_ok_def suffix_def)
    next
      case False
      then have "w' g = br_net b g" by (rule others)
      then show ?thesis using parts(6) by (simp add: no_sigpipe_def pipe_ok_def)
    qed
    then have "broker_inv ?b1"
      using parts open1 by (simp add: broker_inv_def fds_bounded_def no_sigpipe_def)
    moreover have "leaked g ?b1" if "leaked g b" for g
    proof -
      have "g \<noteq> ?fd" using that i by (auto simp: leaked_def)
      then show ?thesis using that others by (simp add: leaked_def)
    qed
    ultimately have k1: "kept b ?b1" by (simp add: kept_def br_static_def)
    have "serve_node i b = dispatch_cmd ?b1 ?fd ?buf"
      using rc \<open>r = 0\<close> ok(1,2,4) buf(2)
      by (simp add: serve_node_def dispatch_cmd_def Let_def MAX_CMD_LEN_def GET_head)
    then show ?thesis
      using dispatch_cmd_kept[OF \<open>broker_inv ?b1\<close> buf(1,3), of ?fd] kept_trans[OF k1] by auto
  qed
qed

lemma serve_all_kept:
  assumes "broker_inv b" and "\<forall>i \<in> set is. i < length (br_nodes b)" and "0 \<notin> set rset"
  shows "\<exists>b'. serve_all is rset b = Inr b' \<and> kept b b'"
  using assms
proof (induction "is" arbitrary: b)
  case Nil
  then show ?case by (simp add: kept_def)
next
  case (Cons i "is")
  let ?fd = "nd_connfd (br_nodes b ! i)"
  have "?fd < FD_SETSIZE" using Cons.prems(1,2) by (auto simp: broker_inv_def fds_bounded_def)
  then have is_set: "\<not> ?fd < 0 \<Longrightarrow> FD_ISSET ?fd rset = Inr (?fd \<in> set rset)" by (simp add: FD_ISSET_def)
  show ?case
  proof (cases "?fd < 0 \<or> ?fd \<notin> set rset")
    case True
    then have "serve_all (i # is) rset b = serve_all is rset b" using is_set by (cases "?fd < 0") simp_all
    then show ?thesis using Cons.IH[of b] Cons.prems by simp
  next
    case False
    then have "0 < ?fd" using Cons.prems(3) by (cases "?fd = 0") auto
    then obtain b1 where b1: "serve_node i b = Inr b1" "kept b b1"
      using serve_node_kept[OF Cons.prems(1), of i] Cons.prems(2) by auto
    have st: "broker_inv b1" "br_static b1 = br_static b" using b1(2) by (simp_all add: kept_def)
    have "length (br_nodes b1) = length (br_nodes b)" by (rule br_static_nodes_length[OF st(2)])
    then obtain b' where b': "serve_all is rset b1 = Inr b'" "kept b1 b'"
      using Cons.IH[OF st(1)] Cons.prems(2,3) by auto
    have step: "serve_all (i # is) rset b = serve_all is rset b1" using False b1(1) is_set by simp
    show ?thesis unfolding step b'(1) using kept_trans[OF b1(2) b'(2)] by blast
  qed
qed

lemma register_all_eq:
  "register_all un c ns lc =
     (map (\<lambda>n. if sock_name_matches (nd_name n) un then n\<lparr>nd_connfd := c\<rparr> else n) ns,
      lc + int (length (filter (\<lambda>n. sock_name_matches (nd_name n) un) ns)))"
  by (induction ns arbitrary: lc) auto

lemma sock_name_matches_unique:
  assumes "sock_name_matches a un" and "sock_name_matches b un" and "0 \<notin> set a" and "0 \<notin> set b"
  shows "a = b"
proof -
  have len: "length a = length b" using assms(1,2) by (simp add: sock_name_matches_def)
  have "take (length a) (drop NAME_PREFIX_LEN un) = a" "take (length b) (drop NAME_PREFIX_LEN un) = b"
    using assms by (simp_all add: sock_name_matches_def strncmp_eq_prefix)
  then show ?thesis unfolding len by simp
qed

lemma register_all_own_fds:
  assumes "names_ok ns" and "own_fds ns" and "\<forall>n \<in> set ns. nd_connfd n \<noteq> c"
  shows "own_fds (fst (register_all un c ns lc))"
  unfolding own_fds_def register_all_eq fst_conv length_map
proof (intro allI impI)
  fix i j assume ij: "i < length ns" "j < length ns"
  let ?g = "\<lambda>n. if sock_name_matches (nd_name n) un then n\<lparr>nd_connfd := c\<rparr> else n"
  assume eq: "0 < nd_connfd (map ?g ns ! i) \<and> nd_connfd (map ?g ns ! i) = nd_connfd (map ?g ns ! j)"
  have ne: "nd_connfd (ns ! i) \<noteq> c" "nd_connfd (ns ! j) \<noteq> c" using assms(3) ij by simp_all
  let ?m = "\<lambda>k. sock_name_matches (nd_name (ns ! k)) un"
  have "?m i \<longleftrightarrow> ?m j" using eq ij ne by (auto split: if_splits)
  then show "i = j"
  proof (cases "?m i")
    case True
    then have "nd_name (ns ! i) = nd_name (ns ! j)"
      using \<open>?m i \<longleftrightarrow> ?m j\<close> sock_name_matches_unique assms(1) ij by (simp add: names_ok_def)
    then show ?thesis
      using assms(1) ij nth_eq_iff_index_eq[of "map nd_name ns" i j] by (simp add: names_ok_def)
  next
    case False
    then show ?thesis using eq ij \<open>?m i \<longleftrightarrow> ?m j\<close> assms(2) by (simp add: own_fds_def)
  qed
qed

text \<open>A client that is refused leaves its descriptor open and held by nobody.\<close>

definition opened :: "int \<Rightarrow> socket \<Rightarrow> broker \<Rightarrow> broker" where
  "opened c sk b = (if c < 0 then b else b\<lparr>br_net := (br_net b)(c := Some sk)\<rparr>)"

lemma accept_client_refused:
  assumes "accept_unix_tcp env = Inr (c, un)" and "c < 0"
  shows "accept_client env sk b = Inr (opened (acc_fd env) sk b)"
  using assms by (simp add: accept_client_def opened_def)

lemma accept_client_registers:
  assumes "accept_unix_tcp env = Inr (c, Some un)" and "0 \<le> c"
  shows "accept_client env sk b =
    Inr (opened (acc_fd env) sk b
      \<lparr>br_nodes := map (\<lambda>n. if sock_name_matches (nd_name n) un then n\<lparr>nd_connfd := c\<rparr> else n) (br_nodes b),
       br_link_count := br_link_count b +
         int (length (filter (\<lambda>n. sock_name_matches (nd_name n) un) (br_nodes b)))\<rparr>)"
  using assms by (simp add: accept_client_def opened_def register_all_eq Let_def)

lemma accept_client_kept:
  assumes inv: "broker_inv b" and env: "accept_ok b (SelReady ready env sk)"
    "below_fd_setsize (SelReady ready env sk)" "client_behaves (SelReady ready env sk)"
  shows "\<exists>b'. accept_client env sk b = Inr b' \<and> kept b b'"
proof -
  let ?c = "acc_fd env" and ?b0 = "opened (acc_fd env) sk b"
  have e: "framed 4088 (incoming sk)" "Gone \<notin> set (sched sk)" "?c < FD_SETSIZE"
    "?c < 0 \<or> 0 < ?c \<and> br_net b ?c = None \<and> ?c \<noteq> br_sockfd b"
    using env by (auto simp: accept_ok_def below_fd_setsize_def client_behaves_def)
  have parts: "names_ok (br_nodes b)" "own_fds (br_nodes b)"
    "open_fds (br_sockfd b) (br_nodes b) (br_net b)" "shm_ok (br_start b)" "fds_bounded b" "no_sigpipe (br_net b)"
    using inv by (simp_all add: broker_inv_def)
  have fresh: "\<forall>n \<in> set (br_nodes b). nd_connfd n \<noteq> ?c" if "0 < ?c"
    using parts(3) e(4) that by (auto simp: open_fds_def)
  have open0: "open_fds (br_sockfd b) (br_nodes b) (br_net ?b0)"
    using parts(3) e(4) fresh by (auto simp: open_fds_def opened_def)
  have q0: "no_sigpipe (br_net ?b0)" using parts(6) e(2) by (auto simp: no_sigpipe_def pipe_ok_def opened_def)
  have same: "br_nodes ?b0 = br_nodes b" "br_sockfd ?b0 = br_sockfd b" "br_start ?b0 = br_start b"
    "br_max_conn_fd ?b0 = br_max_conn_fd b" by (simp_all add: opened_def)
  have k0: "kept b ?b0"
    using parts open0 q0 unfolding kept_def broker_inv_def br_static_def fds_bounded_def leaked_def same
    by (simp add: opened_def)
  obtain c un where au: "accept_unix_tcp env = Inr (c, un)" "c < 0 \<or> (c = ?c \<and> un \<noteq> None)"
    using accept_unix_tcp_total[of env] env by (auto simp: accept_ok_def client_behaves_def)
  show ?thesis
  proof (cases "c < 0")
    case True
    then show ?thesis using accept_client_refused[OF au(1)] k0 by simp
  next
    case False
    then obtain u where u: "un = Some u" "c = ?c" "0 < ?c" using au(2) e(4) by auto
    let ?ns = "map (\<lambda>n. if sock_name_matches (nd_name n) u then n\<lparr>nd_connfd := ?c\<rparr> else n) (br_nodes b)"
    let ?lc = "br_link_count b + int (length (filter (\<lambda>n. sock_name_matches (nd_name n) u) (br_nodes b)))"
    let ?b' = "?b0\<lparr>br_nodes := ?ns, br_link_count := ?lc\<rparr>"
    have st: "map node_id_part ?ns = map node_id_part (br_nodes b)" by (simp add: node_id_part_def)
    have "names_ok ?ns" using names_ok_static[OF st parts(1)] .
    moreover have "own_fds ?ns"
      using register_all_own_fds[OF parts(1,2), of ?c u 0] fresh u(3) by (simp add: register_all_eq)
    moreover have "open_fds (br_sockfd b) ?ns (br_net ?b0)"
      using open0 e(1,4) u(3) by (auto simp: open_fds_def opened_def)
    moreover have "fds_bounded ?b'" using parts(5) e(3) by (auto simp: fds_bounded_def same)
    ultimately have "broker_inv ?b'" using parts(4) q0 by (simp add: broker_inv_def same)
    moreover have "br_static ?b' = br_static b" using st by (simp add: br_static_def same)
    moreover have "leaked g ?b'" if "leaked g b" for g
      using that e(4) u(3) by (auto simp: leaked_def opened_def)
    ultimately have "kept b ?b'" by (simp add: kept_def)
    then show ?thesis using accept_client_registers[of env c u sk b] au(1) u False by auto
  qed
qed

lemma main_step_kept:
  assumes "broker_inv b" and "accept_ok b ev" and "below_fd_setsize ev" and "client_behaves ev"
  shows "\<exists>go b'. main_step ev b = Inr (go, b') \<and> kept b b'"
proof -
  note ks = seen_kept[OF assms(1)]
  have i0: "broker_inv (seen b)" using ks by (simp add: kept_def)
  have fb: "fds_bounded b" using assms(1) by (simp add: broker_inv_def)
  show ?thesis
  proof (cases ev)
    case (SelReady ready env sk)
    show ?thesis
    proof (cases "br_sockfd b \<in> set ready")
      case True
      have "accept_ok (seen b) (SelReady ready env sk)"
        using assms(2) SelReady by (simp add: accept_ok_def seen_def)
      then obtain b' where "accept_client env sk (seen b) = Inr b'" "kept (seen b) b'"
        using accept_client_kept[OF i0] assms(3,4) SelReady by blast
      then show ?thesis using main_step_bounded[OF fb] SelReady True kept_trans[OF ks] by auto
    next
      case False
      let ?rset = "filter (\<lambda>fd. fd \<in> set ready) (watched b)"
      have "0 \<notin> set ?rset" using fb by (auto simp: watched_def fds_bounded_def)
      then obtain b' where "serve_all [0..<length (br_nodes b)] ?rset (seen b) = Inr b'" "kept (seen b) b'"
        using serve_all_kept[OF i0, of "[0..<length (br_nodes b)]" ?rset] by (auto simp: seen_def)
      then show ?thesis using main_step_bounded[OF fb] SelReady False kept_trans[OF ks] by auto
    qed
  qed (use main_step_bounded[OF fb] ks in auto)
qed

section \<open>Which nodes a turn serves\<close>

text \<open>Serving only ever takes descriptors away from nodes.\<close>

definition fds_shrink :: "broker \<Rightarrow> broker \<Rightarrow> bool" where
  "fds_shrink b b' \<longleftrightarrow> length (br_nodes b') = length (br_nodes b) \<and>
     (\<forall>n \<in> set (br_nodes b'). 0 < nd_connfd n \<longrightarrow> nd_connfd n \<in> nd_connfd ` set (br_nodes b))"

lemma close_node_shrink: "br_nodes b1 = br_nodes b \<Longrightarrow> fds_shrink b (close_node j b1)"
  by (auto simp: fds_shrink_def close_node_def dest!: subsetD[OF set_update_subset_insert])

lemma dispatch_cmd_nodes:
  assumes "dispatch_cmd b fd buf = Inr b'"
  shows "br_nodes b' = br_nodes b \<or> (\<exists>j b2. br_nodes b2 = br_nodes b \<and> b' = close_node j b2)"
proof -
  let ?ty = "uint (cmdSendType (head_of buf))"
  consider (reserve) "?ty = IH_CMD_TYPE_SEND_RESERVE" | (serial) "?ty = IH_CMD_TYPE_SEND_SERIAL"
    | (bcast) "?ty \<noteq> IH_CMD_TYPE_SEND_RESERVE" "?ty \<noteq> IH_CMD_TYPE_SEND_SERIAL" by blast
  then show ?thesis
  proof cases
    case bcast
    obtain r2 w2 bb where "broadcast_cmd (br_nodes b) (br_net b) buf = Inr (r2, w2, bb)"
      using assms bcast by (auto simp: dispatch_cmd_def cbind_eq_Inr_iff)
    then have "b' = (if r2 < 0 then
        (case find_node_by_id (br_nodes (b\<lparr>br_net := w2\<rparr>)) (- r2) of
           Some j \<Rightarrow> close_node j (b\<lparr>br_net := w2\<rparr>) | None \<Rightarrow> b\<lparr>br_net := w2\<rparr>) else b\<lparr>br_net := w2\<rparr>)"
      using assms bcast by (simp add: dispatch_cmd_def Let_def)
    moreover have nodes: "br_nodes (b\<lparr>br_net := w2\<rparr>) = br_nodes b" by simp
    ultimately consider "b' = b\<lparr>br_net := w2\<rparr>" | j where "b' = close_node j (b\<lparr>br_net := w2\<rparr>)"
      by (cases "find_node_by_id (br_nodes (b\<lparr>br_net := w2\<rparr>)) (- r2)") (auto split: if_splits)
    then show ?thesis using nodes by cases (simp, blast)
  qed (use assms in \<open>auto simp: dispatch_cmd_def cbind_eq_Inr_iff cmd_consts\<close>)
qed

lemma serve_node_shrink:
  assumes "serve_node i b = Inr b'"
  shows "fds_shrink b b'"
proof -
  have same: "fds_shrink b b1" if "br_nodes b1 = br_nodes b" for b1
    using that by (auto simp: fds_shrink_def)
  have rem: "fds_shrink b (remove_node i b1)" if "br_nodes b1 = br_nodes b" for b1
    using close_node_shrink[OF that, of i] by (simp add: fds_shrink_def remove_node_def)
  let ?r = "tcp_recv_protocol_cmd (br_net b) (nd_connfd (br_nodes b ! i))
    (Some (take 8 (replicate MAX_CMD_LEN 0))) (Some (drop 8 (replicate MAX_CMD_LEN 0)))"
  obtain r h d w where r: "?r = Inr (r, h, d, w)"
    using assms by (cases ?r) (auto simp: serve_node_def Let_def)
  let ?b1 = "b\<lparr>br_net := w\<rparr>" and ?fd = "nd_connfd (br_nodes b ! i)"
  show ?thesis
  proof (cases "r < 0")
    case True
    then have "b' = remove_node i ?b1" using assms r by (simp add: serve_node_def Let_def)
    then show ?thesis using rem[of ?b1] by simp
  next
    case False
    obtain hb db where hd: "h = Some hb" "length hb = 8" "d = Some db"
      using tcp_recv_protocol_cmd_returns[OF r] by (auto simp: MAX_CMD_LEN_def)
    have "serve_node i b = dispatch_cmd ?b1 ?fd (hb @ db)"
      using r False hd by (simp add: serve_node_def dispatch_cmd_def Let_def GET_head)
    then have "dispatch_cmd ?b1 ?fd (hb @ db) = Inr b'" using assms by simp
    from dispatch_cmd_nodes[OF this]
    show ?thesis
    proof
      assume "br_nodes b' = br_nodes ?b1"
      then show ?thesis using same[of b'] by simp
    next
      assume "\<exists>j b2. br_nodes b2 = br_nodes ?b1 \<and> b' = close_node j b2"
      then show ?thesis using close_node_shrink by fastforce
    qed
  qed
qed

text \<open>The reference: every node that still has a descriptor, and a ready one, is served.\<close>

fun serve_ready :: "nat list \<Rightarrow> int list \<Rightarrow> broker \<Rightarrow> broker cres" where
  "serve_ready [] ready b = Inr b"
| "serve_ready (i # is) ready b =
     (let fd = nd_connfd (br_nodes b ! i) in
      if 0 < fd \<and> fd \<in> set ready then cbind (serve_node i b) (serve_ready is ready)
      else serve_ready is ready b)"

lemma serve_all_ready:
  assumes "\<forall>i \<in> set is. i < length (br_nodes b)" and "0 \<notin> set rset"
    and "\<forall>n \<in> set (br_nodes b). nd_connfd n < FD_SETSIZE \<and>
      (0 < nd_connfd n \<longrightarrow> (nd_connfd n \<in> set rset \<longleftrightarrow> nd_connfd n \<in> set ready))"
  shows "serve_all is rset b = serve_ready is ready b"
  using assms
proof (induction "is" arbitrary: b)
  case (Cons i "is")
  let ?fd = "nd_connfd (br_nodes b ! i)"
  have i: "br_nodes b ! i \<in> set (br_nodes b)" using Cons.prems(1) by simp
  have same: "?fd \<ge> 0 \<Longrightarrow> FD_ISSET ?fd rset = Inr (0 < ?fd \<and> ?fd \<in> set ready)"
    using Cons.prems(2,3) i by (cases "?fd = 0") (auto simp: FD_ISSET_def)
  have rest: "serve_all is rset b1 = serve_ready is ready b1" if "serve_node i b = Inr b1" for b1
  proof (rule Cons.IH)
    note sh = serve_node_shrink[OF that, unfolded fds_shrink_def]
    show "\<forall>i \<in> set is. i < length (br_nodes b1)" using sh Cons.prems(1) by simp
    show "0 \<notin> set rset" by (rule Cons.prems(2))
    show "\<forall>n \<in> set (br_nodes b1). nd_connfd n < FD_SETSIZE \<and>
        (0 < nd_connfd n \<longrightarrow> (nd_connfd n \<in> set rset \<longleftrightarrow> nd_connfd n \<in> set ready))"
    proof
      fix n assume n: "n \<in> set (br_nodes b1)"
      show "nd_connfd n < FD_SETSIZE \<and>
        (0 < nd_connfd n \<longrightarrow> (nd_connfd n \<in> set rset \<longleftrightarrow> nd_connfd n \<in> set ready))"
      proof (cases "0 < nd_connfd n")
        case True
        then obtain m where "m \<in> set (br_nodes b)" "nd_connfd n = nd_connfd m" using sh n by blast
        then show ?thesis using Cons.prems(3) by auto
      qed (simp add: FD_SETSIZE_def)
    qed
  qed
  have "serve_all is rset b = serve_ready is ready b" using Cons.IH[of b] Cons.prems by simp
  then show ?case
    using same rest by (cases "serve_node i b") (auto simp: Let_def)
qed simp

lemma main_step_serves_ready:
  assumes "broker_inv b"
  shows "main_step (SelReady ready env sk) b =
    cbind (if br_sockfd b \<in> set ready then accept_client env sk (seen b)
           else serve_ready [0..<length (br_nodes b)] ready (seen b)) (\<lambda>b1. Inr (True, b1))"
proof -
  have fb: "fds_bounded b" using assms by (simp add: broker_inv_def)
  have "serve_all [0..<length (br_nodes b)] (filter (\<lambda>fd. fd \<in> set ready) (watched b)) (seen b) =
      serve_ready [0..<length (br_nodes b)] ready (seen b)"
    by (rule serve_all_ready) (use fb in \<open>auto simp: seen_def watched_def fds_bounded_def\<close>)
  then show ?thesis by (simp add: main_step_bounded[OF fb])
qed

section \<open>Descriptors that are lost\<close>

text \<open>
  A turn that refuses a client, or gives its descriptor to no node, leaks it; a client that takes
  the name of a connected node leaks the descriptor the node had.
\<close>

lemma accept_unix_tcp_cases:
  assumes "accept_unix_tcp env = Inr (c, un)" and "0 \<le> c"
  shows "c = acc_fd env \<and> (\<exists>u. un = Some u)"
  using assms by (auto simp: accept_unix_tcp_def Let_def cbind_eq_Inr_iff split: if_splits option.splits)

lemma accept_client_leaks:
  assumes "accept_unix_tcp env = Inr (c, un)" and "0 < acc_fd env"
    and "\<forall>n \<in> set (br_nodes b). nd_connfd n \<noteq> acc_fd env"
    and "c < 0 \<or> (\<forall>n \<in> set (br_nodes b). \<not> sock_name_matches (nd_name n) (the un))"
    and "accept_client env sk b = Inr b1"
  shows "leaked (acc_fd env) b1"
proof (cases "c < 0")
  case True
  then have "b1 = opened (acc_fd env) sk b" using accept_client_refused[OF assms(1)] assms(5) by simp
  then show ?thesis using assms(2,3) by (simp add: leaked_def opened_def)
next
  case False
  then obtain u where u: "un = Some u" using accept_unix_tcp_cases[OF assms(1)] by auto
  have "map (\<lambda>n. if sock_name_matches (nd_name n) u then n\<lparr>nd_connfd := c\<rparr> else n) (br_nodes b) = br_nodes b"
    using assms(4) False u by (intro map_idI) auto
  then have "br_nodes b1 = br_nodes b" "br_net b1 = (br_net b)(acc_fd env := Some sk)"
    using accept_client_registers[of env c u sk b] assms(1,2,5) u False by (auto simp: opened_def)
  then show ?thesis using assms(2,3) by (simp add: leaked_def)
qed

lemma accept_client_replaces:
  assumes "accept_unix_tcp env = Inr (c, un)" and "0 \<le> c" and "n \<in> set (br_nodes b)"
    and "sock_name_matches (nd_name n) (the un)" and "0 < nd_connfd n" and "own_fds (br_nodes b)"
    and "br_net b (nd_connfd n) \<noteq> None" and "nd_connfd n \<noteq> acc_fd env"
    and "accept_client env sk b = Inr b1"
  shows "leaked (nd_connfd n) b1"
proof -
  obtain u where u: "un = Some u" "c = acc_fd env" using accept_unix_tcp_cases[OF assms(1,2)] by auto
  have b1: "br_nodes b1 = map (\<lambda>k. if sock_name_matches (nd_name k) u then k\<lparr>nd_connfd := c\<rparr> else k) (br_nodes b)"
    "br_net b1 = (br_net b)(c := Some sk)"
    using accept_client_registers[of env c u sk b] assms(1,2,9) u by (auto simp: opened_def)
  have "nd_connfd k \<noteq> nd_connfd n" if k: "k \<in> set (br_nodes b)" "\<not> sock_name_matches (nd_name k) u" for k
  proof
    assume eq: "nd_connfd k = nd_connfd n"
    obtain i where i: "i < length (br_nodes b)" "br_nodes b ! i = k" using k(1) unfolding in_set_conv_nth by blast
    obtain j where j: "j < length (br_nodes b)" "br_nodes b ! j = n" using assms(3) unfolding in_set_conv_nth by blast
    have "i = j" using assms(5,6) i j eq unfolding own_fds_def by metis
    then show False using i(2) j(2) k(2) assms(4) u(1) by simp
  qed
  then have "\<forall>k \<in> set (br_nodes b1). nd_connfd k \<noteq> nd_connfd n" using assms(8) u(2) by (auto simp: b1(1))
  moreover have "br_net b1 (nd_connfd n) \<noteq> None" using assms(7) by (simp add: b1(2))
  ultimately show ?thesis using assms(5) by (simp add: leaked_def)
qed

lemma main_step_leaks:
  assumes inv: "broker_inv b" and acc: "accept_ok b (SelReady ready env sk)" and rdy: "br_sockfd b \<in> set ready"
    and pos: "0 < acc_fd env" and un: "accept_unix_tcp env = Inr (c, un)"
    and step: "main_step (SelReady ready env sk) b = Inr (go, b1)"
  shows "c < 0 \<or> (\<forall>n \<in> set (br_nodes b). \<not> sock_name_matches (nd_name n) (the un)) \<Longrightarrow> leaked (acc_fd env) b1"
    and "0 \<le> c \<Longrightarrow> n \<in> set (br_nodes b) \<Longrightarrow> sock_name_matches (nd_name n) (the un) \<Longrightarrow> 0 < nd_connfd n \<Longrightarrow>
      leaked (nd_connfd n) b1"
proof -
  have fb: "fds_bounded b" and op: "open_fds (br_sockfd b) (br_nodes b) (br_net b)" and own: "own_fds (br_nodes b)"
    using inv by (simp_all add: broker_inv_def)
  have nodes: "br_nodes (seen b) = br_nodes b" "br_net (seen b) = br_net b" by (simp_all add: seen_def)
  have new: "br_net b (acc_fd env) = None" using acc pos by (simp add: accept_ok_def)
  have fresh: "\<forall>k \<in> set (br_nodes (seen b)). nd_connfd k \<noteq> acc_fd env"
    using op new pos unfolding nodes open_fds_def by force
  have st: "accept_client env sk (seen b) = Inr b1"
    using rdy step by (simp add: main_step_bounded[OF fb] cbind_eq_Inr_iff)
  show "c < 0 \<or> (\<forall>n \<in> set (br_nodes b). \<not> sock_name_matches (nd_name n) (the un)) \<Longrightarrow> leaked (acc_fd env) b1"
    using accept_client_leaks[OF un pos fresh _ st] unfolding nodes by blast
  show "leaked (nd_connfd n) b1" if "0 \<le> c" "n \<in> set (br_nodes b)" "sock_name_matches (nd_name n) (the un)" "0 < nd_connfd n"
  proof (rule accept_client_replaces[OF un that(1) _ that(3,4) _ _ _ st])
    show "br_net (seen b) (nd_connfd n) \<noteq> None" using op that(2,4) by (auto simp: nodes open_fds_def)
  qed (use that(2) own fresh in \<open>simp_all add: nodes\<close>)
qed

text \<open>A node with a descriptor an fd\_set has no place for: every later turn faults.\<close>

lemma main_step_overruns:
  assumes "n \<in> set (br_nodes b)" and "FD_SETSIZE \<le> nd_connfd n"
  shows "main_step ev b = Inl OOB"
proof -
  have "\<not> (\<forall>n \<in> set (br_nodes b). nd_connfd n < FD_SETSIZE)" using assms by force
  then show ?thesis by (auto simp: main_step_def watch_nodes_eq FD_SET_def)
qed

section \<open>Runs of the broker\<close>

inductive broker_step :: "broker \<Rightarrow> broker \<Rightarrow> bool" where
  turn: "accept_ok b ev \<Longrightarrow> below_fd_setsize ev \<Longrightarrow> client_behaves ev \<Longrightarrow>
    main_step ev b = Inr (True, b') \<Longrightarrow> broker_step b b'"

inductive_cases broker_stepE: "broker_step b b'"

inductive broker_run :: "broker \<Rightarrow> broker \<Rightarrow> bool" where
  start: "broker_run b b"
| more: "broker_run b b1 \<Longrightarrow> broker_step b1 b2 \<Longrightarrow> broker_run b b2"

lemma broker_step_kept: "broker_step b b' \<Longrightarrow> broker_inv b \<Longrightarrow> kept b b'"
  by (erule broker_stepE) (use main_step_kept in fastforce)

lemma broker_run_kept: "broker_run b b' \<Longrightarrow> broker_inv b \<Longrightarrow> kept b b'"
proof (induction rule: broker_run.induct)
  case (start b)
  then show ?case by (simp add: kept_def)
next
  case (more b b1 b2)
  then show ?case using broker_step_kept[of b1 b2] kept_trans by (simp add: kept_def)
qed

end
