(* ===== verification/Exchange.thy ===== *)
theory Exchange
  imports Client Broker
begin

text \<open>
  What crosses the wire between a client (Client) and the broker (Broker): the lemmas that join
  the two sides.  A broadcast is followed from the publisher's call through one service turn of
  the broker to the subscriber's receive, and the question for the shared-memory table from the
  subscriber's request to the table in its buffer.
\<close>

section \<open>One receive, in full\<close>

lemma recv_cmd_takes_frame:
  assumes "w fd = Some s" and "obliging RETRIES (sched s)" and "0 \<le> fd" and "length h = 8"
    and "incoming s = hb @ body @ rest" and "length hb = 8"
    and "unat (bodylen (head_of hb)) = length body" and "length body \<le> length d"
  obtains w' s' where "tcp_recv_protocol_cmd w fd (Some h) (Some d) =
      Inr (0, Some hb, Some (body @ drop (length body) d), w')"
    and "w' fd = Some s'" and "incoming s' = rest" and "outgoing s' = outgoing s"
    and "obliging RETRIES (sched s')" and "\<And>g. g \<noteq> fd \<Longrightarrow> w' g = w g"
proof -
  obtain w' s' where r: "tcp_recv_protocol_cmd w fd (Some h) (Some d) =
      Inr (0, Some hb, Some (body @ drop (length body) d), w')" "w' fd = Some s'" "incoming s' = rest"
    using tcp_recv_protocol_cmd_frame[of w fd s h hb body rest d] assms by auto
  then have "outgoing s' = outgoing s" "suffix (sched s') (sched s)" "\<And>g. g \<noteq> fd \<Longrightarrow> w' g = w g"
    using tcp_recv_protocol_cmd_success[OF r(1) assms(3,4)] assms(1) by auto
  then show thesis using that r assms(2) obliging_suffix by blast
qed

text \<open>\<open>received b fd rest w'\<close>: the broker's network after it has taken one message off \<open>fd\<close>.\<close>

definition received :: "net \<Rightarrow> int \<Rightarrow> bytes \<Rightarrow> net \<Rightarrow> bool" where
  "received w fd rest w' \<longleftrightarrow> (\<forall>g. g \<noteq> fd \<longrightarrow> w' g = w g) \<and>
     (\<exists>s s'. w fd = Some s \<and> w' fd = Some s' \<and> incoming s' = rest \<and> outgoing s' = outgoing s \<and>
       obliging RETRIES (sched s'))"

lemma received_ready: "received w fd rest w' \<Longrightarrow> fd_ready w g \<Longrightarrow> fd_ready w' g"
  by (cases "g = fd") (auto simp: received_def fd_ready_def)

lemma received_self: "received w fd rest w' \<Longrightarrow> fd_ready w' fd"
  by (auto simp: received_def fd_ready_def)

lemma received_outgoing:
  "received w fd rest w' \<Longrightarrow> w g = Some s \<Longrightarrow> \<exists>s'. w' g = Some s' \<and> outgoing s' = outgoing s"
  by (cases "g = fd") (auto simp: received_def)

text \<open>The beginning of \<open>serve_node\<close>: a complete message that fits is taken off the stream.\<close>

lemma serve_node_takes:
  fixes b :: broker and i :: nat
  defines "fd \<equiv> nd_connfd (br_nodes b ! i)"
  assumes "br_net b fd = Some s" and "obliging RETRIES (sched s)" and "0 \<le> fd"
    and "incoming s = hb @ body @ rest" and hb: "length hb = 8"
    and "unat (bodylen (head_of hb)) = length body" and body: "length body \<le> 4088"
  obtains w where "received (br_net b) fd rest w"
    and "serve_node i b =
      (let buf = hb @ body @ replicate (4088 - length body) 0; b1 = b\<lparr>br_net := w\<rparr>;
           ty = uint (cmdSendType (head_of hb)) in
       if ty = IH_CMD_TYPE_SEND_RESERVE then
         cbind (parser_reserve_cmd (br_start b) fd w buf) (\<lambda>(_, w2). Inr (b\<lparr>br_net := w2\<rparr>))
       else if ty = IH_CMD_TYPE_SEND_SERIAL then Inr b1
       else cbind (broadcast_cmd (br_nodes b) w buf) (\<lambda>(ret2, w2, _).
         let b2 = b\<lparr>br_net := w2\<rparr> in
         Inr (if ret2 < 0 then
                (case find_node_by_id (br_nodes b2) (- ret2) of
                   Some j \<Rightarrow> close_node j b2 | None \<Rightarrow> b2)
              else b2)))"
proof -
  let ?d = "replicate 4088 (0 :: u8)"
  obtain w s' where r: "tcp_recv_protocol_cmd (br_net b) fd (Some (replicate 8 0)) (Some ?d) =
      Inr (0, Some hb, Some (body @ drop (length body) ?d), w)"
    and w: "w fd = Some s'" "incoming s' = rest" "outgoing s' = outgoing s"
      "obliging RETRIES (sched s')" "\<And>g. g \<noteq> fd \<Longrightarrow> w g = br_net b g"
    using recv_cmd_takes_frame[of "br_net b" fd s "replicate 8 0" hb body rest ?d] assms by auto
  have "received (br_net b) fd rest w" using w assms(2) by (auto simp: received_def)
  then show thesis
    using r hb by (intro that) (simp_all add: serve_node_def fd_def[symmetric] Let_def MAX_CMD_LEN_def
        GET_head head_of_append cong: if_cong option.case_cong)
qed

section \<open>A broadcast through the broker\<close>

lemma sends_all_only:
  "sends_all w ds w' \<Longrightarrow> w fd = Some s \<Longrightarrow>
   \<exists>s'. w' fd = Some s' \<and> outgoing s' = outgoing s @ bytes_to fd ds"
  using sends_all_outgoing by blast

definition routed_msg :: "bytes \<Rightarrow> bytes \<Rightarrow> bytes" where
  "routed_msg hb body = bytes_of_head (forwarded_head (head_of hb)) @
     drop (broadcast_len (broadcast_num (head_of hb))) body"

lemma broadcast_buffer:
  assumes "length hb = 8" and "unat (bodylen (head_of hb)) = length body" and "length body \<le> 4088"
    and "broadcast_len (broadcast_num (head_of hb)) \<le> length body"
  defines "buf \<equiv> hb @ body @ replicate (4088 - length body) 0"
  shows "well_sized buf" and "forwarded buf = routed_msg hb body"
    and "ids_of buf = take (unat (broadcast_num (head_of hb))) body"
proof -
  have h: "head_of buf = head_of hb" using assms(1) by (simp add: buf_def head_of_append)
  have n: "unat (broadcast_num (head_of hb)) \<le> length body"
    using broadcast_len_bounds(1)[of "broadcast_num (head_of hb)"] assms(4) by linarith
  have d: "drop 8 buf = body @ replicate (4088 - length body) 0"
    "drop (8 + k) buf = drop k (body @ replicate (4088 - length body) 0)" for k
    using assms(1) by (simp_all add: buf_def)
  show "well_sized buf" using assms h by (simp add: well_sized_def)
  show "forwarded buf = routed_msg hb body"
    using assms(2,4) h d(2) by (simp add: forwarded_def payload_of_def routed_msg_def)
  show "ids_of buf = take (unat (broadcast_num (head_of hb))) body"
    using n h d(1) by (simp add: ids_of_def)
qed

lemma serve_node_broadcast:
  fixes b :: broker and i :: nat
  defines "fd \<equiv> nd_connfd (br_nodes b ! i)"
  assumes "br_net b fd = Some s" and "obliging RETRIES (sched s)" and "0 \<le> fd"
    and "incoming s = hb @ body @ rest" and "length hb = 8"
    and "unat (bodylen (head_of hb)) = length body" and "length body \<le> 4088"
    and "cmdSendType (head_of hb) = 1" and "broadcast_len (broadcast_num (head_of hb)) \<le> length body"
    and addressed: "\<And>n. n \<in> set (br_nodes b) \<Longrightarrow> 0 \<le> nd_connfd n \<Longrightarrow>
      0 < id_count n (take (unat (broadcast_num (head_of hb))) body) \<Longrightarrow> fd_ready (br_net b) (nd_connfd n)"
  shows "\<exists>w w'. serve_node i b = Inr (b\<lparr>br_net := w'\<rparr>) \<and> received (br_net b) fd rest w \<and>
    sends_all w (deliveries (br_nodes b) (take (unat (broadcast_num (head_of hb))) body)
      (routed_msg hb body)) w'"
proof -
  let ?buf = "hb @ body @ replicate (4088 - length body) 0"
  obtain w where w: "received (br_net b) fd rest w"
    and step: "serve_node i b = cbind (broadcast_cmd (br_nodes b) w ?buf) (\<lambda>(ret2, w2, _).
         let b2 = b\<lparr>br_net := w2\<rparr> in
         Inr (if ret2 < 0 then
                (case find_node_by_id (br_nodes b2) (- ret2) of
                   Some j \<Rightarrow> close_node j b2 | None \<Rightarrow> b2)
              else b2))"
    using serve_node_takes[of b i s hb body rest] assms
    by (auto simp: fd_def Let_def IH_CMD_TYPE_SEND_RESERVE_def IH_CMD_TYPE_SEND_SERIAL_def)
  note buf = broadcast_buffer[OF assms(6,7,8,10)]
  have "fd_ready w (nd_connfd n)" if "n \<in> set (br_nodes b)" "0 \<le> nd_connfd n"
    "0 < id_count n (ids_of ?buf)" for n
    using received_ready[OF w] addressed that unfolding buf(3) by blast
  from broadcast_cmd_ready[OF buf(1), of "br_nodes b" w, OF this]
  obtain w' b2 where "broadcast_cmd (br_nodes b) w ?buf = Inr (0, w', b2)"
    "sends_all w (deliveries (br_nodes b) (ids_of ?buf) (forwarded ?buf)) w'" by blast
  then show ?thesis using w step unfolding buf(2,3) by auto
qed

section \<open>From publisher to subscriber\<close>

text \<open>The message a subscriber gets when a publisher broadcasts \<open>d\<close>.\<close>

definition delivered_msg :: "nat \<Rightarrow> bytes \<Rightarrow> bytes" where
  "delivered_msg n d =
     bytes_of_head ((client_head n 0)\<lparr>bodylen := of_nat (length d), broadcast_num := 0\<rparr>) @ d"

definition client_body :: "bytes \<Rightarrow> bytes \<Rightarrow> bytes" where
  "client_body ids d = ids @ replicate (nat (round4 (int (length ids))) - length ids) 0 @ d"

lemma client_wire_split: "client_wire ids d = bytes_of_head (client_head (length ids) (length d)) @ client_body ids d"
  by (simp add: client_wire_def client_body_def)

lemma broadcast_len_nat:
  "n < 256 \<Longrightarrow> broadcast_len (of_nat n) = nat (round4 (int n))"
proof -
  assume "n < 256"
  then have "uint (of_nat n :: u8) = int n" by (simp add: uint_word_of_int take_bit_eq_mod unsigned_of_nat)
  then show ?thesis using broadcast_len_round4[of "of_nat n"] by (metis nat_int)
qed

lemma client_body_facts:
  assumes "length ids \<le> 56" and "length d + nat (round4 (int (length ids))) \<le> 4088"
  defines "h \<equiv> client_head (length ids) (length d)"
  shows "length (client_body ids d) = length d + nat (round4 (int (length ids)))"
    and "unat (bodylen h) = length (client_body ids d)"
    and "broadcast_len (broadcast_num h) = nat (round4 (int (length ids)))"
    and "unat (broadcast_num h) = length ids"
    and "take (unat (broadcast_num h)) (client_body ids d) = ids"
    and "drop (broadcast_len (broadcast_num h)) (client_body ids d) = d"
proof -
  let ?p = "nat (round4 (int (length ids)))"
  have p: "length ids \<le> ?p" using round4_pad[OF assms(1)] by simp
  show len: "length (client_body ids d) = length d + ?p" using p by (simp add: client_body_def)
  have "unat (of_nat (length d + ?p) :: u16) = length d + ?p"
    using assms(2) by (simp only: unat_of_nat) simp
  then show "unat (bodylen h) = length (client_body ids d)"
    unfolding len h_def client_head_def PROTOCOL_CMD.simps .
  show brl: "broadcast_len (broadcast_num h) = ?p"
    using broadcast_len_nat[of "length ids"] assms(1) by (simp add: h_def client_head_def)
  show num: "unat (broadcast_num h) = length ids"
    using assms(1) by (simp add: h_def client_head_def unat_of_nat)
  show "take (unat (broadcast_num h)) (client_body ids d) = ids"
    unfolding num by (simp add: client_body_def)
  show "drop (broadcast_len (broadcast_num h)) (client_body ids d) = d"
    unfolding brl using p by (simp add: client_body_def)
qed

text \<open>A client's broadcasts keep the stream it sends to the broker well framed.\<close>

lemma client_wire_framed:
  assumes "length ids \<le> 56" and "length d + nat (round4 (int (length ids))) \<le> 4088"
    and "framed 4088 r"
  shows "framed 4088 (client_wire ids d @ r)"
proof -
  let ?hb = "bytes_of_head (client_head (length ids) (length d))"
  note f = client_body_facts[OF assms(1,2)]
  have h: "length ?hb = 8" "head_of ?hb = client_head (length ids) (length d)"
    using client_head_facts(1) client_head_facts(2)[of _ _ "[]"] by simp_all
  have "length (client_body ids d) = unat (bodylen (head_of ?hb))" unfolding h(2) f(2) ..
  from framed_appendI[OF h(1) this _ assms(3)] show ?thesis
    using f(1) assms(2) by (simp add: client_wire_split)
qed

lemma routed_client_msg:
  assumes "length ids \<le> 56" and "length d + nat (round4 (int (length ids))) \<le> 4088"
  shows "routed_msg (bytes_of_head (client_head (length ids) (length d))) (client_body ids d) =
    delivered_msg (length ids) d"
proof -
  note f = client_body_facts[OF assms]
  let ?h = "client_head (length ids) (length d)" and ?p = "nat (round4 (int (length ids)))"
  have "bodylen ?h - of_nat (broadcast_len (broadcast_num ?h)) = of_nat (length d)"
    unfolding f(3) by (simp add: client_head_def)
  then have "forwarded_head ?h =
      (client_head (length ids) 0)\<lparr>bodylen := of_nat (length d), broadcast_num := 0\<rparr>"
    by (simp add: forwarded_head_def client_head_def)
  moreover have "head_of (bytes_of_head ?h) = ?h" using client_head_facts(2)[of _ _ "[]"] by simp
  ultimately show ?thesis using f(6) by (simp add: routed_msg_def delivered_msg_def)
qed

lemma delivered_msg_head:
  assumes "length d < 65536"
  shows "\<exists>hb. delivered_msg n d = hb @ d \<and> length hb = 8 \<and>
    unat (bodylen (head_of hb)) = length d \<and> uint (cmdid (head_of hb)) = IH_CMD_ID_DEFAULT"
proof -
  let ?h = "(client_head n 0)\<lparr>bodylen := of_nat (length d), broadcast_num := 0\<rparr>"
  have two: "length (szMagic ?h) = 2" by (simp add: client_head_def PROTOCOL_MAGIC_def)
  have "head_of (bytes_of_head ?h) = ?h" "length (bytes_of_head ?h) = 8"
    using head_bytes_roundtrip(1)[OF two, of "[]"] head_bytes_roundtrip(2)[OF two] by simp_all
  moreover have "unat (bodylen ?h) = length d" using assms by (simp add: unat_of_nat)
  moreover have "uint (cmdid ?h) = IH_CMD_ID_DEFAULT" by (simp add: client_head_def IH_CMD_ID_DEFAULT_def)
  ultimately show ?thesis by (intro exI[of _ "bytes_of_head ?h"]) (simp add: delivered_msg_def)
qed

lemma broker_routes_client_msg:
  fixes b :: broker and i :: nat
  defines "fd \<equiv> nd_connfd (br_nodes b ! i)"
  assumes "br_net b fd = Some s" and "obliging RETRIES (sched s)" and "0 \<le> fd"
    and "incoming s = client_wire ids d @ rest"
    and ids: "length ids \<le> 56" and len: "length d + nat (round4 (int (length ids))) \<le> 4088"
    and addressed: "\<And>n. n \<in> set (br_nodes b) \<Longrightarrow> 0 \<le> nd_connfd n \<Longrightarrow> 0 < id_count n ids \<Longrightarrow>
      fd_ready (br_net b) (nd_connfd n)"
  shows "\<exists>w w'. serve_node i b = Inr (b\<lparr>br_net := w'\<rparr>) \<and> received (br_net b) fd rest w \<and>
    sends_all w (deliveries (br_nodes b) ids (delivered_msg (length ids) d)) w'"
proof -
  let ?hb = "bytes_of_head (client_head (length ids) (length d))" and ?body = "client_body ids d"
  note f = client_body_facts[OF ids len]
  have h: "length ?hb = 8" "head_of ?hb = client_head (length ids) (length d)"
    using client_head_facts(1) client_head_facts(2)[of _ _ "[]"] by simp_all
  have ty: "cmdSendType (head_of ?hb) = 1"
    unfolding h(2) by (simp add: client_head_def IH_CMD_TYPE_SEND_PARALLEL_def)
  have "fd_ready (br_net b) (nd_connfd n)" if "n \<in> set (br_nodes b)" "0 \<le> nd_connfd n"
    "0 < id_count n (take (unat (broadcast_num (head_of ?hb))) ?body)" for n
    using addressed that unfolding h(2) f(5) .
  from serve_node_broadcast[of b i s ?hb ?body rest, OF _ _ _ _ h(1) _ _ ty _ this]
  show ?thesis
    using assms f h routed_client_msg[OF ids len] by (simp add: fd_def client_wire_split)
qed

text \<open>
  When no two nodes share a descriptor, every connected node gets the message as often as its
  id is in the list, and nothing else.
\<close>

lemma bytes_to_append: "bytes_to fd (as @ bs) = bytes_to fd as @ bytes_to fd bs"
  by (simp add: bytes_to_def)

lemma bytes_to_replicate: "bytes_to fd (replicate k (fd, m)) = concat (replicate k m)"
  by (induction k) (simp_all add: bytes_to_def)

lemma bytes_to_none:
  "\<forall>n \<in> set ns. nd_connfd n \<noteq> fd \<Longrightarrow> bytes_to fd (deliveries ns ids msg) = []"
  by (induction ns) (auto simp: bytes_to_def node_deliveries_def)

lemma bytes_to_deliveries:
  assumes "own_fds ns" and "j < length ns" and "0 < nd_connfd (ns ! j)"
  shows "bytes_to (nd_connfd (ns ! j)) (deliveries ns ids msg) = concat (replicate (id_count (ns ! j) ids) msg)"
proof -
  let ?fd = "nd_connfd (ns ! j)"
  have ns: "ns = take j ns @ ns ! j # drop (Suc j) ns" using id_take_nth_drop[OF assms(2)] .
  have "nd_connfd (ns ! i) \<noteq> ?fd" if "i < length ns" "i \<noteq> j" for i
    using assms that unfolding own_fds_def by metis
  then have "\<forall>n \<in> set (take j ns). nd_connfd n \<noteq> ?fd" "\<forall>n \<in> set (drop (Suc j) ns). nd_connfd n \<noteq> ?fd"
    using assms(2) by (auto simp: in_set_conv_nth)
  then have "bytes_to ?fd (deliveries (take j ns) ids msg) = []"
    "bytes_to ?fd (deliveries (drop (Suc j) ns) ids msg) = []" by (simp_all only: bytes_to_none)
  moreover have "deliveries ns ids msg = deliveries (take j ns) ids msg @
      node_deliveries ids msg (ns ! j) @ deliveries (drop (Suc j) ns) ids msg"
    by (subst ns) (simp add: deliveries_def)
  ultimately show ?thesis
    using assms(3) by (simp add: bytes_to_append node_deliveries_def bytes_to_replicate)
qed

lemma broker_outgoing:
  assumes "received (br_net b) fd rest w" and "sends_all w (deliveries (br_nodes b) ids msg) w'"
    and "own_fds (br_nodes b)" and "j < length (br_nodes b)" and "0 < nd_connfd (br_nodes b ! j)"
    and "br_net b (nd_connfd (br_nodes b ! j)) = Some t"
  shows "\<exists>t'. w' (nd_connfd (br_nodes b ! j)) = Some t' \<and>
    outgoing t' = outgoing t @ concat (replicate (id_count (br_nodes b ! j) ids) msg)"
proof -
  obtain t1 where t1: "w (nd_connfd (br_nodes b ! j)) = Some t1" "outgoing t1 = outgoing t"
    using received_outgoing[OF assms(1,6)] by blast
  then show ?thesis
    using sends_all_only[OF assms(2) t1(1)] bytes_to_deliveries[OF assms(3-5)] by simp
qed

section \<open>The question for the shared-memory table\<close>

definition reserve_head :: "nat \<Rightarrow> int \<Rightarrow> PROTOCOL_CMD" where
  "reserve_head len cid = \<lparr>szMagic = PROTOCOL_MAGIC, bodylen = of_nat len, cmdSendType = 0,
     cmdid = word_of_int cid, broadcast_num = 0, pad = 0\<rparr>"

definition reserve_wire :: "int \<Rightarrow> bytes \<Rightarrow> bytes" where
  "reserve_wire cid body = bytes_of_head (reserve_head (length body) cid) @ body"

lemma reserve_head_facts:
  "length (bytes_of_head (reserve_head n cid)) = 8"
  "head_of (bytes_of_head (reserve_head n cid) @ r) = reserve_head n cid"
  "head_of (bytes_of_head (reserve_head n cid)) = reserve_head n cid"
proof -
  have two: "length (szMagic (reserve_head n cid)) = 2"
    by (simp add: reserve_head_def PROTOCOL_MAGIC_def)
  show "length (bytes_of_head (reserve_head n cid)) = 8" by (rule head_bytes_roundtrip(2)[OF two])
  show h: "head_of (bytes_of_head (reserve_head n cid) @ r) = reserve_head n cid" for r
    by (rule head_bytes_roundtrip(1)[OF two])
  show "head_of (bytes_of_head (reserve_head n cid)) = reserve_head n cid" using h[of "[]"] by simp
qed

lemma reserve_head_fields:
  "bodylen (reserve_head n cid) = of_nat n" "cmdSendType (reserve_head n cid) = 0"
  by (simp_all add: reserve_head_def)

text \<open>Every reserved message is a cleared header with three fields set, then the body.\<close>

lemma set_reserve_head:
  assumes "8 \<le> length m" and "0 \<le> cid"
  shows "\<exists>m'. set_pure_protocol_head m (int len) IH_CMD_TYPE_SEND_RESERVE cid = Inr m' \<and>
    length m' = length m \<and> drop 8 m' = drop 8 m \<and> head_of m' = reserve_head len cid"
  using set_pure_protocol_head_upd[OF assms(1), of "int len" IH_CMD_TYPE_SEND_RESERVE cid] assms(2)
  by (auto simp: pure_head_upd_def reserve_head_def IH_CMD_TYPE_SEND_RESERVE_def blank_head_def)

lemma reserve_frame:
  assumes "head_of b = reserve_head (length body) cid" and "8 \<le> length b" and "length body < 65536"
  shows "frame b (body @ r) = reserve_wire cid body" and "cmd_valid (b, body @ r)"
proof -
  have bl: "unat (bodylen (head_of b)) = length body"
    unfolding assms(1) reserve_head_def PROTOCOL_CMD.simps using assms(3)
    by (simp only: unat_of_nat) simp
  show "frame b (body @ r) = reserve_wire cid body"
    using bl assms bytes_of_head_of[of b] by (simp add: frame_def reserve_wire_def)
  show "cmd_valid (b, body @ r)" using bl assms(2) by (simp add: cmd_valid_def)
qed

lemma send_reserve_frame:
  assumes "head_of b = reserve_head (length body) cid" and "8 \<le> length b" and "length body < 65536"
    and "0 \<le> fd" and "fd_ready w fd"
  shows "\<exists>w'. tcp_send_protocol_cmd w fd (Some b) (Some (body @ r)) = Inr (0, w') \<and>
    sends w fd (reserve_wire cid body) w'"
proof -
  obtain s where "w fd = Some s" "obliging RETRIES (sched s)" using assms(5) by (auto simp: fd_ready_def)
  then show ?thesis
    using tcp_send_protocol_cmd_obliging[of w fd s b "body @ r"] reserve_frame[OF assms(1-3), of r] assms(2,4)
    by (auto simp: cmd_valid_def)
qed

lemma parser_reserve_cmd_num:
  assumes "8 \<le> length cmd" and "uint (cmdid (head_of cmd)) = IH_RESERVE_CMD_ID_GET_SHM_NUM"
    and "0 \<le> fd" and "fd_ready w fd"
  shows "\<exists>w'. parser_reserve_cmd n fd w cmd = Inr (0, w') \<and>
    sends w fd (reserve_wire IH_RESERVE_CMD_ID_GET_SHM_NUM [word_of_int (nd_shm_node_num n)]) w'"
proof -
  obtain b where b: "set_pure_protocol_head (replicate 2000 0) 1 0 IH_RESERVE_CMD_ID_GET_SHM_NUM = Inr b"
    "length b = 2000" "head_of b = reserve_head 1 IH_RESERVE_CMD_ID_GET_SHM_NUM"
    using set_reserve_head[of "replicate 2000 0" IH_RESERVE_CMD_ID_GET_SHM_NUM 1]
    unfolding length_replicate by (auto simp: cmd_consts)
  let ?v = "word_of_int (nd_shm_node_num n) :: u8"
  let ?b = "b[8 := ?v]"
  have "drop 8 ?b = [?v] @ drop 9 b"
    using b(2) by (simp add: drop_update_swap Cons_nth_drop_Suc[symmetric])
  moreover have "head_of ?b = reserve_head (length [?v]) IH_RESERVE_CMD_ID_GET_SHM_NUM"
    using b(3) by (simp add: head_of_def)
  ultimately show ?thesis
    using send_reserve_frame[of ?b "[?v]" IH_RESERVE_CMD_ID_GET_SHM_NUM fd w "drop 9 b"] assms b
    by (simp add: parser_reserve_cmd_def GET_head poke_def cmd_consts)
qed

lemma parser_reserve_cmd_info:
  assumes "8 \<le> length cmd" and "uint (cmdid (head_of cmd)) = IH_RESERVE_CMD_ID_GET_SHM_INFO"
    and "0 \<le> fd" and "fd_ready w fd" and "shm_ok n" and "nd_shm_node_ptr n = Some ss"
    and "length ss \<le> 1638"
  shows "\<exists>w'. parser_reserve_cmd n fd w cmd = Inr (0, w') \<and>
    sends w fd (reserve_wire IH_RESERVE_CMD_ID_GET_SHM_INFO (shm_table_bytes ss)) w'"
proof -
  have ss: "length (shm_table_bytes ss) = 40 * length ss" "nd_shm_node_num n = int (length ss)"
    using assms(5,6) length_shm_table_bytes by (simp_all add: shm_ok_def)
  obtain b where b: "set_pure_protocol_head (replicate 2000 0) (int (length (shm_table_bytes ss))) 0
      IH_RESERVE_CMD_ID_GET_SHM_INFO = Inr b" "length b = 2000"
    "head_of b = reserve_head (length (shm_table_bytes ss)) IH_RESERVE_CMD_ID_GET_SHM_INFO"
    using set_reserve_head[of "replicate 2000 0" IH_RESERVE_CMD_ID_GET_SHM_INFO "length (shm_table_bytes ss)"]
    unfolding length_replicate by (auto simp: cmd_consts)
  then show ?thesis
    using send_reserve_frame[of b "shm_table_bytes ss" IH_RESERVE_CMD_ID_GET_SHM_INFO fd w "[]"] assms ss
    by (simp add: parser_reserve_cmd_def GET_head SHM_NODE_SIZE_def)
qed

text \<open>
  One service turn of the broker on a reserved request: the request is taken off the stream and
  the answer \<open>reply\<close> goes out on the same connection.
\<close>

lemma serve_node_reserve:
  fixes b :: broker and i :: nat
  defines "fd \<equiv> nd_connfd (br_nodes b ! i)"
  assumes "br_net b fd = Some s" and "obliging RETRIES (sched s)" and fd: "0 \<le> fd"
    and "incoming s = reserve_wire cid [] @ rest"
    and reply: "\<And>cmd w. 8 \<le> length cmd \<Longrightarrow> head_of cmd = reserve_head 0 cid \<Longrightarrow> fd_ready w fd \<Longrightarrow>
      \<exists>w'. parser_reserve_cmd (br_start b) fd w cmd = Inr (0, w') \<and> sends w fd reply w'"
  shows "\<exists>w w'. serve_node i b = Inr (b\<lparr>br_net := w'\<rparr>) \<and> received (br_net b) fd rest w \<and>
    sends w fd reply w'"
proof -
  let ?hb = "bytes_of_head (reserve_head 0 cid)"
  obtain w where w: "received (br_net b) fd rest w" and
    step: "serve_node i b = cbind (parser_reserve_cmd (br_start b) fd w (?hb @ [] @ replicate 4088 0))
      (\<lambda>(_, w2). Inr (b\<lparr>br_net := w2\<rparr>))"
    using serve_node_takes[of b i s ?hb "[]" rest] assms reserve_head_facts(1,3)
    by (auto simp: fd_def Let_def reserve_wire_def reserve_head_fields IH_CMD_TYPE_SEND_RESERVE_def)
  obtain w' where "parser_reserve_cmd (br_start b) fd w (?hb @ [] @ replicate 4088 0) = Inr (0, w')"
    "sends w fd reply w'"
    using reply[of "?hb @ [] @ replicate 4088 0" w] received_self[OF w] reserve_head_facts(1,2)
    by auto
  then show ?thesis using w step by auto
qed

lemma uint_reserve_cid:
  "uint (cmdid (reserve_head n IH_RESERVE_CMD_ID_GET_SHM_NUM)) = IH_RESERVE_CMD_ID_GET_SHM_NUM"
  "uint (cmdid (reserve_head n IH_RESERVE_CMD_ID_GET_SHM_INFO)) = IH_RESERVE_CMD_ID_GET_SHM_INFO"
  by (simp_all add: reserve_head_def cmd_consts)

lemma serve_node_num:
  fixes b :: broker and i :: nat
  defines "fd \<equiv> nd_connfd (br_nodes b ! i)"
  assumes "br_net b fd = Some s" and "obliging RETRIES (sched s)" and "0 \<le> fd"
    and "incoming s = reserve_wire IH_RESERVE_CMD_ID_GET_SHM_NUM [] @ rest"
  shows "\<exists>w w'. serve_node i b = Inr (b\<lparr>br_net := w'\<rparr>) \<and> received (br_net b) fd rest w \<and>
    sends w fd (reserve_wire IH_RESERVE_CMD_ID_GET_SHM_NUM [word_of_int (nd_shm_node_num (br_start b))]) w'"
proof -
  have "\<exists>w'. parser_reserve_cmd (br_start b) fd w cmd = Inr (0, w') \<and>
      sends w fd (reserve_wire IH_RESERVE_CMD_ID_GET_SHM_NUM [word_of_int (nd_shm_node_num (br_start b))]) w'"
    if "8 \<le> length cmd" "head_of cmd = reserve_head 0 IH_RESERVE_CMD_ID_GET_SHM_NUM" "fd_ready w fd" for cmd w
    using parser_reserve_cmd_num[of cmd fd w "br_start b"] that assms(4) uint_reserve_cid(1) by simp
  from serve_node_reserve[of b i s, OF _ _ _ _ this[unfolded fd_def]] show ?thesis
    using assms(2-5) by (simp add: fd_def)
qed

lemma serve_node_info:
  fixes b :: broker and i :: nat
  defines "fd \<equiv> nd_connfd (br_nodes b ! i)"
  assumes "br_net b fd = Some s" and "obliging RETRIES (sched s)" and "0 \<le> fd"
    and "incoming s = reserve_wire IH_RESERVE_CMD_ID_GET_SHM_INFO [] @ rest"
    and "shm_ok (br_start b)" and "nd_shm_node_ptr (br_start b) = Some ss" and "length ss \<le> 1638"
  shows "\<exists>w w'. serve_node i b = Inr (b\<lparr>br_net := w'\<rparr>) \<and> received (br_net b) fd rest w \<and>
    sends w fd (reserve_wire IH_RESERVE_CMD_ID_GET_SHM_INFO (shm_table_bytes ss)) w'"
proof -
  have "\<exists>w'. parser_reserve_cmd (br_start b) fd w cmd = Inr (0, w') \<and>
      sends w fd (reserve_wire IH_RESERVE_CMD_ID_GET_SHM_INFO (shm_table_bytes ss)) w'"
    if "8 \<le> length cmd" "head_of cmd = reserve_head 0 IH_RESERVE_CMD_ID_GET_SHM_INFO" "fd_ready w fd" for cmd w
    using parser_reserve_cmd_info[of cmd fd w "br_start b" ss] that assms(4,6,7,8) uint_reserve_cid(2) by simp
  from serve_node_reserve[of b i s, OF _ _ _ _ this[unfolded fd_def]] show ?thesis
    using assms(2-5) by (simp add: fd_def)
qed

text \<open>The client's side: sending the question, and the whole of \<open>ih_get_shm_infos\<close>.\<close>

lemma send_reserve_ok:
  assumes "0 \<le> client_connfd c" and "fd_ready (cl_net c) (client_connfd c)" and "0 \<le> cid"
  shows "\<exists>w. send_reserve cid c = Inr (0, c\<lparr>cl_net := w\<rparr>) \<and>
    sends (cl_net c) (client_connfd c) (reserve_wire cid []) w"
proof -
  obtain b where b: "set_pure_protocol_head (replicate 64 0) 0 IH_CMD_TYPE_SEND_RESERVE cid = Inr b"
    "length b = 64" "head_of b = reserve_head (length ([] :: bytes)) cid"
    using set_reserve_head[of "replicate 64 0" cid 0] assms(3)
    unfolding length_replicate by auto
  then show ?thesis
    using send_reserve_frame[OF b(3), of "client_connfd c" "cl_net c" "drop 8 b"] assms(1,2)
    by (auto simp: send_reserve_def)
qed

lemma sends_state:
  assumes "sends w fd bs w'" and "w fd = Some s"
  obtains s' where "w' fd = Some s'" and "outgoing s' = outgoing s @ bs" and "incoming s' = incoming s"
    and "suffix (sched s') (sched s)"
  using assms by (auto simp: sends_def)

lemma wait_num_reply:
  assumes "0 \<le> client_connfd c" and "cl_net c (client_connfd c) = Some s"
    and "obliging RETRIES (sched s)"
    and "incoming s = reserve_wire IH_RESERVE_CMD_ID_GET_SHM_NUM [v] @ rest"
  shows "\<exists>w s' r. wait_num (Suc fuel) c =
      Inr (Some (bytes_of_head (reserve_head 1 IH_RESERVE_CMD_ID_GET_SHM_NUM) @ v # r), c\<lparr>cl_net := w\<rparr>) \<and>
    w (client_connfd c) = Some s' \<and> incoming s' = rest \<and> outgoing s' = outgoing s \<and>
    obliging RETRIES (sched s')"
proof -
  let ?hb = "bytes_of_head (reserve_head 1 IH_RESERVE_CMD_ID_GET_SHM_NUM)"
  obtain w s' where "tcp_recv_protocol_cmd (cl_net c) (client_connfd c) (Some (replicate 8 0))
      (Some (replicate 56 0)) = Inr (0, Some ?hb, Some ([v] @ drop (length [v]) (replicate 56 0)), w)"
    "w (client_connfd c) = Some s'" "incoming s' = rest" "outgoing s' = outgoing s"
    "obliging RETRIES (sched s')"
    using recv_cmd_takes_frame[of "cl_net c" "client_connfd c" s "replicate 8 0" ?hb "[v]" rest
        "replicate 56 0"] assms reserve_head_facts(1,3)
    by (simp add: reserve_wire_def reserve_head_fields) blast
  then show ?thesis
    using uint_reserve_cid(1) reserve_head_facts
    by (intro exI[of _ w] exI[of _ s'] exI[of _ "replicate 55 0"]) (simp add: GET_head)
qed

lemma wait_infos_reply:
  assumes "0 \<le> client_connfd c" and "cl_net c (client_connfd c) = Some s"
    and "obliging RETRIES (sched s)" and "\<not> ih_recvIsShmIDs ret"
    and "incoming s = reserve_wire IH_RESERVE_CMD_ID_GET_SHM_INFO body @ rest"
    and "length body \<le> length buf" and "length body < 65536"
  shows "\<exists>w s'. wait_infos (replicate k False @ True # sls) ret buf dl c =
      Inr (length body, body @ drop (length body) buf, c\<lparr>cl_net := w\<rparr>) \<and>
    w (client_connfd c) = Some s' \<and> incoming s' = rest"
proof (induction k)
  case 0
  let ?hb = "bytes_of_head (reserve_head (length body) IH_RESERVE_CMD_ID_GET_SHM_INFO)"
  have "unat (bodylen (head_of ?hb)) = length body"
    using assms(7) unfolding reserve_head_facts(3) reserve_head_fields by (simp only: unat_of_nat) simp
  then obtain w' s' where "ih_recv_data buf c = Inr (IH_RESERVE_CMD_ID_GET_SHM_INFO, Some (length body),
      body @ drop (length body) buf, c\<lparr>cl_net := w'\<rparr>)" "w' (client_connfd c) = Some s'" "incoming s' = rest"
    using ih_recv_data_frame[of c s ?hb body rest buf] assms reserve_head_facts(1,3) uint_reserve_cid(2)
    by (auto simp: reserve_wire_def)
  then show ?case
    using assms(1)
    by (intro exI[of _ w'] exI[of _ s']) (simp add: ih_select_recv_ready_def ih_recvIsShmIDs_def)
next
  case (Suc k)
  then show ?case using assms(4) by (simp add: ih_select_recv_ready_def)
qed

lemma ih_get_shm_infos_ok:
  assumes "0 \<le> client_connfd c" and "cl_net c (client_connfd c) = Some s"
    and "obliging RETRIES (sched s)"
    and "incoming s = reserve_wire IH_RESERVE_CMD_ID_GET_SHM_NUM [of_nat (length ss)] @
      reserve_wire IH_RESERVE_CMD_ID_GET_SHM_INFO (shm_table_bytes ss) @ rest"
    and "list_all shm_node_ok ss" and "ss \<noteq> []" and "length ss < 256"
    and "40 * length ss \<le> length buf" and "length buf < 2 ^ 31"
  shows "\<exists>w s'. ih_get_shm_infos (replicate k False @ True # sls) buf (int (length buf)) c =
      Inr (int (length ss), shm_table_bytes ss @ drop (40 * length ss) buf, c\<lparr>cl_net := w\<rparr>) \<and>
    w (client_connfd c) = Some s' \<and> incoming s' = rest"
proof -
  let ?fd = "client_connfd c"
  have len: "length (shm_table_bytes ss) = 40 * length ss" by (rule length_shm_table_bytes[OF assms(5)])
  obtain w1 where w1: "send_reserve IH_RESERVE_CMD_ID_GET_SHM_NUM c = Inr (0, c\<lparr>cl_net := w1\<rparr>)"
    "sends (cl_net c) ?fd (reserve_wire IH_RESERVE_CMD_ID_GET_SHM_NUM []) w1"
    using send_reserve_ok[of c IH_RESERVE_CMD_ID_GET_SHM_NUM] assms(1-3)
    by (auto simp: fd_ready_def cmd_consts)
  obtain s1 where s1: "w1 ?fd = Some s1" "incoming s1 = incoming s" "suffix (sched s1) (sched s)"
    using sends_state[OF w1(2) assms(2)] by blast
  obtain w2 s2 r where w2: "wait_num (Suc (pending (c\<lparr>cl_net := w1\<rparr>))) (c\<lparr>cl_net := w1\<rparr>) =
      Inr (Some (bytes_of_head (reserve_head 1 IH_RESERVE_CMD_ID_GET_SHM_NUM) @ of_nat (length ss) # r),
        c\<lparr>cl_net := w2\<rparr>)"
    "w2 ?fd = Some s2" "obliging RETRIES (sched s2)"
    "incoming s2 = reserve_wire IH_RESERVE_CMD_ID_GET_SHM_INFO (shm_table_bytes ss) @ rest"
    using wait_num_reply[of "c\<lparr>cl_net := w1\<rparr>" s1 "of_nat (length ss)"] assms(1,3,4) s1 obliging_suffix
    by fastforce
  obtain w3 where w3: "send_reserve IH_RESERVE_CMD_ID_GET_SHM_INFO (c\<lparr>cl_net := w2\<rparr>) = Inr (0, c\<lparr>cl_net := w3\<rparr>)"
    "sends w2 ?fd (reserve_wire IH_RESERVE_CMD_ID_GET_SHM_INFO []) w3"
    using send_reserve_ok[of "c\<lparr>cl_net := w2\<rparr>" IH_RESERVE_CMD_ID_GET_SHM_INFO] assms(1) w2
    by (auto simp: fd_ready_def cmd_consts)
  obtain s3 where s3: "w3 ?fd = Some s3" "incoming s3 = incoming s2" "suffix (sched s3) (sched s2)"
    using sends_state[OF w3(2) w2(2)] by blast
  obtain w4 s4 where w4: "wait_infos (replicate k False @ True # sls) 0 buf 0 (c\<lparr>cl_net := w3\<rparr>) =
      Inr (40 * length ss, shm_table_bytes ss @ drop (40 * length ss) buf, c\<lparr>cl_net := w4\<rparr>)"
    "w4 ?fd = Some s4" "incoming s4 = rest"
    using wait_infos_reply[of "c\<lparr>cl_net := w3\<rparr>" s3 0 "shm_table_bytes ss" rest buf k sls 0] assms(1,7,8) s3 w2 len
      obliging_suffix by (fastforce simp: ih_recvIsShmIDs_def cmd_consts)
  have n: "unat (of_nat (length ss) :: u8) = length ss" using assms(7) by (simp only: unat_of_nat) simp
  then have n': "uint (of_nat (length ss) :: u8) = int (length ss)" by (metis uint_nat)
  have sz: "int (length buf) mod 2 ^ 64 = int (length buf)" using assms(9) by simp
  have "ih_get_shm_infos (replicate k False @ True # sls) buf (int (length buf)) c =
      Inr (int (length ss), shm_table_bytes ss @ drop (40 * length ss) buf, c\<lparr>cl_net := w4\<rparr>)"
    using assms(1,6,8) w1(1) w2(1) w3(1) w4(1) n n' sz reserve_head_facts(1)[of 1 IH_RESERVE_CMD_ID_GET_SHM_NUM]
    by (simp add: ih_get_shm_infos_def Let_def peek_def nth_append SHM_NODE_SIZE_def ih_send_getShmIDs_cmd_def)
  then show ?thesis using w4(2,3) by blast
qed

section \<open>Two service turns for the two questions\<close>

lemma received_then_sent:
  assumes "received w0 fd rest w" and "sends w fd bs w'" and "w0 fd = Some s"
  obtains s' where "w' fd = Some s'" and "outgoing s' = outgoing s @ bs" and "incoming s' = rest"
    and "obliging RETRIES (sched s')"
proof -
  obtain s1 where s1: "w fd = Some s1" "incoming s1 = rest" "outgoing s1 = outgoing s" "obliging RETRIES (sched s1)"
    using assms(1,3) by (auto simp: received_def)
  then show thesis using sends_state[OF assms(2) s1(1)] that obliging_suffix by metis
qed

lemma broker_answers_table:
  fixes b :: broker and i :: nat
  defines "fd \<equiv> nd_connfd (br_nodes b ! i)"
  assumes "br_net b fd = Some s" and "obliging RETRIES (sched s)" and "0 \<le> fd"
    and "incoming s = reserve_wire IH_RESERVE_CMD_ID_GET_SHM_NUM [] @
      reserve_wire IH_RESERVE_CMD_ID_GET_SHM_INFO [] @ rest"
    and "shm_ok (br_start b)" and "nd_shm_node_ptr (br_start b) = Some ss" and "length ss < 256"
  shows "\<exists>b1 b2 s2. serve_node i b = Inr b1 \<and> serve_node i b1 = Inr b2 \<and> br_static b2 = br_static b \<and>
    br_net b2 fd = Some s2 \<and> incoming s2 = rest \<and>
    outgoing s2 = outgoing s @ reserve_wire IH_RESERVE_CMD_ID_GET_SHM_NUM [of_nat (length ss)] @
      reserve_wire IH_RESERVE_CMD_ID_GET_SHM_INFO (shm_table_bytes ss)"
proof -
  have num: "word_of_int (nd_shm_node_num (br_start b)) = (of_nat (length ss) :: u8)"
    using assms(6,7) by (simp add: shm_ok_def)
  obtain w w1 where t1: "serve_node i b = Inr (b\<lparr>br_net := w1\<rparr>)"
    "received (br_net b) fd (reserve_wire IH_RESERVE_CMD_ID_GET_SHM_INFO [] @ rest) w"
    "sends w fd (reserve_wire IH_RESERVE_CMD_ID_GET_SHM_NUM [of_nat (length ss)]) w1"
    using serve_node_num[of b i s] assms(2-5) num by (auto simp: fd_def)
  obtain s1 where s1: "w1 fd = Some s1"
    "outgoing s1 = outgoing s @ reserve_wire IH_RESERVE_CMD_ID_GET_SHM_NUM [of_nat (length ss)]"
    "incoming s1 = reserve_wire IH_RESERVE_CMD_ID_GET_SHM_INFO [] @ rest" "obliging RETRIES (sched s1)"
    by (rule received_then_sent[OF t1(2,3) assms(2)])
  let ?b1 = "b\<lparr>br_net := w1\<rparr>"
  have "\<exists>v v'. serve_node i ?b1 = Inr (?b1\<lparr>br_net := v'\<rparr>) \<and>
      received (br_net ?b1) (nd_connfd (br_nodes ?b1 ! i)) rest v \<and>
      sends v (nd_connfd (br_nodes ?b1 ! i)) (reserve_wire IH_RESERVE_CMD_ID_GET_SHM_INFO (shm_table_bytes ss)) v'"
    by (rule serve_node_info) (use s1 assms(4,6-8) in \<open>simp_all add: fd_def\<close>)
  then obtain v v' where t2: "serve_node i ?b1 = Inr (?b1\<lparr>br_net := v'\<rparr>)" "received w1 fd rest v"
    "sends v fd (reserve_wire IH_RESERVE_CMD_ID_GET_SHM_INFO (shm_table_bytes ss)) v'"
    by (auto simp: fd_def)
  obtain s2 where "v' fd = Some s2" "incoming s2 = rest" "outgoing s2 = outgoing s1 @
      reserve_wire IH_RESERVE_CMD_ID_GET_SHM_INFO (shm_table_bytes ss)"
    by (rule received_then_sent[OF t2(2,3) s1(1)])
  then show ?thesis
    using t1(1) t2(1) s1(2)
    by (intro exI[of _ ?b1] exI[of _ "?b1\<lparr>br_net := v'\<rparr>"] exI[of _ s2]) (simp add: br_static_def)
qed

lemma find_first_distinct:
  "distinct (map f xs) \<Longrightarrow> i < length xs \<Longrightarrow> find_first (\<lambda>x. f x = f (xs ! i)) xs = Some i"
proof (induction xs arbitrary: i)
  case Nil
  then show ?case by simp
next
  case (Cons x xs)
  then show ?case by (cases i) (auto simp: image_iff dest: nth_mem)
qed

lemma lookup_in_table:
  assumes "list_all shm_node_ok ss" and "\<forall>s \<in> set ss. shm_name s \<noteq> []" and "distinct (map shm_name ss)"
    and "i < length ss"
  shows "ih_get_shm_by_name k (shm_table_bytes ss @ r) (shm_name (ss ! i)) =
    ih_get_shm_by_id k (sint (shm_id (ss ! i)))"
proof -
  have "shm_node_ok (ss ! i)" using assms(1,4) by (simp add: list_all_length)
  then show ?thesis
    using ih_get_shm_by_name_found[OF assms(1,2) _ find_first_distinct[OF assms(3,4)]]
    by (simp add: shm_node_ok_def)
qed

end
