(* ===== verification/JsonNumber.thy ===== *)
theory JsonNumber
  imports Complex_Main Prelude
begin

text \<open>
  The numbers of src/cJSON.c: IEEE double values, strtod on the characters parse\_number lets
  through, the saturating conversion to int, and compare\_double.  A finite double is the
  rational it denotes (the sign of zero, which no code here looks at, is not kept); strtod
  rounds to nearest, ties to even.
\<close>

section \<open>Doubles\<close>

datatype dbl = Fin rat | PInf | MInf | NaN

fun ilog2 :: "nat \<Rightarrow> nat" where
  "ilog2 n = (if n < 2 then 0 else Suc (ilog2 (n div 2)))"

declare ilog2.simps [simp del]

definition pow2 :: "int \<Rightarrow> rat" where
  "pow2 k = (if 0 \<le> k then 2 ^ nat k else 1 / 2 ^ nat (- k))"

text \<open>The binary exponent of a positive rational, from those of its numerator and denominator.\<close>

definition flog2 :: "rat \<Rightarrow> int" where
  "flog2 x = (case quotient_of x of (p, q) \<Rightarrow>
     let k = int (ilog2 (nat p)) - int (ilog2 (nat q)) in if x < pow2 k then k - 1 else k)"

definition round_half_even :: "rat \<Rightarrow> int" where
  "round_half_even x =
     (let f = \<lfloor>x\<rfloor>; d = x - of_int f in
      if d < 1 / 2 then f else if d > 1 / 2 then f + 1 else if even f then f else f + 1)"

definition DBL_MAX :: rat where
  "DBL_MAX = (2 ^ 53 - 1) * 2 ^ 971"

definition round_pos :: "rat \<Rightarrow> rat" where
  "round_pos x =
     (let e = max (flog2 x - 52) (-1074) in of_int (round_half_even (x / pow2 e)) * pow2 e)"

definition to_dbl :: "rat \<Rightarrow> dbl" where
  "to_dbl x =
     (if x = 0 then Fin 0
      else if x > 0 then (let r = round_pos x in if r > DBL_MAX then PInf else Fin r)
      else (let r = round_pos (- x) in if r > DBL_MAX then MInf else Fin (- r)))"

section \<open>Arithmetic and comparison\<close>

text \<open>
  The operators of C on doubles, under the library's symbols: the result of \<open>-\<close> and \<open>*\<close> is rounded,
  infinities follow IEEE 754, \<open>abs\<close> is fabs, and every comparison with a NaN is false.
\<close>

definition dbl_sgn :: "dbl \<Rightarrow> rat" where
  "dbl_sgn d = (case d of Fin x \<Rightarrow> sgn x | PInf \<Rightarrow> 1 | MInf \<Rightarrow> -1 | NaN \<Rightarrow> 0)"

instantiation dbl :: "{ord, minus, times, abs}"
begin

definition less_eq_dbl :: "dbl \<Rightarrow> dbl \<Rightarrow> bool" where
  "less_eq_dbl a b = (case (a, b) of
     (Fin x, Fin y) \<Rightarrow> x \<le> y | (NaN, _) \<Rightarrow> False | (_, NaN) \<Rightarrow> False | (MInf, _) \<Rightarrow> True | (_, PInf) \<Rightarrow> True
   | _ \<Rightarrow> False)"

definition less_dbl :: "dbl \<Rightarrow> dbl \<Rightarrow> bool" where
  "less_dbl a b \<longleftrightarrow> a \<le> b \<and> \<not> b \<le> a"

definition minus_dbl :: "dbl \<Rightarrow> dbl \<Rightarrow> dbl" where
  "minus_dbl a b = (case (a, b) of
     (Fin x, Fin y) \<Rightarrow> to_dbl (x - y) | (NaN, _) \<Rightarrow> NaN | (_, NaN) \<Rightarrow> NaN
   | (PInf, PInf) \<Rightarrow> NaN | (MInf, MInf) \<Rightarrow> NaN | (PInf, _) \<Rightarrow> PInf | (_, MInf) \<Rightarrow> PInf | _ \<Rightarrow> MInf)"

definition times_dbl :: "dbl \<Rightarrow> dbl \<Rightarrow> dbl" where
  "times_dbl a b = (case (a, b) of
     (Fin x, Fin y) \<Rightarrow> to_dbl (x * y)
   | _ \<Rightarrow> let s = dbl_sgn a * dbl_sgn b in if s = 0 then NaN else if s > 0 then PInf else MInf)"

definition abs_dbl :: "dbl \<Rightarrow> dbl" where
  "abs_dbl a = (case a of Fin x \<Rightarrow> Fin \<bar>x\<bar> | MInf \<Rightarrow> PInf | _ \<Rightarrow> a)"

instance ..

end

lemma dbl_compare [simp]:
  "Fin x \<le> Fin y \<longleftrightarrow> x \<le> y" "Fin x \<le> PInf" "MInf \<le> b \<longleftrightarrow> b \<noteq> NaN" "PInf \<le> b \<longleftrightarrow> b = PInf"
  "b \<le> MInf \<longleftrightarrow> b = MInf" "\<not> NaN \<le> b" "\<not> b \<le> NaN" "Fin x < Fin y \<longleftrightarrow> x < y"
  by (cases b; auto simp: less_eq_dbl_def less_dbl_def)+

lemma round_half_even_nonneg: "0 \<le> x \<Longrightarrow> 0 \<le> round_half_even x"
  by (auto simp: round_half_even_def Let_def)

lemma pow2_pos: "0 < pow2 k"
  by (simp add: pow2_def)

lemma round_pos_nonneg: "0 \<le> x \<Longrightarrow> 0 \<le> round_pos x"
  unfolding round_pos_def Let_def
  by (intro mult_nonneg_nonneg) (simp_all add: round_half_even_nonneg less_imp_le[OF pow2_pos])

lemma abs_to_dbl: "\<bar>to_dbl x\<bar> = to_dbl \<bar>x\<bar>"
  using round_pos_nonneg[of "\<bar>x\<bar>"] by (auto simp: to_dbl_def abs_dbl_def Let_def)

section \<open>strtod\<close>

definition is_digit :: "u8 \<Rightarrow> bool" where
  "is_digit b \<longleftrightarrow> 48 \<le> b \<and> b \<le> 57"

definition digit_val :: "u8 \<Rightarrow> nat" where
  "digit_val b = unat b - 48"

definition digits_val :: "bytes \<Rightarrow> nat" where
  "digits_val ds = foldl (\<lambda>n d. 10 * n + digit_val d) 0 ds"

definition pow10 :: "int \<Rightarrow> rat" where
  "pow10 k = (if 0 \<le> k then 10 ^ nat k else 1 / 10 ^ nat (- k))"

text \<open>An exponent part, if one starts here: its value and length (0 when there is none).\<close>

definition strtod_exp :: "bytes \<Rightarrow> int \<times> nat" where
  "strtod_exp s =
     (case s of
        [] \<Rightarrow> (0, 0)
      | c # r \<Rightarrow>
          if c \<noteq> 101 \<and> c \<noteq> 69 then (0, 0)
          else
            let neg = (r \<noteq> [] \<and> hd r = 45); sgn = (r \<noteq> [] \<and> (hd r = 43 \<or> hd r = 45));
                ds = takeWhile is_digit (if sgn then tl r else r)
            in if ds = [] then (0, 0)
               else ((if neg then - int (digits_val ds) else int (digits_val ds)),
                     1 + of_bool sgn + length ds))"

text \<open>
  The subject sequence of strtod for decimal numbers: an optional sign, digits with an optional
  point (at least one digit), an optional exponent.  The result is the value and the number of
  characters used, 0 when there is no number.
\<close>

definition strtod :: "bytes \<Rightarrow> dbl \<times> nat" where
  "strtod s =
     (let neg = (s \<noteq> [] \<and> hd s = 45); sgn = (s \<noteq> [] \<and> (hd s = 43 \<or> hd s = 45));
          s1 = (if sgn then tl s else s);
          ds = takeWhile is_digit s1; s2 = drop (length ds) s1;
          pt = (s2 \<noteq> [] \<and> hd s2 = 46);
          fs = (if pt then takeWhile is_digit (tl s2) else []);
          s3 = (if pt then drop (length fs) (tl s2) else s2)
      in if ds = [] \<and> fs = [] then (Fin 0, 0)
         else case strtod_exp s3 of (ex, el) \<Rightarrow>
           let v = of_nat (digits_val (ds @ fs)) * pow10 (ex - int (length fs)) in
           (to_dbl (if neg then - v else v),
            of_bool sgn + length ds + of_bool pt + length fs + el))"

section \<open>Conversion to int\<close>

definition INT_MAX :: int where "INT_MAX = 2147483647"
definition INT_MIN :: int where "INT_MIN = -2147483648"

definition rat_trunc :: "rat \<Rightarrow> int" where
  "rat_trunc x = (if 0 \<le> x then \<lfloor>x\<rfloor> else \<lceil>x\<rceil>)"

text \<open>
  The conversion of parse\_number, cJSON\_SetNumberHelper and cJSON\_CreateNumber.  For a NaN
  both comparisons are false and the conversion of a NaN to int is undefined.
\<close>

definition number_to_int :: "dbl \<Rightarrow> int cres" where
  "number_to_int number =
     (if number \<ge> Fin (of_int INT_MAX) then Inr INT_MAX
      else if number \<le> Fin (of_int INT_MIN) then Inr INT_MIN
      else case number of Fin x \<Rightarrow> Inr (rat_trunc x) | _ \<Rightarrow> Inl Uninit)"

lemma number_to_int_cases:
  "number_to_int d =
     (case d of
        PInf \<Rightarrow> Inr INT_MAX
      | MInf \<Rightarrow> Inr INT_MIN
      | NaN \<Rightarrow> Inl Uninit
      | Fin x \<Rightarrow> Inr (if x \<ge> of_int INT_MAX then INT_MAX
                       else if x \<le> of_int INT_MIN then INT_MIN else rat_trunc x))"
  by (cases d) (auto simp: number_to_int_def less_eq_dbl_def)

lemma number_to_int_range:
  "number_to_int d = Inr i \<Longrightarrow> INT_MIN \<le> i \<and> i \<le> INT_MAX"
proof (cases d)
  case (Fin x)
  assume a: "number_to_int d = Inr i"
  show ?thesis
  proof (cases "x \<ge> of_int INT_MAX \<or> x \<le> of_int INT_MIN")
    case True
    then show ?thesis using a Fin by (auto simp: number_to_int_cases INT_MAX_def INT_MIN_def split: if_splits)
  next
    case False
    then have i: "i = rat_trunc x" using a Fin by (simp add: number_to_int_cases)
    have "\<lfloor>x\<rfloor> \<le> INT_MAX" "INT_MIN \<le> \<lfloor>x\<rfloor>" "\<lceil>x\<rceil> \<le> INT_MAX" "INT_MIN \<le> \<lceil>x\<rceil>"
      using False by (simp_all add: floor_le_iff le_floor_iff ceiling_le_iff le_ceiling_iff)
    then show ?thesis using i by (simp add: rat_trunc_def)
  qed
qed (auto simp: number_to_int_cases INT_MAX_def INT_MIN_def)

section \<open>Small integers are exact\<close>

lemma ilog2_bounds: "0 < n \<Longrightarrow> 2 ^ ilog2 n \<le> n \<and> n < 2 ^ Suc (ilog2 n)"
proof (induction n rule: ilog2.induct)
  case (1 n)
  show ?case
  proof (cases "n < 2")
    case True
    then show ?thesis using "1.prems" by (simp add: ilog2.simps[of n])
  next
    case False
    then have "2 ^ ilog2 (n div 2) \<le> n div 2 \<and> n div 2 < 2 ^ Suc (ilog2 (n div 2))"
      using "1.IH" by auto
    moreover have "ilog2 n = Suc (ilog2 (n div 2))" using False by (simp add: ilog2.simps[of n])
    ultimately show ?thesis by (simp only: power_Suc) linarith
  qed
qed

lemma ilog2_le: "0 < n \<Longrightarrow> n < 2 ^ Suc k \<Longrightarrow> ilog2 n \<le> k"
proof (rule ccontr)
  assume n: "0 < n" "n < 2 ^ Suc k" and "\<not> ilog2 n \<le> k"
  then have "(2::nat) ^ Suc k \<le> 2 ^ ilog2 n" by (intro power_increasing) auto
  then show False using ilog2_bounds[OF n(1)] n(2) by linarith
qed

lemma round_half_even_of_int: "round_half_even (of_int k) = k"
  by (simp add: round_half_even_def)

lemma round_pos_nat:
  assumes "0 < n" and "n < 2 ^ 53"
  shows "round_pos (of_nat n) = of_nat n"
proof -
  have q: "quotient_of (of_nat n) = (int n, 1)"
    using quotient_of_int[of "int n"] by (simp add: Rat.of_int_def)
  have "ilog2 n \<le> 52" using ilog2_le[of n 52] assms by simp
  moreover have "ilog2 1 = 0" by (simp add: ilog2.simps)
  ultimately have "flog2 (of_nat n) \<le> 52" by (simp add: flog2_def q Let_def)
  moreover define e where "e = max (flog2 (of_nat n) - 52) (-1074)"
  ultimately have e: "e \<le> 0" by simp
  have dv: "of_nat n / pow2 e = of_int (int n * 2 ^ nat (- e))"
    using e by (cases "e = 0") (simp_all add: pow2_def)
  have "round_half_even (of_nat n / pow2 e) = int n * 2 ^ nat (- e)"
    unfolding dv by (rule round_half_even_of_int)
  moreover have "of_int (int n * 2 ^ nat (- e)) * pow2 e = (of_nat n :: rat)"
    using e by (cases "e = 0") (simp_all add: pow2_def)
  ultimately show ?thesis by (simp add: round_pos_def e_def[symmetric] Let_def)
qed

lemma to_dbl_int:
  assumes "\<bar>i\<bar> < 2 ^ 53"
  shows "to_dbl (of_int i) = Fin (of_int i)"
proof -
  have big: "(of_nat n :: rat) \<le> DBL_MAX" if "n < 2 ^ 53" for n :: nat
  proof -
    have "(of_nat n :: rat) \<le> of_nat (2 ^ 53 - 1)" using that by (intro of_nat_mono) simp
    also have "\<dots> \<le> DBL_MAX" by (simp add: DBL_MAX_def)
    finally show ?thesis .
  qed
  consider "i = 0" | (pos) n where "i = int n" "0 < n" "n < 2 ^ 53" | (neg) n where "i = - int n" "0 < n" "n < 2 ^ 53"
    using assms by (cases i rule: int_cases2) auto
  then show ?thesis
  proof cases
    case pos
    then show ?thesis using round_pos_nat[OF pos(2,3)] big[OF pos(3)] by (simp add: to_dbl_def Let_def)
  next
    case neg
    then show ?thesis using round_pos_nat[OF neg(2,3)] big[OF neg(3)] by (simp add: to_dbl_def Let_def)
  qed (simp add: to_dbl_def)
qed

lemma number_to_int_exact:
  assumes "INT_MIN \<le> i" and "i \<le> INT_MAX"
  shows "number_to_int (Fin (of_int i)) = Inr i"
  using assms by (auto simp: number_to_int_cases rat_trunc_def INT_MAX_def INT_MIN_def)

section \<open>strtod reads a decimal integer\<close>

lemma strtod_digits:
  assumes "ds \<noteq> []" and "\<forall>d \<in> set ds. is_digit d" and "digits_val ds < 2 ^ 53"
  shows "strtod (45 # ds) = (Fin (- of_nat (digits_val ds)), Suc (length ds))"
    and "strtod ds = (Fin (of_nat (digits_val ds)), length ds)"
proof -
  have tw: "takeWhile is_digit ds = ds" using assms(2) by (simp add: takeWhile_eq_all_conv)
  have hd: "hd ds \<noteq> 43" "hd ds \<noteq> 45"
    using assms(2) hd_in_set[OF assms(1)] by (auto simp: is_digit_def)
  have p: "to_dbl (of_nat (digits_val ds)) = Fin (of_nat (digits_val ds))"
    using to_dbl_int[of "int (digits_val ds)"] assms(3) by simp
  have n: "to_dbl (- of_nat (digits_val ds)) = Fin (- of_nat (digits_val ds))"
    using to_dbl_int[of "- int (digits_val ds)"] assms(3) by simp
  show "strtod (45 # ds) = (Fin (- of_nat (digits_val ds)), Suc (length ds))"
    using assms(1) n by (simp add: tw strtod_def Let_def strtod_exp_def pow10_def)
  show "strtod ds = (Fin (of_nat (digits_val ds)), length ds)"
    using assms(1) hd p by (simp add: tw strtod_def Let_def strtod_exp_def pow10_def)
qed

lemma strtod_used: "snd (strtod s) \<le> length s"
proof -
  define sgn where "sgn = (s \<noteq> [] \<and> (hd s = 43 \<or> hd s = 45))"
  define s1 where "s1 = (if sgn then tl s else s)"
  define ds where "ds = takeWhile is_digit s1"
  define s2 where "s2 = drop (length ds) s1"
  define pt where "pt = (s2 \<noteq> [] \<and> hd s2 = 46)"
  define fs where "fs = (if pt then takeWhile is_digit (tl s2) else [])"
  define s3 where "s3 = (if pt then drop (length fs) (tl s2) else s2)"
  have l1: "of_bool sgn + length s1 = length s" by (cases s) (auto simp: s1_def sgn_def)
  have l2: "length ds + length s2 = length s1"
    using length_takeWhile_le[of is_digit s1] by (simp add: s2_def ds_def)
  have l3: "of_bool pt + length fs + length s3 = length s2"
  proof (cases pt)
    case True
    then have "s2 \<noteq> []" by (simp add: pt_def)
    moreover have "length fs \<le> length (tl s2)"
      using length_takeWhile_le[of is_digit "tl s2"] by (simp add: fs_def)
    ultimately show ?thesis using True by (cases s2) (simp_all add: s3_def)
  qed (simp add: s3_def fs_def)
  have le: "snd (strtod_exp s3) \<le> length s3"
  proof (cases s3)
    case (Cons c r)
    have "length (takeWhile is_digit (tl r)) \<le> length (tl r)" "length (takeWhile is_digit r) \<le> length r"
      by (rule length_takeWhile_le)+
    then show ?thesis using Cons by (cases r) (auto simp: strtod_exp_def Let_def)
  qed (simp add: strtod_exp_def)
  define v where "v ex = (let v = of_nat (digits_val (ds @ fs)) * pow10 (ex - int (length fs)) in
      if s \<noteq> [] \<and> hd s = 45 then - v else v)" for ex
  have "strtod s = (if ds = [] \<and> fs = [] then (Fin 0, 0) else case strtod_exp s3 of (ex, el) \<Rightarrow>
      (to_dbl (v ex), of_bool sgn + length ds + of_bool pt + length fs + el))"
    by (simp only: strtod_def Let_def v_def s3_def fs_def pt_def s2_def ds_def s1_def sgn_def)
  then have "snd (strtod s) \<le> of_bool sgn + length ds + of_bool pt + length fs + snd (strtod_exp s3)"
    by (simp split: prod.splits)
  then show ?thesis using l1 l2 l3 le by linarith
qed

text \<open>Only infinities and finite values come out.\<close>

lemma to_dbl_not_NaN: "to_dbl x \<noteq> NaN"
  by (simp add: to_dbl_def Let_def)

lemma strtod_not_NaN: "fst (strtod s) \<noteq> NaN"
  unfolding strtod_def Let_def case_prod_beta by (simp only: if_distrib[of fst] fst_conv split: if_split)
    (simp add: to_dbl_not_NaN)

end
