(* ===== verification/JsonTree.thy ===== *)
theory JsonTree
  imports JsonNumber
begin

text \<open>
  The items of src/cJSON.c as values: an item with its list of children (the doubly linked
  list behind \<open>child\<close>), the type tests, the lookups and the blocks of memory an item owns.
  The strings are the bytes stored before the terminator; the code reads them as C strings,
  which is \<open>cstr\<close> here.
\<close>

section \<open>Items\<close>

datatype cJSON =
  Item (c_type: int) (valuestring: "bytes option") (valueint: int) (valuedouble: dbl)
    (c_string: "bytes option") (children: "cJSON list")

definition cJSON_Invalid :: int where "cJSON_Invalid = 0"
definition cJSON_False :: int where "cJSON_False = 1"
definition cJSON_True :: int where "cJSON_True = 2"
definition cJSON_NULL :: int where "cJSON_NULL = 4"
definition cJSON_Number :: int where "cJSON_Number = 8"
definition cJSON_String :: int where "cJSON_String = 16"
definition cJSON_Array :: int where "cJSON_Array = 32"
definition cJSON_Object :: int where "cJSON_Object = 64"
definition cJSON_Raw :: int where "cJSON_Raw = 128"
definition cJSON_IsReference :: int where "cJSON_IsReference = 256"
definition cJSON_StringIsConst :: int where "cJSON_StringIsConst = 512"

lemmas json_types =
  cJSON_Invalid_def cJSON_False_def cJSON_True_def cJSON_NULL_def cJSON_Number_def
  cJSON_String_def cJSON_Array_def cJSON_Object_def cJSON_Raw_def cJSON_IsReference_def
  cJSON_StringIsConst_def

definition blank_item :: cJSON where
  "blank_item = Item 0 None 0 (Fin 0) None []"

definition with_type :: "int \<Rightarrow> cJSON \<Rightarrow> cJSON" where
  "with_type t i = Item t (valuestring i) (valueint i) (valuedouble i) (c_string i) (children i)"

section \<open>Type tests\<close>

definition is_type :: "int \<Rightarrow> cJSON option \<Rightarrow> bool" where
  "is_type t i = (case i of None \<Rightarrow> False | Some x \<Rightarrow> c_type x AND 0xFF = t)"

definition cJSON_IsInvalid :: "cJSON option \<Rightarrow> bool" where "cJSON_IsInvalid = is_type cJSON_Invalid"
definition cJSON_IsFalse :: "cJSON option \<Rightarrow> bool" where "cJSON_IsFalse = is_type cJSON_False"
definition cJSON_IsTrue :: "cJSON option \<Rightarrow> bool" where "cJSON_IsTrue = is_type cJSON_True"
definition cJSON_IsNull :: "cJSON option \<Rightarrow> bool" where "cJSON_IsNull = is_type cJSON_NULL"
definition cJSON_IsNumber :: "cJSON option \<Rightarrow> bool" where "cJSON_IsNumber = is_type cJSON_Number"
definition cJSON_IsString :: "cJSON option \<Rightarrow> bool" where "cJSON_IsString = is_type cJSON_String"
definition cJSON_IsArray :: "cJSON option \<Rightarrow> bool" where "cJSON_IsArray = is_type cJSON_Array"
definition cJSON_IsObject :: "cJSON option \<Rightarrow> bool" where "cJSON_IsObject = is_type cJSON_Object"
definition cJSON_IsRaw :: "cJSON option \<Rightarrow> bool" where "cJSON_IsRaw = is_type cJSON_Raw"

definition cJSON_IsBool :: "cJSON option \<Rightarrow> bool" where
  "cJSON_IsBool i = (case i of None \<Rightarrow> False | Some x \<Rightarrow> c_type x AND (cJSON_True OR cJSON_False) \<noteq> 0)"

definition cJSON_GetStringValue :: "cJSON option \<Rightarrow> bytes option" where
  "cJSON_GetStringValue i = (if \<not> cJSON_IsString i then None else valuestring (the i))"

definition cJSON_GetNumberValue :: "cJSON option \<Rightarrow> dbl" where
  "cJSON_GetNumberValue i = (if \<not> cJSON_IsNumber i then NaN else valuedouble (the i))"

section \<open>Lookups\<close>

text \<open>The count is a size\_t, returned as an int.\<close>

definition cJSON_GetArraySize :: "cJSON option \<Rightarrow> int" where
  "cJSON_GetArraySize a = (case a of None \<Rightarrow> 0 | Some x \<Rightarrow> sint (of_nat (length (children x)) :: u32))"

fun nth_child :: "cJSON list \<Rightarrow> nat \<Rightarrow> cJSON option" where
  "nth_child [] i = None"
| "nth_child (x # xs) 0 = Some x"
| "nth_child (x # xs) (Suc i) = nth_child xs i"

definition get_array_item :: "cJSON option \<Rightarrow> nat \<Rightarrow> cJSON option" where
  "get_array_item a i = (case a of None \<Rightarrow> None | Some x \<Rightarrow> nth_child (children x) i)"

definition cJSON_GetArrayItem :: "cJSON option \<Rightarrow> int \<Rightarrow> cJSON option" where
  "cJSON_GetArrayItem a i = (if i < 0 then None else get_array_item a (nat i))"

definition tolower :: "u8 \<Rightarrow> u8" where
  "tolower b = (if 65 \<le> b \<and> b \<le> 90 then b + 32 else b)"

text \<open>The comparison loop, on the characters before the terminators.\<close>

fun ci_cmp :: "bytes \<Rightarrow> bytes \<Rightarrow> int" where
  "ci_cmp [] [] = 0"
| "ci_cmp [] (b # bs) = - uint (tolower b)"
| "ci_cmp (a # as) [] = uint (tolower a)"
| "ci_cmp (a # as) (b # bs) =
     (if tolower a = tolower b then ci_cmp as bs else uint (tolower a) - uint (tolower b))"

definition case_insensitive_strcmp :: "bytes option \<Rightarrow> bytes option \<Rightarrow> int" where
  "case_insensitive_strcmp s1 s2 =
     (case (s1, s2) of (Some a, Some b) \<Rightarrow> ci_cmp (cstr a) (cstr b) | _ \<Rightarrow> 1)"

fun find_cs :: "bytes \<Rightarrow> cJSON list \<Rightarrow> cJSON option" where
  "find_cs name [] = None"
| "find_cs name (x # xs) =
     (case c_string x of
        None \<Rightarrow> Some x
      | Some s \<Rightarrow> if cstr name = cstr s then Some x else find_cs name xs)"

fun find_ci :: "bytes \<Rightarrow> cJSON list \<Rightarrow> cJSON option" where
  "find_ci name [] = None"
| "find_ci name (x # xs) =
     (if case_insensitive_strcmp (Some name) (c_string x) = 0 then Some x else find_ci name xs)"

definition get_object_item :: "cJSON option \<Rightarrow> bytes option \<Rightarrow> bool \<Rightarrow> cJSON option" where
  "get_object_item object name case_sensitive =
     (case (object, name) of
        (Some ob, Some nm) \<Rightarrow>
          (case (if case_sensitive then find_cs nm (children ob) else find_ci nm (children ob)) of
             None \<Rightarrow> None
           | Some x \<Rightarrow> if c_string x = None then None else Some x)
      | _ \<Rightarrow> None)"

definition cJSON_GetObjectItem :: "cJSON option \<Rightarrow> bytes option \<Rightarrow> cJSON option" where
  "cJSON_GetObjectItem ob nm = get_object_item ob nm False"

definition cJSON_GetObjectItemCaseSensitive :: "cJSON option \<Rightarrow> bytes option \<Rightarrow> cJSON option" where
  "cJSON_GetObjectItemCaseSensitive ob nm = get_object_item ob nm True"

definition cJSON_HasObjectItem :: "cJSON option \<Rightarrow> bytes option \<Rightarrow> bool" where
  "cJSON_HasObjectItem ob nm \<longleftrightarrow> cJSON_GetObjectItem ob nm \<noteq> None"

lemma tolower_0: "tolower b = 0 \<Longrightarrow> b = 0"
proof (cases "65 \<le> b \<and> b \<le> 90")
  case True
  assume "tolower b = 0"
  then have "b + 32 = 0" using True by (simp add: tolower_def)
  then have "b = - 32" by (simp add: eq_neg_iff_add_eq_0)
  then show ?thesis using True by simp
qed (auto simp: tolower_def)

lemma ci_cmp_eq_0: "ci_cmp a b = 0 \<and> 0 \<notin> set a \<and> 0 \<notin> set b \<Longrightarrow> map tolower a = map tolower b"
proof (induction a b rule: ci_cmp.induct)
  case (2 b bs)
  then have "tolower b = 0" by (simp add: uint_0_iff)
  then have "b = 0" by (rule tolower_0)
  then show ?case using 2 by simp
next
  case (3 a as)
  then have "tolower a = 0" by (simp add: uint_0_iff)
  then have "a = 0" by (rule tolower_0)
  then show ?case using 3 by simp
qed (auto split: if_splits simp: word_uint_eq_iff)

lemma ci_cmp_refl: "map tolower a = map tolower b \<Longrightarrow> ci_cmp a b = 0"
  by (induction a b rule: ci_cmp.induct) auto

lemma nth_child_nth: "nth_child xs i = (if i < length xs then Some (xs ! i) else None)"
  by (induction xs i rule: nth_child.induct) auto

text \<open>
  On an object, whose members all have names, the case-sensitive lookup returns the first
  member with the name and the other one the first whose name agrees up to ASCII case.
\<close>

lemma find_cs_first:
  assumes "\<forall>x \<in> set xs. c_string x \<noteq> None"
  shows "find_cs nm xs = find (\<lambda>x. cstr nm = cstr (the (c_string x))) xs"
  using assms by (induction xs) auto

lemma find_ci_first:
  assumes "\<forall>x \<in> set xs. c_string x \<noteq> None"
  shows "find_ci nm xs = find (\<lambda>x. map tolower (cstr nm) = map tolower (cstr (the (c_string x)))) xs"
  using assms
proof (induction xs)
  case (Cons x xs)
  then obtain s where "c_string x = Some s" by auto
  moreover have "ci_cmp (cstr nm) (cstr s) = 0 \<longleftrightarrow> map tolower (cstr nm) = map tolower (cstr s)"
    using ci_cmp_eq_0[of "cstr nm" "cstr s"] ci_cmp_refl cstr_NUL_free by blast
  ultimately show ?case using Cons by (simp add: case_insensitive_strcmp_def)
qed simp

section \<open>Memory\<close>

text \<open>
  The allocator: whether the n-th call succeeds is given by \<open>h_ok\<close>; \<open>h_live\<close> counts the blocks
  that are allocated and not yet freed.
\<close>

record heap =
  h_ok :: "nat \<Rightarrow> bool"
  h_calls :: nat
  h_live :: int

definition allocate :: "heap \<Rightarrow> bool \<times> heap" where
  "allocate h =
     (if h_ok h (h_calls h) then (True, h\<lparr>h_calls := h_calls h + 1, h_live := h_live h + 1\<rparr>)
      else (False, h\<lparr>h_calls := h_calls h + 1\<rparr>))"

definition release :: "int \<Rightarrow> heap \<Rightarrow> heap" where
  "release n h = h\<lparr>h_live := h_live h - n\<rparr>"

text \<open>
  The blocks cJSON\_Delete frees for an item: the item, its strings unless they are not its
  own, and its children unless it is a reference.
\<close>

fun blocks :: "cJSON \<Rightarrow> int" where
  "blocks (Item t vs vi vd s ch) =
     1 + (if t AND cJSON_IsReference = 0 \<and> vs \<noteq> None then 1 else 0) +
     (if t AND cJSON_StringIsConst = 0 \<and> s \<noteq> None then 1 else 0) +
     (if t AND cJSON_IsReference = 0 then sum_list (map blocks ch) else 0)"

definition cJSON_Delete :: "cJSON list \<Rightarrow> heap \<Rightarrow> heap" where
  "cJSON_Delete items h = release (sum_list (map blocks items)) h"

definition cJSON_New_Item :: "heap \<Rightarrow> cJSON option \<times> heap" where
  "cJSON_New_Item h = (case allocate h of (ok, h') \<Rightarrow> (if ok then Some blank_item else None, h'))"

lemma blocks_pos: "0 < blocks i"
proof (induction i)
  case (Item t vs vi vd s ch)
  have "0 \<le> sum_list (map blocks ch)" using Item by (intro sum_list_nonneg) force
  then show ?case by simp
qed

end
