(* ===== verification/JsonParse.thy ===== *)
theory JsonParse
  imports JsonTree
begin

text \<open>
  The parser of src/cJSON.c.  A \<open>parse_buffer\<close> is the memory the text lies in, the length the
  parser was told, the offset, the nesting depth and the allocator.  Every access the code
  makes is an access to that memory and faults outside it.  The mutually recursive functions
  take fuel; \<open>parse_value_safe\<close> of JsonSafe shows how much is enough and that on terminated
  text nothing faults.
\<close>

section \<open>The buffer\<close>

record parse_buffer =
  content :: bytes
  pb_length :: nat
  offset :: nat
  depth :: nat
  pb_heap :: heap

definition can_read :: "parse_buffer \<Rightarrow> nat \<Rightarrow> bool" where
  "can_read b n \<longleftrightarrow> offset b + n \<le> pb_length b"

definition can_access_at_index :: "parse_buffer \<Rightarrow> nat \<Rightarrow> bool" where
  "can_access_at_index b i \<longleftrightarrow> offset b + i < pb_length b"

definition at_offset :: "parse_buffer \<Rightarrow> nat \<Rightarrow> u8 cres" where
  "at_offset b i = peek (content b) (offset b + i)"

text \<open>The condition \<open>can_access_at_index(b, 0) && buffer_at_offset(b)[0] == c\<close>.\<close>

definition looking_at :: "parse_buffer \<Rightarrow> u8 \<Rightarrow> bool cres" where
  "looking_at b c =
     (if can_access_at_index b 0 then cbind (at_offset b 0) (\<lambda>x. Inr (x = c)) else Inr False)"

definition starts_with :: "parse_buffer \<Rightarrow> bytes \<Rightarrow> bool cres" where
  "starts_with b s =
     (if can_read b (length s) then cbind (slice (content b) (offset b) (length s)) (\<lambda>x. Inr (x = s))
      else Inr False)"

function ws_loop :: "parse_buffer \<Rightarrow> parse_buffer cres" where
  "ws_loop b =
     (if can_access_at_index b 0 then
        cbind (at_offset b 0) (\<lambda>x.
        if x \<le> 32 then ws_loop (b\<lparr>offset := offset b + 1\<rparr>) else Inr b)
      else Inr b)"
  by pat_completeness auto
termination
  by (relation "measure (\<lambda>b. pb_length b - offset b)") (auto simp: can_access_at_index_def)

declare ws_loop.simps [simp del]

definition buffer_skip_whitespace :: "parse_buffer \<Rightarrow> parse_buffer cres" where
  "buffer_skip_whitespace b =
     (if \<not> can_access_at_index b 0 then Inr b
      else cbind (ws_loop b) (\<lambda>b1.
        Inr (if offset b1 = pb_length b1 then b1\<lparr>offset := offset b1 - 1\<rparr> else b1)))"

definition skip_utf8_bom :: "parse_buffer \<Rightarrow> parse_buffer option cres" where
  "skip_utf8_bom b =
     (if offset b \<noteq> 0 then Inr None
      else if can_access_at_index b 4 then
        cbind (slice (content b) (offset b) 3) (\<lambda>x.
        Inr (Some (if x = [0xEF, 0xBB, 0xBF] then b\<lparr>offset := offset b + 3\<rparr> else b)))
      else Inr (Some b))"

section \<open>Strings\<close>

definition hex_digit :: "u8 \<Rightarrow> u32 option" where
  "hex_digit c =
     (if 48 \<le> c \<and> c \<le> 57 then Some (ucast c - 48)
      else if 65 \<le> c \<and> c \<le> 70 then Some (10 + ucast c - 65)
      else if 97 \<le> c \<and> c \<le> 102 then Some (10 + ucast c - 97)
      else None)"

text \<open>The loop over the four digits from digit \<open>i\<close> on; anything else makes the result 0.\<close>

function parse_hex4_loop :: "bytes \<Rightarrow> nat \<Rightarrow> nat \<Rightarrow> u32 \<Rightarrow> u32 cres" where
  "parse_hex4_loop m p i h =
     (if i < 4 then
        cbind (peek m (p + i)) (\<lambda>c.
        case hex_digit c of
          None \<Rightarrow> Inr 0
        | Some d \<Rightarrow> parse_hex4_loop m p (Suc i) (if i < 3 then push_bit 4 (h + d) else h + d))
      else Inr h)"
  by pat_completeness auto
termination by (relation "measure (\<lambda>(m, p, i, h). 4 - i)") auto

definition parse_hex4 :: "bytes \<Rightarrow> nat \<Rightarrow> u32 cres" where
  "parse_hex4 m p = parse_hex4_loop m p 0 0"

text \<open>The bytes of a code point, as the encoding loop produces them.\<close>

definition utf8_tail :: "u32 \<Rightarrow> u8" where
  "utf8_tail cp = ucast ((cp OR 0x80) AND 0xBF)"

definition utf8_encode :: "u32 \<Rightarrow> bytes option" where
  "utf8_encode cp =
     (if cp < 0x80 then Some [ucast (cp AND 0x7F)]
      else if cp < 0x800 then
        Some [ucast ((drop_bit 6 cp OR 0xC0) AND 0xFF), utf8_tail cp]
      else if cp < 0x10000 then
        Some [ucast ((drop_bit 12 cp OR 0xE0) AND 0xFF), utf8_tail (drop_bit 6 cp), utf8_tail cp]
      else if cp \<le> 0x10FFFF then
        Some [ucast ((drop_bit 18 cp OR 0xF0) AND 0xFF), utf8_tail (drop_bit 12 cp),
          utf8_tail (drop_bit 6 cp), utf8_tail cp]
      else None)"

text \<open>
  \<open>utf16_literal_to_utf8\<close> on the literal at \<open>p\<close>, with the string ending at \<open>e\<close>: the length of
  the literal and the bytes stored, or \<open>None\<close> for 0, failure.
\<close>

definition utf16_literal_to_utf8 :: "bytes \<Rightarrow> nat \<Rightarrow> nat \<Rightarrow> (nat \<times> bytes) option cres" where
  "utf16_literal_to_utf8 m p e =
     (if int e - int p < 6 then Inr None
      else cbind (parse_hex4 m (p + 2)) (\<lambda>first_code.
        if 0xDC00 \<le> first_code \<and> first_code \<le> 0xDFFF then Inr None
        else if 0xD800 \<le> first_code \<and> first_code \<le> 0xDBFF then
          (if int e - int (p + 6) < 6 then Inr None
           else cbind (peek m (p + 6)) (\<lambda>c0. cbind (peek m (p + 7)) (\<lambda>c1.
             if c0 \<noteq> 92 \<or> c1 \<noteq> 117 then Inr None
             else cbind (parse_hex4 m (p + 8)) (\<lambda>second_code.
               if second_code < 0xDC00 \<or> second_code > 0xDFFF then Inr None
               else Inr (map_option (Pair 12) (utf8_encode
                 (0x10000 + (push_bit 10 (first_code AND 0x3FF) OR (second_code AND 0x3FF)))))))))
        else Inr (map_option (Pair 6) (utf8_encode first_code))))"

text \<open>The scan for the closing quote: its position and the number of escapes, or \<open>None\<close>.\<close>

function scan_end :: "bytes \<Rightarrow> nat \<Rightarrow> nat \<Rightarrow> nat \<Rightarrow> (nat \<times> nat) option cres" where
  "scan_end m len e skipped =
     (if e < len then
        cbind (peek m e) (\<lambda>c.
        if c = 34 then Inr (Some (e, skipped))
        else if c = 92 then
          (if Suc e \<ge> len then Inr None else scan_end m len (e + 2) (Suc skipped))
        else scan_end m len (Suc e) skipped)
      else Inr (Some (e, skipped)))"
  by pat_completeness auto
termination by (relation "measure (\<lambda>(m, len, e, skipped). len - e)") auto

text \<open>
  Storing bytes at the output pointer: \<open>out\<close> is what has been written so far into a block of
  \<open>cap\<close> bytes.
\<close>

definition emit :: "nat \<Rightarrow> bytes \<Rightarrow> bytes \<Rightarrow> bytes cres" where
  "emit cap out bs = (if length out + length bs \<le> cap then Inr (out @ bs) else Inl OOB)"

definition simple_escape :: "u8 \<Rightarrow> u8 option" where
  "simple_escape c =
     (if c = 98 then Some 8 else if c = 102 then Some 12 else if c = 110 then Some 10
      else if c = 114 then Some 13 else if c = 116 then Some 9
      else if c = 34 \<or> c = 92 \<or> c = 47 then Some c else None)"

text \<open>
  The copying loop, from \<open>p\<close>: the unescaped bytes, or in \<open>Inl p\<close> of the inner sum the position
  at which it failed.
\<close>

function unescape :: "bytes \<Rightarrow> nat \<Rightarrow> nat \<Rightarrow> nat \<Rightarrow> bytes \<Rightarrow> (nat + bytes) cres" where
  "unescape m e cap p out =
     (if p < e then
        cbind (peek m p) (\<lambda>c.
        if c \<noteq> 92 then cbind (emit cap out [c]) (\<lambda>out'. unescape m e cap (Suc p) out')
        else cbind (peek m (Suc p)) (\<lambda>c1.
          if c1 = 117 then
            cbind (utf16_literal_to_utf8 m p e) (\<lambda>r.
            case r of
              None \<Rightarrow> Inr (Inl p)
            | Some (n, bs) \<Rightarrow>
                if n = 0 then Inr (Inl p)
                else cbind (emit cap out bs) (\<lambda>out'. unescape m e cap (p + n) out'))
          else
            (case simple_escape c1 of
               None \<Rightarrow> Inr (Inl p)
             | Some x \<Rightarrow> cbind (emit cap out [x]) (\<lambda>out'. unescape m e cap (p + 2) out'))))
      else Inr (Inr out))"
  by pat_completeness auto
termination by (relation "measure (\<lambda>(m, e, cap, p, out). e - p)") auto

declare parse_hex4_loop.simps [simp del] scan_end.simps [simp del] unescape.simps [simp del]

text \<open>
  \<open>parse_string\<close> into \<open>item\<close>; \<open>None\<close> is the result false.  The block for the output is allocated
  once its size is known and freed again when the copying loop fails.
\<close>

definition parse_string :: "cJSON \<Rightarrow> parse_buffer \<Rightarrow> (cJSON option \<times> parse_buffer) cres" where
  "parse_string item b =
     (let start = Suc (offset b) in
      cbind (at_offset b 0) (\<lambda>q.
      if q \<noteq> 34 then Inr (None, b\<lparr>offset := start\<rparr>)
      else cbind (scan_end (content b) (pb_length b) start 0) (\<lambda>sc.
        case sc of
          None \<Rightarrow> Inr (None, b\<lparr>offset := start\<rparr>)
        | Some (e, skipped) \<Rightarrow>
            cbind (if e \<ge> pb_length b then Inr True
                   else cbind (peek (content b) e) (\<lambda>c. Inr (c \<noteq> 34))) (\<lambda>unended.
            if unended then Inr (None, b\<lparr>offset := start\<rparr>)
            else case allocate (pb_heap b) of (ok, h) \<Rightarrow>
              if \<not> ok then Inr (None, b\<lparr>offset := start, pb_heap := h\<rparr>)
              else
                let cap = e - offset b - skipped + 1 in
                cbind (unescape (content b) e cap start []) (\<lambda>r.
                case r of
                  Inl p \<Rightarrow> Inr (None, b\<lparr>offset := p, pb_heap := release 1 h\<rparr>)
                | Inr out \<Rightarrow>
                    cbind (emit cap out [0]) (\<lambda>_.
                    Inr (Some (Item cJSON_String (Some out) (valueint item) (valuedouble item)
                           (c_string item) (children item)),
                         b\<lparr>offset := Suc e, pb_heap := h\<rparr>)))))))"

section \<open>Numbers\<close>

definition is_number_char :: "u8 \<Rightarrow> bool" where
  "is_number_char c \<longleftrightarrow> is_digit c \<or> c = 43 \<or> c = 45 \<or> c = 101 \<or> c = 69 \<or> c = 46"

text \<open>The copy into \<open>number_c_string\<close>, whose 64 bytes leave room for 63 characters.\<close>

fun copy_number :: "parse_buffer \<Rightarrow> nat \<Rightarrow> nat \<Rightarrow> bytes cres" where
  "copy_number b 0 i = Inr []"
| "copy_number b (Suc k) i =
     (if can_access_at_index b i then
        cbind (at_offset b i) (\<lambda>c.
        if is_number_char c then cbind (copy_number b k (Suc i)) (\<lambda>cs. Inr (c # cs)) else Inr [])
      else Inr [])"

definition parse_number :: "cJSON \<Rightarrow> parse_buffer \<Rightarrow> (cJSON option \<times> parse_buffer) cres" where
  "parse_number item b =
     cbind (copy_number b 63 0) (\<lambda>s.
     case strtod s of (number, used) \<Rightarrow>
     if used = 0 then Inr (None, b)
     else cbind (number_to_int number) (\<lambda>i.
       Inr (Some (Item cJSON_Number (valuestring item) i number (c_string item) (children item)),
            b\<lparr>offset := offset b + used\<rparr>)))"

section \<open>Values\<close>

definition CJSON_NESTING_LIMIT :: nat where "CJSON_NESTING_LIMIT = 1000"

definition new_item :: "parse_buffer \<Rightarrow> cJSON option \<times> parse_buffer" where
  "new_item b = (case cJSON_New_Item (pb_heap b) of (i, h) \<Rightarrow> (i, b\<lparr>pb_heap := h\<rparr>))"

definition delete_items :: "cJSON list \<Rightarrow> parse_buffer \<Rightarrow> parse_buffer" where
  "delete_items is b = b\<lparr>pb_heap := cJSON_Delete is (pb_heap b)\<rparr>"

definition set_children :: "int \<Rightarrow> cJSON list \<Rightarrow> cJSON \<Rightarrow> cJSON" where
  "set_children t ch item =
     Item t (valuestring item) (valueint item) (valuedouble item) (c_string item) ch"

definition name_item :: "cJSON \<Rightarrow> cJSON" where
  "name_item i = Item (c_type i) None (valueint i) (valuedouble i) (valuestring i) (children i)"

text \<open>
  The opening of an array or object (\<open>open\<close> to \<open>close\<close>): \<open>Inl\<close> the buffer of an early return of
  false, \<open>Inr (True, b)\<close> an empty one, \<open>Inr (False, b)\<close> the buffer stepped back to the character in
  front of the first element.
\<close>

definition enter :: "u8 \<Rightarrow> u8 \<Rightarrow> parse_buffer \<Rightarrow> (parse_buffer + bool \<times> parse_buffer) cres" where
  "enter opn cls b =
     (if depth b \<ge> CJSON_NESTING_LIMIT then Inr (Inl b)
      else
        let b1 = b\<lparr>depth := depth b + 1\<rparr> in
        cbind (looking_at b1 opn) (\<lambda>is_open.
        if \<not> is_open then Inr (Inl b1)
        else cbind (buffer_skip_whitespace (b1\<lparr>offset := offset b1 + 1\<rparr>)) (\<lambda>b2.
          cbind (looking_at b2 cls) (\<lambda>empty.
          if empty then Inr (Inr (True, b2))
          else if \<not> can_access_at_index b2 0 then Inr (Inl (b2\<lparr>offset := offset b2 - 1\<rparr>))
          else Inr (Inr (False, b2\<lparr>offset := offset b2 - 1\<rparr>))))))"

definition leave :: "int \<Rightarrow> cJSON \<Rightarrow> cJSON list \<Rightarrow> parse_buffer \<Rightarrow> cJSON option \<times> parse_buffer" where
  "leave t item ch b =
     (Some (set_children t ch item), b\<lparr>depth := depth b - 1, offset := offset b + 1\<rparr>)"

text \<open>
  \<open>parse_elements\<close> and \<open>parse_members\<close> are the do-while loops of parse\_array and parse\_object,
  with the list built so far; their result is the complete list, or \<open>None\<close> when the loop
  failed, the list deleted.
\<close>

fun parse_value :: "nat \<Rightarrow> cJSON \<Rightarrow> parse_buffer \<Rightarrow> (cJSON option \<times> parse_buffer) cres"
  and parse_elements :: "nat \<Rightarrow> cJSON list \<Rightarrow> parse_buffer \<Rightarrow> (cJSON list option \<times> parse_buffer) cres"
  and parse_members :: "nat \<Rightarrow> cJSON list \<Rightarrow> parse_buffer \<Rightarrow> (cJSON list option \<times> parse_buffer) cres"
where
  "parse_value 0 item b = Inl OutOfFuel"
| "parse_value (Suc fuel) item b =
     cbind (starts_with b (lit ''null'')) (\<lambda>is_null.
     if is_null then Inr (Some (with_type cJSON_NULL item), b\<lparr>offset := offset b + 4\<rparr>)
     else cbind (starts_with b (lit ''false'')) (\<lambda>is_false.
     if is_false then Inr (Some (with_type cJSON_False item), b\<lparr>offset := offset b + 5\<rparr>)
     else cbind (starts_with b (lit ''true'')) (\<lambda>is_true.
     if is_true then
       Inr (Some (Item cJSON_True (valuestring item) 1 (valuedouble item) (c_string item)
              (children item)), b\<lparr>offset := offset b + 4\<rparr>)
     else if \<not> can_access_at_index b 0 then Inr (None, b)
     else cbind (at_offset b 0) (\<lambda>c.
       if c = 34 then parse_string item b
       else if c = 45 \<or> is_digit c then parse_number item b
       else if c = 91 then
         cbind (enter 91 93 b) (\<lambda>r.
         case r of
           Inl b' \<Rightarrow> Inr (None, b')
         | Inr (True, b') \<Rightarrow> Inr (leave cJSON_Array item [] b')
         | Inr (False, b') \<Rightarrow>
             cbind (parse_elements fuel [] b') (\<lambda>(ch, b2).
             Inr (case ch of None \<Rightarrow> (None, b2) | Some xs \<Rightarrow> leave cJSON_Array item xs b2)))
       else if c = 123 then
         cbind (enter 123 125 b) (\<lambda>r.
         case r of
           Inl b' \<Rightarrow> Inr (None, b')
         | Inr (True, b') \<Rightarrow> Inr (leave cJSON_Object item [] b')
         | Inr (False, b') \<Rightarrow>
             cbind (parse_members fuel [] b') (\<lambda>(ch, b2).
             Inr (case ch of None \<Rightarrow> (None, b2) | Some xs \<Rightarrow> leave cJSON_Object item xs b2)))
       else Inr (None, b)))))"
| "parse_elements 0 acc b = Inl OutOfFuel"
| "parse_elements (Suc fuel) acc b =
     (case new_item b of
        (None, b1) \<Rightarrow> Inr (None, delete_items acc b1)
      | (Some it, b1) \<Rightarrow>
          cbind (buffer_skip_whitespace (b1\<lparr>offset := offset b1 + 1\<rparr>)) (\<lambda>b2.
          cbind (parse_value fuel it b2) (\<lambda>(r, b3).
          case r of
            None \<Rightarrow> Inr (None, delete_items (acc @ [it]) b3)
          | Some v \<Rightarrow>
              cbind (buffer_skip_whitespace b3) (\<lambda>b4.
              cbind (looking_at b4 44) (\<lambda>comma.
              if comma then parse_elements fuel (acc @ [v]) b4
              else cbind (looking_at b4 93) (\<lambda>closed.
                if closed then Inr (Some (acc @ [v]), b4)
                else Inr (None, delete_items (acc @ [v]) b4)))))))"
| "parse_members 0 acc b = Inl OutOfFuel"
| "parse_members (Suc fuel) acc b =
     (case new_item b of
        (None, b1) \<Rightarrow> Inr (None, delete_items acc b1)
      | (Some it, b1) \<Rightarrow>
          cbind (buffer_skip_whitespace (b1\<lparr>offset := offset b1 + 1\<rparr>)) (\<lambda>b2.
          cbind (parse_string it b2) (\<lambda>(r, b3).
          case r of
            None \<Rightarrow> Inr (None, delete_items (acc @ [it]) b3)
          | Some k \<Rightarrow>
              cbind (buffer_skip_whitespace b3) (\<lambda>b4.
              let named = name_item k in
              cbind (looking_at b4 58) (\<lambda>colon.
              if \<not> colon then Inr (None, delete_items (acc @ [named]) b4)
              else cbind (buffer_skip_whitespace (b4\<lparr>offset := offset b4 + 1\<rparr>)) (\<lambda>b5.
                cbind (parse_value fuel named b5) (\<lambda>(r2, b6).
                case r2 of
                  None \<Rightarrow> Inr (None, delete_items (acc @ [named]) b6)
                | Some v \<Rightarrow>
                    cbind (buffer_skip_whitespace b6) (\<lambda>b7.
                    cbind (looking_at b7 44) (\<lambda>comma.
                    if comma then parse_members fuel (acc @ [v]) b7
                    else cbind (looking_at b7 125) (\<lambda>closed.
                      if closed then Inr (Some (acc @ [v]), b7)
                      else Inr (None, delete_items (acc @ [v]) b7)))))))))))"

section \<open>The entry points\<close>

text \<open>
  \<open>parse_fuel\<close> is enough for any text of the given length (JsonSafe).  The result is the item
  (\<open>None\<close> for NULL), the position the parse ended or failed at, and the heap.
\<close>

definition parse_fuel :: "nat \<Rightarrow> nat" where
  "parse_fuel n = 2 * n + 2"

definition parse_fail :: "cJSON option \<Rightarrow> parse_buffer \<Rightarrow> cJSON option \<times> nat \<times> heap" where
  "parse_fail item b =
     (None,
      if offset b < pb_length b then offset b else if pb_length b > 0 then pb_length b - 1 else 0,
      (case item of None \<Rightarrow> pb_heap b | Some i \<Rightarrow> cJSON_Delete [i] (pb_heap b)))"

definition cJSON_ParseWithLengthOpts ::
    "bytes option \<Rightarrow> nat \<Rightarrow> bool \<Rightarrow> heap \<Rightarrow> (cJSON option \<times> nat \<times> heap) cres" where
  "cJSON_ParseWithLengthOpts val len require_null_terminated h =
     (case val of
        None \<Rightarrow> Inr (None, 0, h)
      | Some m \<Rightarrow>
          if len = 0 then Inr (None, 0, h)
          else
            let b0 = \<lparr>content = m, pb_length = len, offset = 0, depth = 0, pb_heap = h\<rparr> in
            case new_item b0 of
              (None, b1) \<Rightarrow> Inr (parse_fail None b1)
            | (Some it, b1) \<Rightarrow>
                cbind (skip_utf8_bom b1) (\<lambda>bo.
                cbind (deref bo) (\<lambda>b2.
                cbind (buffer_skip_whitespace b2) (\<lambda>b3.
                cbind (parse_value (parse_fuel len) it b3) (\<lambda>(r, b4).
                case r of
                  None \<Rightarrow> Inr (parse_fail (Some it) b4)
                | Some v \<Rightarrow>
                    if require_null_terminated then
                      cbind (buffer_skip_whitespace b4) (\<lambda>b5.
                      cbind (looking_at b5 0) (\<lambda>term.
                      if \<not> term then Inr (parse_fail (Some v) b5)
                      else Inr (Some v, offset b5, pb_heap b5)))
                    else Inr (Some v, offset b4, pb_heap b4))))))"

definition cJSON_ParseWithOpts ::
    "bytes option \<Rightarrow> bool \<Rightarrow> heap \<Rightarrow> (cJSON option \<times> nat \<times> heap) cres" where
  "cJSON_ParseWithOpts val require_null_terminated h =
     (case val of
        None \<Rightarrow> Inr (None, 0, h)
      | Some m \<Rightarrow> cbind (c_strlen m) (\<lambda>n.
          cJSON_ParseWithLengthOpts (Some m) (n + 1) require_null_terminated h))"

definition cJSON_Parse :: "bytes option \<Rightarrow> heap \<Rightarrow> (cJSON option \<times> nat \<times> heap) cres" where
  "cJSON_Parse val h = cJSON_ParseWithOpts val False h"

definition cJSON_ParseWithLength ::
    "bytes option \<Rightarrow> nat \<Rightarrow> heap \<Rightarrow> (cJSON option \<times> nat \<times> heap) cres" where
  "cJSON_ParseWithLength val len h = cJSON_ParseWithLengthOpts val len False h"

end
