(* ===== verification/JsonSafe.thy ===== *)
theory JsonSafe
  imports JsonParse
begin

text \<open>
  What the parser guarantees on terminated text: it never touches memory outside the text or
  outside the block it allocated for a string, \<open>parse_fuel\<close> is enough fuel, every success has
  consumed something, and every failure has freed what it allocated.
\<close>

section \<open>Terminated buffers\<close>

definition wf_buf :: "parse_buffer \<Rightarrow> bool" where
  "wf_buf b \<longleftrightarrow> pb_length b \<le> length (content b) \<and> offset b < pb_length b \<and>
     content b ! (pb_length b - 1) = 0"

definition cur :: "parse_buffer \<Rightarrow> u8" where
  "cur b = content b ! offset b"

text \<open>\<open>b'\<close> is the same buffer further on; \<open>n\<close> blocks more are live.\<close>

definition moved :: "parse_buffer \<Rightarrow> int \<Rightarrow> parse_buffer \<Rightarrow> bool" where
  "moved b n b' \<longleftrightarrow> content b' = content b \<and> pb_length b' = pb_length b \<and>
     h_ok (pb_heap b') = h_ok (pb_heap b) \<and> h_live (pb_heap b') = h_live (pb_heap b) + n"

lemma moved_trans: "moved b n b1 \<Longrightarrow> moved b1 k b2 \<Longrightarrow> moved b (n + k) b2"
  by (simp add: moved_def)

lemma moved_refl [simp]: "moved b 0 b"
  by (simp add: moved_def)

lemma moved_offset [simp]: "moved b n (b'\<lparr>offset := i\<rparr>) = moved b n b'"
  "moved (b\<lparr>offset := i\<rparr>) n b' = moved b n b'"
  "moved b n (b'\<lparr>depth := i\<rparr>) = moved b n b'"
  by (simp_all add: moved_def)

lemma wf_offset: "wf_buf b \<Longrightarrow> i < pb_length b \<Longrightarrow> wf_buf (b\<lparr>offset := i\<rparr>)"
  by (simp add: wf_buf_def)

lemma wf_depth [simp]: "wf_buf (b\<lparr>depth := i\<rparr>) = wf_buf b"
  by (simp add: wf_buf_def)

lemma wf_moved: "wf_buf b \<Longrightarrow> moved b n b' \<Longrightarrow> offset b' < pb_length b' \<Longrightarrow> wf_buf b'"
  by (simp add: wf_buf_def moved_def)

lemma wf_access: "wf_buf b \<Longrightarrow> can_access_at_index b 0" "wf_buf b \<Longrightarrow> at_offset b 0 = Inr (cur b)"
  by (simp_all add: wf_buf_def can_access_at_index_def at_offset_def peek_def cur_def)

lemma wf_looking_at: "wf_buf b \<Longrightarrow> looking_at b c = Inr (cur b = c)"
  by (simp add: looking_at_def wf_access)

text \<open>A character that is not NUL is not the last, so stepping over it stays inside.\<close>

lemma wf_step:
  assumes "wf_buf b" and "cur b \<noteq> 0"
  shows "wf_buf (b\<lparr>offset := offset b + 1\<rparr>)"
proof -
  have "offset b \<noteq> pb_length b - 1" using assms by (auto simp: wf_buf_def cur_def)
  then show ?thesis using assms(1) unfolding wf_buf_def by (simp; linarith)
qed

lemma starts_with_safe: "wf_buf b \<Longrightarrow> \<exists>r. starts_with b s = Inr r"
  by (auto simp: starts_with_def wf_buf_def can_read_def slice_def)

lemma starts_with_move:
  assumes "starts_with b s = Inr True" and "wf_buf b" and "s \<noteq> []" and "last s \<noteq> 0"
  shows "offset b + length s < pb_length b"
proof -
  let ?n = "length s"
  have n: "0 < ?n" using assms(3) by simp
  have le: "offset b + ?n \<le> pb_length b" and s: "take ?n (drop (offset b) (content b)) = s"
    using assms(1) by (auto simp: starts_with_def can_read_def cbind_eq_Inr_iff slice_eq_Inr_iff split: if_splits)
  have "offset b + ?n - 1 < length (content b)" using le assms(2) n unfolding wf_buf_def by linarith
  then have "content b ! (offset b + (?n - 1)) = s ! (?n - 1)"
    using n by (subst s[symmetric]) (simp del: s)
  then have "content b ! (offset b + ?n - 1) \<noteq> 0"
    using assms(3,4) n by (simp add: last_conv_nth)
  then have "offset b + ?n \<noteq> pb_length b" using assms(2) by (auto simp: wf_buf_def)
  then show ?thesis using le by simp
qed

lemma ws_loop_safe:
  "pb_length b \<le> length (content b) \<Longrightarrow> offset b \<le> pb_length b \<Longrightarrow>
   \<exists>i. ws_loop b = Inr (b\<lparr>offset := i\<rparr>) \<and> offset b \<le> i \<and> i \<le> pb_length b"
proof (induction b rule: ws_loop.induct)
  case (1 b)
  show ?case
  proof (cases "can_access_at_index b 0")
    case False
    then have "ws_loop b = Inr (b\<lparr>offset := offset b\<rparr>)" by (subst ws_loop.simps) simp
    then show ?thesis using "1.prems"(2) by blast
  next
    case True
    then have a: "at_offset b 0 = Inr (cur b)"
      using "1.prems" by (simp add: can_access_at_index_def at_offset_def peek_def cur_def)
    show ?thesis
    proof (cases "cur b \<le> 32")
      case False
      then have "ws_loop b = Inr (b\<lparr>offset := offset b\<rparr>)" using True a by (subst ws_loop.simps) simp
      then show ?thesis using "1.prems"(2) by blast
    next
      case le: True
      let ?b = "b\<lparr>offset := offset b + 1\<rparr>"
      have "offset b + 1 \<le> pb_length b" using True by (simp add: can_access_at_index_def)
      then obtain i where "ws_loop ?b = Inr (?b\<lparr>offset := i\<rparr>)" "offset b + 1 \<le> i" "i \<le> pb_length b"
        using "1.IH"[OF True a le] "1.prems" by auto
      then show ?thesis using True a le by (subst ws_loop.simps) auto
    qed
  qed
qed

lemma skip_ws_safe:
  assumes "wf_buf b"
  shows "\<exists>i. buffer_skip_whitespace b = Inr (b\<lparr>offset := i\<rparr>) \<and> offset b \<le> i \<and> i < pb_length b"
proof -
  obtain i where i: "ws_loop b = Inr (b\<lparr>offset := i\<rparr>)" "offset b \<le> i" "i \<le> pb_length b"
    using ws_loop_safe[of b] assms by (auto simp: wf_buf_def)
  have lt: "offset b < pb_length b" using assms by (simp add: wf_buf_def)
  show ?thesis
  proof (cases "i = pb_length b")
    case True
    then have "buffer_skip_whitespace b = Inr (b\<lparr>offset := i - 1\<rparr>)"
      using i wf_access(1)[OF assms] by (simp add: buffer_skip_whitespace_def)
    then show ?thesis using True lt by (intro exI[of _ "i - 1"]) auto
  next
    case False
    then have "buffer_skip_whitespace b = Inr (b\<lparr>offset := i\<rparr>)"
      using i wf_access(1)[OF assms] by (simp add: buffer_skip_whitespace_def)
    then show ?thesis using False i by (intro exI[of _ i]) auto
  qed
qed

section \<open>Escapes\<close>

lemma hex_digit_le: "hex_digit c = Some d \<Longrightarrow> unat d \<le> 15"
proof -
  assume a: "hex_digit c = Some d"
  have u: "unat (ucast c :: u32) = unat c" by transfer simp
  have lt: "unat c < 256" using unsigned_less[of c, where 'a = nat] by simp
  consider "48 \<le> c" "c \<le> 57" "d = ucast c - 48" | "65 \<le> c" "c \<le> 70" "d = 10 + ucast c - 65"
    | "97 \<le> c" "c \<le> 102" "d = 10 + ucast c - 97"
    using a by (auto simp: hex_digit_def split: if_splits)
  then show ?thesis
  proof cases
    case 1
    then show ?thesis using u by (simp add: word_le_nat_alt unat_sub)
  next
    case 2
    then show ?thesis using u by (simp add: word_le_nat_alt unat_sub)
  next
    case 3
    then show ?thesis using u by (simp add: word_le_nat_alt unat_sub)
  qed
qed

lemma unat_add_u32: "unat (a :: u32) + unat b < 2 ^ 32 \<Longrightarrow> unat (a + b) = unat a + unat b"
  by (simp add: unat_word_ariths)

lemma unat_push_4: "unat (a :: u32) * 16 < 2 ^ 32 \<Longrightarrow> unat (push_bit 4 a) = unat a * 16"
  by (simp add: push_bit_eq_mult unat_word_ariths)

lemma parse_hex4_loop_safe:
  assumes "p + 4 \<le> length m" and "i \<le> 4" and "unat h + (if i < 4 then 16 else 1) \<le> 16 ^ (min i 3 + 1)"
  shows "\<exists>r. parse_hex4_loop m p i h = Inr r \<and> unat r < 65536"
  using assms
proof (induction m p i h rule: parse_hex4_loop.induct)
  case (1 m p i h)
  show ?case
  proof (cases "i < 4")
    case False
    then have "parse_hex4_loop m p i h = Inr h" by (subst parse_hex4_loop.simps) simp
    then show ?thesis using "1.prems" False by simp
  next
    case True
    have pk: "peek m (p + i) = Inr (m ! (p + i))" using "1.prems"(1) True by (simp add: peek_def)
    show ?thesis
    proof (cases "hex_digit (m ! (p + i))")
      case None
      then show ?thesis using True pk by (subst parse_hex4_loop.simps) simp
    next
      case (Some d)
      have d: "unat d \<le> 15" using hex_digit_le[OF Some] .
      have h: "unat h + 16 \<le> 16 ^ (i + 1)" using "1.prems"(3) True by (simp add: min_def split: if_splits)
      have i4: "(16::nat) ^ (i + 1) \<le> 65536" using True power_increasing[of "i + 1" 4 "16 :: nat"] by simp
      have hd: "unat (h + d) = unat h + unat d" using d h i4 by (intro unat_add_u32) simp
      define h' where "h' = (if i < 3 then push_bit 4 (h + d) else h + d)"
      have h': "unat h' + (if Suc i < 4 then 16 else 1) \<le> 16 ^ (min (Suc i) 3 + 1)"
      proof (cases "i < 3")
        case lt: True
        have i3: "(16::nat) ^ (i + 1) \<le> 4096" using lt power_increasing[of "i + 1" 3 "16 :: nat"] by simp
        have "unat (push_bit 4 (h + d)) = unat (h + d) * 16"
          using hd d h i3 by (intro unat_push_4) simp
        moreover have "(unat h + unat d) * 16 + 16 \<le> 16 ^ (i + 2)" using h d by simp
        ultimately show ?thesis using lt hd by (simp add: h'_def min_def)
      next
        case False
        then have "i = 3" using True by simp
        then show ?thesis using h d hd by (simp add: h'_def)
      qed
      have step: "parse_hex4_loop m p i h = parse_hex4_loop m p (Suc i) h'"
        using True pk Some by (subst parse_hex4_loop.simps) (simp add: h'_def)
      show ?thesis
        unfolding step h'_def
        by (rule "1.IH"[OF True pk Some]) (use "1.prems"(1) True h'[unfolded h'_def] in auto)
    qed
  qed
qed

lemma parse_hex4_safe: "p + 4 \<le> length m \<Longrightarrow> \<exists>r. parse_hex4 m p = Inr r \<and> unat r < 65536"
  unfolding parse_hex4_def by (rule parse_hex4_loop_safe) simp_all

lemma utf8_encode_length: "utf8_encode cp = Some bs \<Longrightarrow> 1 \<le> length bs \<and> length bs \<le> 4 \<and> (unat cp < 65536 \<longrightarrow> length bs \<le> 3)"
  by (auto simp: utf8_encode_def word_less_nat_alt split: if_splits)

lemma utf16_literal_safe:
  assumes "e \<le> length m"
  shows "\<exists>r. utf16_literal_to_utf8 m p e = Inr r \<and>
    (\<forall>n bs. r = Some (n, bs) \<longrightarrow> p + n \<le> e \<and> (n = 6 \<and> length bs \<le> 3 \<or> n = 12 \<and> length bs \<le> 4))"
proof (cases "int e - int p < 6")
  case True
  then show ?thesis by (simp add: utf16_literal_to_utf8_def)
next
  case len: False
  then obtain c where c: "parse_hex4 m (p + 2) = Inr c" "unat c < 65536"
    using parse_hex4_safe[of "p + 2" m] assms by auto
  show ?thesis
  proof (cases "0xDC00 \<le> c \<and> c \<le> 0xDFFF")
    case True
    then show ?thesis using len c(1) by (simp add: utf16_literal_to_utf8_def)
  next
    case low: False
    show ?thesis
    proof (cases "0xD800 \<le> c \<and> c \<le> 0xDBFF")
      case False
      then show ?thesis using len c low utf8_encode_length[of c]
        by (cases "utf8_encode c") (auto simp: utf16_literal_to_utf8_def)
    next
      case sur: True
      show ?thesis
      proof (cases "int e - int (p + 6) < 6")
        case True
        then show ?thesis using len c(1) low sur by (simp add: utf16_literal_to_utf8_def)
      next
        case len2: False
        then obtain d where d: "parse_hex4 m (p + 8) = Inr d"
          using parse_hex4_safe[of "p + 8" m] assms by auto
        have pk: "peek m (p + 6) = Inr (m ! (p + 6))" "peek m (p + 7) = Inr (m ! (p + 7))"
          using len2 assms by (simp_all add: peek_def)
        let ?cp = "0x10000 + (push_bit 10 (c AND 0x3FF) OR (d AND 0x3FF)) :: u32"
        have "p + 12 \<le> e" using len2 by linarith
        then show ?thesis using len c(1) low sur len2 d pk utf8_encode_length[of ?cp]
          by (cases "utf8_encode ?cp") (auto simp: utf16_literal_to_utf8_def)
      qed
    qed
  qed
qed

section \<open>The block parse\_string allocates is large enough\<close>

text \<open>
  The positions of the backslashes the scan for the closing quote counts as escapes.  The
  copying loop may read the text differently (after a \<open>\u\<close> literal with bad digits it can
  resume in the middle of an escape), so the bound is on how many of them can lie in any
  stretch of the text.
\<close>

function escs :: "bytes \<Rightarrow> nat \<Rightarrow> nat \<Rightarrow> nat list" where
  "escs m e i =
     (if i < e then if m ! i = 92 then i # escs m e (i + 2) else escs m e (Suc i) else [])"
  by pat_completeness auto
termination by (relation "measure (\<lambda>(m, e, i). e - i)") auto

declare escs.simps [simp del]

lemma escs_ge: "x \<in> set (escs m e i) \<Longrightarrow> i \<le> x \<and> x < e \<and> m ! x = 92"
proof (induction m e i rule: escs.induct)
  case (1 m e i)
  show ?case
  proof (cases "i < e")
    case True
    then show ?thesis
      using "1.prems" "1.IH" by (subst (asm) escs.simps) (auto split: if_splits)
  next
    case False
    then show ?thesis using "1.prems" by (subst (asm) escs.simps) simp
  qed
qed

lemma escs_apart: "x \<in> set (escs m e i) \<Longrightarrow> Suc x \<notin> set (escs m e i)"
proof (induction m e i rule: escs.induct)
  case (1 m e i)
  have i: "i < e" using "1.prems" by (subst (asm) escs.simps) (auto split: if_splits)
  show ?case
  proof (cases "m ! i = 92")
    case True
    then have eq: "escs m e i = i # escs m e (i + 2)" using i by (subst escs.simps) simp
    have "Suc i \<notin> set (escs m e (i + 2))" using escs_ge by fastforce
    moreover have "i \<noteq> Suc x" using escs_ge[OF "1.prems"] by simp
    ultimately show ?thesis using "1.prems" "1.IH"(1)[OF i True] by (auto simp: eq)
  next
    case False
    then have eq: "escs m e i = escs m e (Suc i)" using i by (subst escs.simps) simp
    show ?thesis using "1.prems" "1.IH"(2)[OF i False] by (simp add: eq)
  qed
qed

lemma escs_distinct: "distinct (escs m e i)"
proof (induction m e i rule: escs.induct)
  case (1 m e i)
  then show ?case using escs_ge[of i m e "i + 2"] by (subst escs.simps) auto
qed

lemma scan_end_escs:
  assumes "scan_end m len i sk = Inr (Some (e, sk'))" and "i \<le> len"
  shows "i \<le> e \<and> e \<le> len \<and> sk' = sk + length (escs m e i)"
  using assms
proof (induction m len i sk rule: scan_end.induct)
  case (1 m len i sk)
  show ?case
  proof (cases "i < len")
    case False
    then have "e = i \<and> sk' = sk" using "1.prems" by (subst (asm) scan_end.simps) simp
    then show ?thesis using "1.prems"(2) by (subst escs.simps) simp
  next
    case True
    then obtain c where c: "peek m i = Inr c" "c = m ! i"
      using "1.prems"(1) by (subst (asm) scan_end.simps) (auto simp: cbind_eq_Inr_iff peek_eq_Inr_iff)
    note unf = "1.prems"(1)[unfolded scan_end.simps[of m len i sk]]
    consider "c = 34" | "c = 92" "c \<noteq> 34" | "c \<noteq> 34" "c \<noteq> 92" by blast
    then show ?thesis
    proof cases
      case 1
      then have "e = i \<and> sk' = sk" using unf True c(1) by simp
      then show ?thesis using True by (subst escs.simps) simp
    next
      case 2
      then have lt: "\<not> len \<le> Suc i" and step: "scan_end m len (i + 2) (Suc sk) = Inr (Some (e, sk'))"
        using unf True c(1) by (auto split: if_splits)
      have ih: "i + 2 \<le> e \<and> e \<le> len \<and> sk' = Suc sk + length (escs m e (i + 2))"
        using "1.IH"(1)[OF True c(1) 2(2,1) lt step] lt by simp
      then have "escs m e i = i # escs m e (i + 2)" using 2 c(2) by (subst escs.simps) simp
      then show ?thesis using ih by simp
    next
      case 3
      then have step: "scan_end m len (Suc i) sk = Inr (Some (e, sk'))" using unf True c(1) by simp
      have ih: "Suc i \<le> e \<and> e \<le> len \<and> sk' = sk + length (escs m e (Suc i))"
        using "1.IH"(2)[OF True c(1) 3 step] True by simp
      then have "escs m e i = escs m e (Suc i)" using 3 c(2) by (subst escs.simps) simp
      then show ?thesis using ih by simp
    qed
  qed
qed

lemma scan_end_safe:
  assumes "len \<le> length m"
  shows "\<exists>r. scan_end m len i sk = Inr r"
  using assms
proof (induction m len i sk rule: scan_end.induct)
  case (1 m len i sk)
  show ?case
  proof (cases "i < len")
    case False
    then show ?thesis by (subst scan_end.simps) simp
  next
    case True
    then have c: "peek m i = Inr (m ! i)" using "1.prems" by (simp add: peek_def)
    show ?thesis
      using "1.IH"(1)[OF True c] "1.IH"(2)[OF True c] "1.prems" True c by (subst scan_end.simps) auto
  qed
qed

lemma escs_length: "length (escs m e i) \<le> e - i"
proof -
  have "set (escs m e i) \<subseteq> {i ..< e}" using escs_ge by auto
  then have "card (set (escs m e i)) \<le> card {i ..< e}" by (rule card_mono[rotated]) simp
  then show ?thesis using distinct_card[OF escs_distinct] by simp
qed

text \<open>Escapes counted before and from a position.\<close>

definition before :: "nat list \<Rightarrow> nat \<Rightarrow> nat" where
  "before S p = card {x \<in> set S. x < p}"

definition from_on :: "nat list \<Rightarrow> nat \<Rightarrow> nat" where
  "from_on S p = card {x \<in> set S. p \<le> x}"

lemma before_start: "before (escs m e i) i = 0"
proof -
  have "{x \<in> set (escs m e i). x < i} = {}" using escs_ge by fastforce
  then show ?thesis unfolding before_def by simp
qed

lemma before_from: "distinct S \<Longrightarrow> before S p + from_on S p = length S"
proof -
  assume d: "distinct S"
  have "card ({x \<in> set S. x < p} \<union> {x \<in> set S. p \<le> x}) = before S p + from_on S p"
    unfolding before_def from_on_def by (rule card_Un_disjoint) auto
  moreover have "{x \<in> set S. x < p} \<union> {x \<in> set S. p \<le> x} = set S" by auto
  ultimately show ?thesis using distinct_card[OF d] by simp
qed

lemma from_on_le: "(\<forall>x \<in> set S. x < e) \<Longrightarrow> p \<le> Suc e \<Longrightarrow> p + from_on S p \<le> Suc e"
proof -
  assume S: "\<forall>x \<in> set S. x < e" and p: "p \<le> Suc e"
  have "{x \<in> set S. p \<le> x} \<subseteq> {p ..< e}" using S by auto
  then have "from_on S p \<le> card {p ..< e}" unfolding from_on_def by (rule card_mono[rotated]) simp
  then show ?thesis using p by auto
qed

lemma before_Suc: "p \<notin> set S \<Longrightarrow> before S (Suc p) = before S p"
proof -
  assume "p \<notin> set S"
  then have "{x \<in> set S. x < Suc p} = {x \<in> set S. x < p}" by (auto simp: less_Suc_eq)
  then show ?thesis by (simp add: before_def)
qed

lemma before_Suc_le: "before S (Suc p) \<le> Suc (before S p)"
proof -
  have "{x \<in> set S. x < Suc p} \<subseteq> insert p {x \<in> set S. x < p}" by (auto simp: less_Suc_eq)
  then have "before S (Suc p) \<le> card (insert p {x \<in> set S. x < p})"
    unfolding before_def by (rule card_mono[rotated]) simp
  also have "\<dots> \<le> Suc (before S p)" unfolding before_def by (rule card_insert_le_m1) simp_all
  finally show ?thesis .
qed

lemma before_2:
  assumes "\<And>x. x \<in> set S \<Longrightarrow> Suc x \<notin> set S"
  shows "before S (p + 2) \<le> Suc (before S p)"
proof (cases "p \<in> set S")
  case True
  then have "before S (Suc (Suc p)) = before S (Suc p)" using assms by (intro before_Suc)
  then show ?thesis using before_Suc_le[of S p] by simp
next
  case False
  then show ?thesis using before_Suc[OF False] before_Suc_le[of S "Suc p"] by simp
qed

lemma before_even:
  assumes "\<And>x. x \<in> set S \<Longrightarrow> Suc x \<notin> set S"
  shows "before S (p + 2 * k) \<le> before S p + k"
proof (induction k)
  case (Suc k)
  have "before S (p + 2 * k + 2) \<le> Suc (before S (p + 2 * k))" by (rule before_2[OF assms])
  then show ?case using Suc by simp
qed simp

lemma emit_ok: "length out + length bs \<le> cap \<Longrightarrow> emit cap out bs = Inr (out @ bs)"
  by (simp add: emit_def)

text \<open>
  One round of \<open>unescape\<close>: it stops at \<open>p\<close>, or it emits at most the bytes it moves over and goes on.
  A plain byte moves one and emits one, a short escape two and one, a \<open>\\u\<close> sequence six and three, a
  pair twelve and four.
\<close>

lemma unescape_round:
  assumes pe: "p < e" and e: "e < length m"
  shows "unescape m e cap p out = Inr (Inl p) \<or>
    (\<exists>bs q. unescape m e cap p out = cbind (emit cap out bs) (\<lambda>out'. unescape m e cap q out') \<and>
      (q = Suc p \<and> length bs = 1 \<and> m ! p \<noteq> 92 \<or> q = p + 2 \<and> length bs = 1 \<or>
       q = p + 6 \<and> q \<le> e \<and> length bs \<le> 3 \<or> q = p + 12 \<and> q \<le> e \<and> length bs \<le> 4))"
proof -
  have c: "peek m p = Inr (m ! p)" "peek m (Suc p) = Inr (m ! Suc p)" using pe e by (simp_all add: peek_def)
  consider (plain) "m ! p \<noteq> 92" | (short) "m ! p = 92" "m ! Suc p \<noteq> 117" | (uni) "m ! p = 92" "m ! Suc p = 117"
    by blast
  then show ?thesis
  proof cases
    case plain
    then have "unescape m e cap p out = cbind (emit cap out [m ! p]) (\<lambda>out'. unescape m e cap (Suc p) out')"
      using pe c by (subst unescape.simps) simp
    then show ?thesis using plain by (intro disjI2 exI[of _ "[m ! p]"] exI[of _ "Suc p"]) simp
  next
    case short
    show ?thesis
    proof (cases "simple_escape (m ! Suc p)")
      case None
      then have "unescape m e cap p out = Inr (Inl p)" using pe c short by (subst unescape.simps) simp
      then show ?thesis ..
    next
      case (Some x)
      then have "unescape m e cap p out = cbind (emit cap out [x]) (\<lambda>out'. unescape m e cap (p + 2) out')"
        using pe c short by (subst unescape.simps) simp
      then show ?thesis by (intro disjI2 exI[of _ "[x]"] exI[of _ "p + 2"]) simp
    qed
  next
    case uni
    obtain r where r: "utf16_literal_to_utf8 m p e = Inr r"
      "\<forall>n bs. r = Some (n, bs) \<longrightarrow> p + n \<le> e \<and> (n = 6 \<and> length bs \<le> 3 \<or> n = 12 \<and> length bs \<le> 4)"
      using utf16_literal_safe[of e m p] e by auto
    show ?thesis
    proof (cases r)
      case None
      then have "unescape m e cap p out = Inr (Inl p)" using pe c uni r(1) by (subst unescape.simps) simp
      then show ?thesis ..
    next
      case (Some nb)
      obtain n bs where nb: "nb = (n, bs)" by fastforce
      have n: "p + n \<le> e" "n = 6 \<and> length bs \<le> 3 \<or> n = 12 \<and> length bs \<le> 4"
        using r(2) Some nb by blast+
      have "unescape m e cap p out = cbind (emit cap out bs) (\<lambda>out'. unescape m e cap (p + n) out')"
        using pe c uni r(1) Some nb n(2) by (subst unescape.simps) auto
      then show ?thesis using n by (intro disjI2 exI[of _ bs] exI[of _ "p + n"]) auto
    qed
  qed
qed

lemma unescape_safe:
  fixes m e s
  defines "S \<equiv> escs m e s"
  assumes e: "e < length m" and cap: "cap + length S = e - s + 2"
    and p: "s \<le> p" "p \<le> Suc e" and room: "length out + before S p \<le> p - s"
  shows "\<exists>r. unescape m e cap p out = Inr r \<and> (\<forall>q. r = Inl q \<longrightarrow> q \<le> e) \<and>
    (\<forall>out'. r = Inr out' \<longrightarrow> length out' + 1 \<le> cap)"
  using p room
proof (induction "Suc e - p" arbitrary: p out rule: less_induct)
  case less
  have S: "\<And>x. x \<in> set S \<Longrightarrow> Suc x \<notin> set S" "\<And>x. x \<in> set S \<Longrightarrow> x < e \<and> m ! x = 92" "distinct S"
    using escs_apart escs_ge escs_distinct by (auto simp: S_def)
  have fits: "length o' + 1 \<le> cap" if "s \<le> q" "q \<le> Suc e" "length o' + before S q \<le> q - s" for o' and q
  proof -
    have "q + from_on S q \<le> Suc e" using from_on_le[of S e q] S(2) that(2) by blast
    moreover have "before S q + from_on S q = length S" by (rule before_from[OF S(3)])
    ultimately show ?thesis using that cap by linarith
  qed
  show ?case
  proof (cases "p < e")
    case False
    then have "unescape m e cap p out = Inr (Inr out)" by (subst unescape.simps) simp
    then show ?thesis using fits[OF less.prems] by simp
  next
    case pe: True
    consider (stop) "unescape m e cap p out = Inr (Inl p)"
      | (go) bs q where "unescape m e cap p out = cbind (emit cap out bs) (\<lambda>out'. unescape m e cap q out')"
        "q = Suc p \<and> length bs = 1 \<and> m ! p \<noteq> 92 \<or> q = p + 2 \<and> length bs = 1 \<or>
          q = p + 6 \<and> q \<le> e \<and> length bs \<le> 3 \<or> q = p + 12 \<and> q \<le> e \<and> length bs \<le> 4"
      using unescape_round[OF pe e, of cap out] by blast
    then show ?thesis
    proof cases
      case stop
      then show ?thesis using pe by simp
    next
      case go
      note eq = go(1) and sh = go(2)
      have q: "p < q" "q \<le> Suc e" "s \<le> q" using sh pe less.prems(1) by auto
      have "m ! p \<noteq> 92 \<longrightarrow> before S (Suc p) = before S p" using S(2) before_Suc by blast
      moreover have "before S (p + 2) \<le> before S p + 1" using before_2[OF S(1), of p] by simp
      moreover have "before S (p + 6) \<le> before S p + 3" "before S (p + 12) \<le> before S p + 6"
        using before_even[of S p 3] before_even[of S p 6] S(1) by simp_all
      ultimately have w: "length (out @ bs) + before S q \<le> q - s" using sh less.prems by auto
      have "length (out @ bs) + 1 \<le> cap" by (rule fits[OF q(3,2) w])
      then have em: "emit cap out bs = Inr (out @ bs)" by (intro emit_ok) simp
      have lt: "Suc e - q < Suc e - p" using q by simp
      show ?thesis unfolding eq em cbind_Inr by (rule less.hyps[OF lt q(3,2) w])
    qed
  qed
qed

text \<open>\<open>parse_string\<close> once the closing quote is found at \<open>e\<close> and the block is allocated.\<close>

lemma parse_string_copies:
  assumes wf: "wf_buf b" and q: "cur b = 34"
    and sc: "scan_end (content b) (pb_length b) (Suc (offset b)) 0 = Inr (Some (e, sk))"
    and e: "e < pb_length b" "content b ! e = 34" and al: "allocate (pb_heap b) = (True, h)"
  shows "\<exists>r b'. parse_string it b = Inr (r, b') \<and>
    (case r of
       None \<Rightarrow> moved b 0 b' \<and> depth b' = depth b
     | Some v \<Rightarrow> moved b 1 b' \<and> depth b' = depth b \<and> wf_buf b' \<and> offset b < offset b' \<and>
         c_type v = cJSON_String \<and> valuestring v \<noteq> None \<and> c_string v = c_string it \<and>
         children v = children it)"
proof -
  let ?m = "content b" and ?s = "Suc (offset b)"
  let ?cap = "e - offset b - sk + 1"
  have wf': "pb_length b \<le> length ?m" "offset b < pb_length b" "?m ! (pb_length b - 1) = 0"
    using wf by (simp_all add: wf_buf_def)
  have sc2: "?s \<le> e" "sk = length (escs ?m e ?s)"
    using scan_end_escs[of ?m "pb_length b" ?s 0 e sk] sc wf'(2) by simp_all
  have pk: "at_offset b 0 = Inr (cur b)" "peek ?m e = Inr (?m ! e)"
    using wf_access(2)[OF wf] e(1) wf'(1) by (simp_all add: peek_def)
  have h: "h_ok h = h_ok (pb_heap b)" "h_live h = h_live (pb_heap b) + 1"
    using al by (auto simp: allocate_def split: if_splits)
  have "length (escs ?m e ?s) \<le> e - ?s" by (rule escs_length)
  then have cap: "?cap + length (escs ?m e ?s) = e - ?s + 2" using sc2 by simp
  obtain r where r: "unescape ?m e ?cap ?s [] = Inr r" "\<forall>out'. r = Inr out' \<longrightarrow> length out' + 1 \<le> ?cap"
    using unescape_safe[of e ?m ?cap ?s ?s "[]"] e(1) wf'(1) cap sc2(1) before_start[of ?m e ?s] by auto
  show ?thesis
  proof (cases r)
    case (Inl p)
    then have "parse_string it b = Inr (None, b\<lparr>offset := p, pb_heap := release 1 h\<rparr>)"
      using q sc e pk al r(1) by (simp add: parse_string_def Let_def)
    then show ?thesis using h by (simp add: moved_def release_def)
  next
    case (Inr out)
    then have "emit ?cap out [0] = Inr (out @ [0])" using r(2) by (intro emit_ok) simp
    then have eq: "parse_string it b = Inr (Some (Item cJSON_String (Some out) (valueint it)
        (valuedouble it) (c_string it) (children it)), b\<lparr>offset := Suc e, pb_heap := h\<rparr>)"
      using q sc e pk al r(1) Inr by (simp add: parse_string_def Let_def)
    have "e \<noteq> pb_length b - 1" using e(2) wf'(3) by auto
    then have "Suc e < pb_length b" using e(1) by linarith
    then show ?thesis using eq h wf' sc2(1) by (simp add: moved_def wf_buf_def)
  qed
qed

lemma parse_string_safe:
  assumes "wf_buf b"
  shows "\<exists>r b'. parse_string it b = Inr (r, b') \<and>
    (case r of
       None \<Rightarrow> moved b 0 b' \<and> depth b' = depth b
     | Some v \<Rightarrow> moved b 1 b' \<and> depth b' = depth b \<and> wf_buf b' \<and> offset b < offset b' \<and>
         c_type v = cJSON_String \<and> valuestring v \<noteq> None \<and> c_string v = c_string it \<and>
         children v = children it)"
proof -
  let ?m = "content b" and ?len = "pb_length b" and ?s = "Suc (offset b)"
  have wf: "?len \<le> length ?m" "offset b < ?len" using assms by (simp_all add: wf_buf_def)
  have q: "at_offset b 0 = Inr (cur b)" by (rule wf_access(2)[OF assms])
  obtain sc where sc: "scan_end ?m ?len ?s 0 = Inr sc" using scan_end_safe[OF wf(1)] by blast
  consider (no) "cur b \<noteq> 34 \<or> sc = None"
    | (open_end) e sk where "cur b = 34" "sc = Some (e, sk)" "e \<ge> ?len \<or> ?m ! e \<noteq> 34"
    | (ended) e sk where "cur b = 34" "sc = Some (e, sk)" "e < ?len" "?m ! e = 34"
    by fastforce
  then show ?thesis
  proof cases
    case no
    then have "parse_string it b = Inr (None, b\<lparr>offset := ?s\<rparr>)"
      using q sc by (auto simp: parse_string_def Let_def)
    then show ?thesis by simp
  next
    case open_end
    have "peek ?m e = Inr (?m ! e)" if "e < ?len" using that wf(1) by (simp add: peek_def)
    then have "parse_string it b = Inr (None, b\<lparr>offset := ?s\<rparr>)"
      using open_end q sc by (auto simp: parse_string_def Let_def)
    then show ?thesis by simp
  next
    case ended
    obtain ok h where al: "allocate (pb_heap b) = (ok, h)" by fastforce
    show ?thesis
    proof (cases ok)
      case nok: False
      have "peek ?m e = Inr (?m ! e)" using ended wf(1) by (simp add: peek_def)
      then have "parse_string it b = Inr (None, b\<lparr>offset := ?s, pb_heap := h\<rparr>)"
        using nok ended q sc al by (simp add: parse_string_def Let_def)
      moreover have "moved b 0 (b\<lparr>offset := ?s, pb_heap := h\<rparr>)"
        using al nok by (auto simp: moved_def allocate_def split: if_splits)
      ultimately show ?thesis by simp
    next
      case True
      show ?thesis
        by (rule parse_string_copies[OF assms ended(1) _ ended(3,4)]) (use sc ended(2) al True in simp_all)
    qed
  qed
qed

lemma is_number_char_not_0: "is_number_char c \<Longrightarrow> c \<noteq> 0"
  by (auto simp: is_number_char_def is_digit_def)

lemma copy_number_safe:
  assumes "wf_buf b"
  shows "\<exists>s. copy_number b k i = Inr s \<and> (s = [] \<or> offset b + i + length s < pb_length b)"
proof (induction k arbitrary: i)
  case 0
  then show ?case by simp
next
  case (Suc k)
  show ?case
  proof (cases "can_access_at_index b i")
    case False
    then show ?thesis by simp
  next
    case True
    let ?c = "content b ! (offset b + i)"
    have lt: "offset b + i < pb_length b" using True by (simp add: can_access_at_index_def)
    then have c: "at_offset b i = Inr ?c"
      using assms by (simp add: at_offset_def peek_def wf_buf_def)
    show ?thesis
    proof (cases "is_number_char ?c")
      case False
      then show ?thesis using True c by simp
    next
      case num: True
      then have "offset b + i \<noteq> pb_length b - 1"
        using assms is_number_char_not_0[OF num] by (auto simp: wf_buf_def)
      then have "offset b + Suc i < pb_length b" using lt by linarith
      moreover obtain s where "copy_number b k (Suc i) = Inr s"
        "s = [] \<or> offset b + Suc i + length s < pb_length b" using Suc.IH by blast
      ultimately show ?thesis using True c num by auto
    qed
  qed
qed

lemma parse_number_safe:
  assumes "wf_buf b"
  shows "\<exists>r b'. parse_number it b = Inr (r, b') \<and>
    (case r of
       None \<Rightarrow> b' = b
     | Some v \<Rightarrow> moved b 0 b' \<and> depth b' = depth b \<and> wf_buf b' \<and> offset b < offset b' \<and>
         c_type v = cJSON_Number \<and> number_to_int (valuedouble v) = Inr (valueint v) \<and>
         valuestring v = valuestring it \<and> c_string v = c_string it \<and> children v = children it)"
proof -
  obtain s where s: "copy_number b 63 0 = Inr s" "s = [] \<or> offset b + length s < pb_length b"
    using copy_number_safe[OF assms, of 63 0] by auto
  obtain d n where sd: "strtod s = (d, n)" by fastforce
  have n: "n \<le> length s" and nan: "d \<noteq> NaN"
    using strtod_used[of s] strtod_not_NaN[of s] sd by simp_all
  show ?thesis
  proof (cases "n = 0")
    case True
    then show ?thesis using s sd by (simp add: parse_number_def)
  next
    case False
    obtain i where i: "number_to_int d = Inr i" using nan by (cases d) (simp_all add: number_to_int_cases)
    have "offset b + n < pb_length b" using s(2) n False by auto
    then show ?thesis
      using s(1) sd False i assms by (simp add: parse_number_def wf_buf_def)
  qed
qed

section \<open>The shape of what the parser builds\<close>

fun shape :: "cJSON \<Rightarrow> bool" where
  "shape (Item t vs vi vd s ch) \<longleftrightarrow>
     (t \<in> {cJSON_False, cJSON_True, cJSON_NULL} \<and> vs = None \<and> ch = []) \<or>
     (t = cJSON_Number \<and> vs = None \<and> ch = [] \<and> number_to_int vd = Inr vi) \<or>
     (t = cJSON_String \<and> vs \<noteq> None \<and> ch = []) \<or>
     (t = cJSON_Array \<and> vs = None \<and> (\<forall>c \<in> set ch. shape c \<and> c_string c = None)) \<or>
     (t = cJSON_Object \<and> vs = None \<and> (\<forall>c \<in> set ch. shape c \<and> c_string c \<noteq> None))"

text \<open>All items of a tree; each of them has the shape when the tree has it.\<close>

fun subitems :: "cJSON \<Rightarrow> cJSON list" where
  "subitems (Item t vs vi vd s ch) = Item t vs vi vd s ch # concat (map subitems ch)"

lemma shape_subitems: "shape v \<Longrightarrow> w \<in> set (subitems v) \<Longrightarrow> shape w"
  by (induction v) fastforce

lemma shape_types:
  assumes "shape w"
  shows "length (filter (\<lambda>is. is (Some w)) [cJSON_IsFalse, cJSON_IsTrue, cJSON_IsNull, cJSON_IsNumber,
      cJSON_IsString, cJSON_IsArray, cJSON_IsObject]) = 1"
    and "\<not> cJSON_IsInvalid (Some w)" and "\<not> cJSON_IsRaw (Some w)"
  using assms
  by (cases w; auto simp: is_type_def json_types cJSON_IsFalse_def cJSON_IsTrue_def cJSON_IsNull_def cJSON_IsNumber_def
      cJSON_IsString_def cJSON_IsArray_def cJSON_IsObject_def cJSON_IsInvalid_def cJSON_IsRaw_def)+

lemma shape_values:
  assumes "shape w"
  shows "cJSON_IsString (Some w) \<longleftrightarrow> cJSON_GetStringValue (Some w) \<noteq> None"
    and "cJSON_IsNumber (Some w) \<longleftrightarrow> cJSON_GetNumberValue (Some w) \<noteq> NaN"
    and "cJSON_IsNumber (Some w) \<Longrightarrow> number_to_int (cJSON_GetNumberValue (Some w)) = Inr (valueint w)"
    and "children w \<noteq> [] \<Longrightarrow> cJSON_IsArray (Some w) \<or> cJSON_IsObject (Some w)"
    and "c \<in> set (children w) \<Longrightarrow> c_string c = None \<longleftrightarrow> cJSON_IsArray (Some w)"
  using assms
  by (cases w; auto simp: is_type_def json_types cJSON_IsNumber_def cJSON_IsString_def cJSON_IsArray_def
      cJSON_IsObject_def cJSON_GetStringValue_def cJSON_GetNumberValue_def number_to_int_cases)+

text \<open>The item handed to parse\_value: fresh, or with only a name.\<close>

definition fresh :: "cJSON \<Rightarrow> bool" where
  "fresh it \<longleftrightarrow> (c_type it = 0 \<or> c_type it = cJSON_String) \<and> valuestring it = None \<and> children it = []"

lemma blocks_fresh: "fresh it \<Longrightarrow> blocks it = 1 + (if c_string it = None then 0 else 1)"
  by (cases it) (auto simp: fresh_def json_types)

lemma blocks_shape:
  "shape v \<Longrightarrow> blocks v = 1 + (if valuestring v = None then 0 else 1) +
     (if c_string v = None then 0 else 1) + sum_list (map blocks (children v))"
  by (cases v) (auto simp: json_types)

definition value_ok :: "cJSON \<Rightarrow> parse_buffer \<Rightarrow> cJSON option \<Rightarrow> parse_buffer \<Rightarrow> bool" where
  "value_ok it b r b' \<longleftrightarrow>
     (case r of
        None \<Rightarrow> moved b 0 b'
      | Some v \<Rightarrow> moved b (blocks v - blocks it) b' \<and> depth b' = depth b \<and> wf_buf b' \<and>
          offset b < offset b' \<and> shape v \<and> c_string v = c_string it)"

definition list_ok ::
    "bool \<Rightarrow> u8 \<Rightarrow> cJSON list \<Rightarrow> parse_buffer \<Rightarrow> cJSON list option \<Rightarrow> parse_buffer \<Rightarrow> bool" where
  "list_ok named cls acc b r b' \<longleftrightarrow>
     (case r of
        None \<Rightarrow> moved b (- sum_list (map blocks acc)) b'
      | Some xs \<Rightarrow> moved b (sum_list (map blocks xs) - sum_list (map blocks acc)) b' \<and>
          depth b' = depth b \<and> wf_buf b' \<and> cur b' = cls \<and> offset b \<le> offset b' \<and>
          (\<forall>x \<in> set xs. shape x \<and> (c_string x \<noteq> None) = named))"

lemma enter_safe:
  assumes "wf_buf b" and "cur b = opn" and "opn \<noteq> 0"
  shows "\<exists>r. enter opn cls b = Inr r \<and>
    (case r of
       Inl b' \<Rightarrow> moved b 0 b'
     | Inr (True, b') \<Rightarrow> moved b 0 b' \<and> wf_buf b' \<and> cur b' = cls \<and> offset b < offset b' \<and>
         depth b' = depth b + 1
     | Inr (False, b') \<Rightarrow> moved b 0 b' \<and> wf_buf b' \<and> offset b \<le> offset b' \<and>
         offset b' + 1 < pb_length b' \<and> depth b' = depth b + 1)"
proof (cases "depth b \<ge> CJSON_NESTING_LIMIT")
  case True
  then show ?thesis by (simp add: enter_def)
next
  case False
  let ?b1 = "b\<lparr>depth := depth b + 1\<rparr>"
  have wf1: "wf_buf ?b1" "cur ?b1 = opn" using assms by (simp_all add: cur_def)
  let ?b1' = "?b1\<lparr>offset := offset ?b1 + 1\<rparr>"
  have wf1': "wf_buf ?b1'" using wf_step[OF wf1(1)] wf1(2) assms(3) by simp
  obtain i where i: "buffer_skip_whitespace ?b1' = Inr (?b1'\<lparr>offset := i\<rparr>)" "offset ?b1' \<le> i" "i < pb_length ?b1'"
    using skip_ws_safe[OF wf1'] by blast
  let ?b2 = "?b1\<lparr>offset := i\<rparr>"
  have wf2: "wf_buf ?b2" using wf_offset[OF wf1(1)] i(3) by simp
  have i': "buffer_skip_whitespace ?b1' = Inr ?b2" "offset b + 1 \<le> i" "i < pb_length b" using i by simp_all
  show ?thesis
  proof (cases "cur ?b2 = cls")
    case True
    then have "enter opn cls b = Inr (Inr (True, ?b2))"
      using False wf_looking_at[OF wf1(1)] wf1(2) i'(1) wf_looking_at[OF wf2] by (simp add: enter_def Let_def)
    then show ?thesis using wf2 True i' by simp
  next
    case ne: False
    then have "enter opn cls b = Inr (Inr (False, ?b2\<lparr>offset := i - 1\<rparr>))"
      using False wf_looking_at[OF wf1(1)] wf1(2) i'(1) wf_looking_at[OF wf2] wf_access(1)[OF wf2]
      by (simp add: enter_def Let_def)
    moreover have "wf_buf (?b2\<lparr>offset := i - 1\<rparr>)" using wf_offset[OF wf2, of "i - 1"] i' by simp
    ultimately show ?thesis using i' by simp
  qed
qed

lemma leave_ok:
  assumes L: "list_ok named cls [] b1 (Some xs) b2" and "moved b 0 b1" and "offset b \<le> offset b1"
    and "depth b1 = depth b + 1" and "cls \<noteq> 0" and "fresh it"
    and t: "t = cJSON_Array \<and> \<not> named \<or> t = cJSON_Object \<and> named"
    and lv: "leave t it xs b2 = (r, b')"
  shows "value_ok it b r b'"
proof -
  have x: "moved b1 (sum_list (map blocks xs)) b2" "depth b2 = depth b1" "wf_buf b2" "cur b2 = cls"
    "offset b1 \<le> offset b2" "\<forall>x \<in> set xs. shape x \<and> (c_string x \<noteq> None) = named"
    using L by (simp_all add: list_ok_def)
  have r: "r = Some (set_children t xs it)" "b' = b2\<lparr>depth := depth b2 - 1, offset := offset b2 + 1\<rparr>"
    using lv by (auto simp: leave_def)
  have sh: "shape (set_children t xs it)"
    using t x(6) assms(6) by (auto simp: set_children_def fresh_def)
  have "blocks (set_children t xs it) = blocks it + sum_list (map blocks xs)"
    using blocks_shape[OF sh] blocks_fresh[OF assms(6)] assms(6) by (simp add: set_children_def fresh_def)
  moreover have "moved b (0 + sum_list (map blocks xs)) b2" by (rule moved_trans[OF assms(2) x(1)])
  moreover have "wf_buf (b2\<lparr>offset := offset b2 + 1\<rparr>)" using wf_step[OF x(3)] x(4) assms(5) by simp
  then have "wf_buf b'" using r(2) by (simp add: wf_buf_def)
  ultimately show ?thesis
    using r sh x(2,5) assms(3,4) by (simp add: value_ok_def set_children_def)
qed

section \<open>The parser proper\<close>

lemma new_item_cases:
  assumes "new_item b = (r, b1)"
  shows "r = None \<and> moved b 0 b1 \<and> offset b1 = offset b \<and> depth b1 = depth b \<or>
    r = Some blank_item \<and> moved b 1 b1 \<and> offset b1 = offset b \<and> depth b1 = depth b"
  using assms
  by (auto simp: new_item_def cJSON_New_Item_def allocate_def moved_def split: if_splits)

lemma delete_items_moved: "moved b n b1 \<Longrightarrow> moved b (n - sum_list (map blocks xs)) (delete_items xs b1)"
  by (simp add: moved_def delete_items_def cJSON_Delete_def release_def)

lemma fresh_blank: "fresh blank_item" "blocks blank_item = 1" "c_string blank_item = None"
  by (simp_all add: fresh_def blank_item_def)

lemma last_lit: "last (lit ''null'') \<noteq> 0" "last (lit ''false'') \<noteq> 0" "last (lit ''true'') \<noteq> 0"
  by (simp_all add: lit_def)

text \<open>The three literals.\<close>

lemma literal_ok:
  assumes "wf_buf b" and "starts_with b s = Inr True" and "s \<noteq> []" and "last s \<noteq> 0"
    and "fresh it" and "shape v" and "c_string v = c_string it" and "valuestring v = None"
    and "children v = []" and "length s = n"
  shows "value_ok it b (Some v) (b\<lparr>offset := offset b + n\<rparr>)"
  using starts_with_move[OF assms(2,1,3,4)] assms blocks_shape[OF assms(6)] blocks_fresh[OF assms(5)]
  by (auto simp: value_ok_def wf_buf_def)

definition value_total :: "nat \<Rightarrow> bool" where
  "value_total fuel \<longleftrightarrow> (\<forall>it b. wf_buf b \<longrightarrow> fresh it \<longrightarrow> 2 * (pb_length b - offset b) + 1 \<le> fuel \<longrightarrow>
     (\<exists>r b'. parse_value fuel it b = Inr (r, b') \<and> value_ok it b r b'))"

definition list_total ::
    "(nat \<Rightarrow> cJSON list \<Rightarrow> parse_buffer \<Rightarrow> (cJSON list option \<times> parse_buffer) cres) \<Rightarrow> bool \<Rightarrow> u8 \<Rightarrow>
     nat \<Rightarrow> bool" where
  "list_total loop named cls fuel \<longleftrightarrow> (\<forall>acc b. wf_buf b \<longrightarrow> offset b + 1 < pb_length b \<longrightarrow>
     2 * (pb_length b - offset b) \<le> fuel \<longrightarrow>
     (\<forall>x \<in> set acc. shape x \<and> (c_string x \<noteq> None) = named) \<longrightarrow>
     (\<exists>r b'. loop fuel acc b = Inr (r, b') \<and> list_ok named cls acc b r b'))"

text \<open>What parse\_value does for \<open>[\<close> and for \<open>{\<close>, given its loop.\<close>

lemma container_ok:
  assumes "wf_buf b" and "cur b = opn" and "opn \<noteq> 0" and "cls \<noteq> 0" and "fresh it"
    and t: "t = cJSON_Array \<and> \<not> named \<or> t = cJSON_Object \<and> named"
    and loop: "list_total loop named cls fuel" and fuel: "2 * (pb_length b - offset b) \<le> fuel"
  shows "\<exists>r b'. cbind (enter opn cls b) (\<lambda>r. case r of
        Inl b' \<Rightarrow> Inr (None, b')
      | Inr (True, b') \<Rightarrow> Inr (leave t it [] b')
      | Inr (False, b') \<Rightarrow> cbind (loop fuel [] b') (\<lambda>(ch, b2).
          Inr (case ch of None \<Rightarrow> (None, b2) | Some xs \<Rightarrow> leave t it xs b2))) = Inr (r, b') \<and>
    value_ok it b r b'"
proof -
  obtain e where e: "enter opn cls b = Inr e" "case e of
       Inl b' \<Rightarrow> moved b 0 b'
     | Inr (True, b') \<Rightarrow> moved b 0 b' \<and> wf_buf b' \<and> cur b' = cls \<and> offset b < offset b' \<and>
         depth b' = depth b + 1
     | Inr (False, b') \<Rightarrow> moved b 0 b' \<and> wf_buf b' \<and> offset b \<le> offset b' \<and>
         offset b' + 1 < pb_length b' \<and> depth b' = depth b + 1"
    using enter_safe[OF assms(1-3)] by blast
  consider b1 where "e = Inl b1" | b1 where "e = Inr (True, b1)" | b1 where "e = Inr (False, b1)"
    by (cases e) auto
  then show ?thesis
  proof cases
    case 1
    then show ?thesis using e by (simp add: value_ok_def)
  next
    case 2
    obtain r b' where lv: "leave t it [] b1 = (r, b')" by fastforce
    have "list_ok named cls [] b1 (Some []) b1" using e(2) 2 by (simp add: list_ok_def)
    then have "value_ok it b r b'"
      using leave_ok[OF _ _ _ _ assms(4,5) t lv] e(2) 2 by simp
    then show ?thesis using e(1) 2 lv by simp
  next
    case 3
    have "pb_length b1 - offset b1 \<le> pb_length b - offset b"
      using e(2) 3 by (auto simp: moved_def intro: diff_le_mono2)
    then have f: "2 * (pb_length b1 - offset b1) \<le> fuel" using fuel by linarith
    have "wf_buf b1" "offset b1 + 1 < pb_length b1" using e(2) 3 by simp_all
    then obtain r b2 where l: "loop fuel [] b1 = Inr (r, b2)" "list_ok named cls [] b1 r b2"
      using loop[unfolded list_total_def, rule_format, of b1 "[]"] f by auto
    show ?thesis
    proof (cases r)
      case None
      have "moved b (0 + 0) b2" using e(2) 3 l(2) None by (intro moved_trans[of b 0 b1 0 b2]) (simp_all add: list_ok_def)
      then show ?thesis using e(1) 3 l(1) None by (simp add: value_ok_def)
    next
      case (Some xs)
      obtain r' b' where lv: "leave t it xs b2 = (r', b')" by fastforce
      have "value_ok it b r' b'"
        using leave_ok[OF l(2)[unfolded Some] _ _ _ assms(4,5) t lv] e(2) 3 by simp
      then show ?thesis using e(1) 3 l(1) Some lv by simp
    qed
  qed
qed

text \<open>The three literals, the scalars and the containers of \<open>parse_value\<close>, each on its own.\<close>

lemma parse_value_literal:
  assumes wf: "wf_buf b" and fr: "fresh it" and lit: "n1 \<or> n2 \<or> n3"
    and st: "starts_with b (lit ''null'') = Inr n1" "starts_with b (lit ''false'') = Inr n2"
      "starts_with b (lit ''true'') = Inr n3"
  shows "\<exists>r b'. parse_value (Suc fuel) it b = Inr (r, b') \<and> value_ok it b r b'"
proof -
  have str: "children it = []" "valuestring it = None" using fr by (simp_all add: fresh_def)
  consider "n1" | "\<not> n1" "n2" | "\<not> n1" "\<not> n2" "n3" using lit by blast
  then show ?thesis
  proof cases
    case 1
    have "shape (with_type cJSON_NULL it)" using str by (simp add: with_type_def)
    from literal_ok[where n = 4, OF wf _ _ last_lit(1) fr this] show ?thesis
      using 1 st str by (simp add: with_type_def)
  next
    case 2
    have "shape (with_type cJSON_False it)" using str by (simp add: with_type_def)
    from literal_ok[where n = 5, OF wf _ _ last_lit(2) fr this] show ?thesis
      using 2 st str by (simp add: with_type_def)
  next
    case 3
    let ?v = "Item cJSON_True (valuestring it) 1 (valuedouble it) (c_string it) (children it)"
    have "shape ?v" using str by simp
    from literal_ok[where n = 4, OF wf _ _ last_lit(3) fr this] show ?thesis
      using 3 st str by simp
  qed
qed

lemma parse_string_value:
  assumes wf: "wf_buf b" and fr: "fresh it"
  shows "\<exists>r b'. parse_string it b = Inr (r, b') \<and> value_ok it b r b'"
proof -
  have str: "children it = []" using fr by (simp add: fresh_def)
  obtain r b' where ps: "parse_string it b = Inr (r, b')" "case r of
      None \<Rightarrow> moved b 0 b' \<and> depth b' = depth b
    | Some v \<Rightarrow> moved b 1 b' \<and> depth b' = depth b \<and> wf_buf b' \<and> offset b < offset b' \<and>
        c_type v = cJSON_String \<and> valuestring v \<noteq> None \<and> c_string v = c_string it \<and>
        children v = children it"
    using parse_string_safe[OF wf] by blast
  have "value_ok it b r b'"
  proof (cases r)
    case (Some v)
    then have sh: "shape v" using ps(2) str by (cases v) simp
    then show ?thesis using ps(2) Some str blocks_shape[OF sh] blocks_fresh[OF fr]
      by (auto simp: value_ok_def)
  qed (use ps(2) in \<open>simp add: value_ok_def\<close>)
  then show ?thesis using ps(1) by blast
qed

lemma parse_number_value:
  assumes wf: "wf_buf b" and fr: "fresh it"
  shows "\<exists>r b'. parse_number it b = Inr (r, b') \<and> value_ok it b r b'"
proof -
  have str: "children it = []" "valuestring it = None" using fr by (simp_all add: fresh_def)
  obtain r b' where pn: "parse_number it b = Inr (r, b')" "case r of
      None \<Rightarrow> b' = b
    | Some v \<Rightarrow> moved b 0 b' \<and> depth b' = depth b \<and> wf_buf b' \<and> offset b < offset b' \<and>
        c_type v = cJSON_Number \<and> number_to_int (valuedouble v) = Inr (valueint v) \<and>
        valuestring v = valuestring it \<and> c_string v = c_string it \<and> children v = children it"
    using parse_number_safe[OF wf] by blast
  have "value_ok it b r b'"
  proof (cases r)
    case (Some v)
    then have sh: "shape v" using pn(2) str by (cases v) simp
    then show ?thesis using pn(2) Some str blocks_shape[OF sh] blocks_fresh[OF fr]
      by (auto simp: value_ok_def)
  qed (use pn(2) in \<open>simp add: value_ok_def\<close>)
  then show ?thesis using pn(1) by blast
qed

lemma parse_value_by_byte:
  assumes wf: "wf_buf b" and fr: "fresh it" and fuel: "2 * (pb_length b - offset b) \<le> fuel"
    and el: "list_total parse_elements False 93 fuel" and me: "list_total parse_members True 125 fuel"
    and st: "starts_with b (lit ''null'') = Inr False" "starts_with b (lit ''false'') = Inr False"
      "starts_with b (lit ''true'') = Inr False"
  shows "\<exists>r b'. parse_value (Suc fuel) it b = Inr (r, b') \<and> value_ok it b r b'"
proof -
  note acc = wf_access[OF wf]
  have nd: "\<not> is_digit 91" "\<not> is_digit 123" by (simp_all add: is_digit_def)
  consider "cur b = 34" | "cur b \<noteq> 34" "cur b = 45 \<or> is_digit (cur b)" | "cur b = 91" | "cur b = 123"
    | (none) "cur b \<noteq> 34" "cur b \<noteq> 45 \<and> \<not> is_digit (cur b)" "cur b \<noteq> 91" "cur b \<noteq> 123" by blast
  then show ?thesis
  proof cases
    case 1
    have "parse_value (Suc fuel) it b = parse_string it b" using 1 st acc by simp
    then show ?thesis using parse_string_value[OF wf fr] by simp
  next
    case 2
    have "parse_value (Suc fuel) it b = parse_number it b" using 2 st acc by simp
    then show ?thesis using parse_number_value[OF wf fr] by simp
  next
    case 3
    show ?thesis using container_ok[OF wf 3 _ _ fr _ el fuel, of cJSON_Array] 3 nd st acc by simp
  next
    case 4
    show ?thesis using container_ok[OF wf 4 _ _ fr _ me fuel, of cJSON_Object] 4 nd st acc by simp
  next
    case none
    then show ?thesis using st acc by (simp add: value_ok_def)
  qed
qed

lemma parse_value_step:
  assumes el: "list_total parse_elements False 93 fuel" and me: "list_total parse_members True 125 fuel"
  shows "value_total (Suc fuel)"
  unfolding value_total_def
proof (intro allI impI)
  fix it b
  assume wf: "wf_buf b" and fr: "fresh it" and f: "2 * (pb_length b - offset b) + 1 \<le> Suc fuel"
  obtain n1 n2 n3 where st: "starts_with b (lit ''null'') = Inr n1" "starts_with b (lit ''false'') = Inr n2"
    "starts_with b (lit ''true'') = Inr n3" using starts_with_safe[OF wf] by blast
  have fuel: "2 * (pb_length b - offset b) \<le> fuel" using f by simp
  show "\<exists>r b'. parse_value (Suc fuel) it b = Inr (r, b') \<and> value_ok it b r b'"
  proof (cases "n1 \<or> n2 \<or> n3")
    case True
    then show ?thesis by (rule parse_value_literal[OF wf fr _ st])
  next
    case False
    then show ?thesis using parse_value_by_byte[OF wf fr fuel el me] st by simp
  qed
qed

lemma skip_next:
  assumes "wf_buf b" and "offset b + 1 < pb_length b"
  shows "\<exists>i. buffer_skip_whitespace (b\<lparr>offset := offset b + 1\<rparr>) = Inr (b\<lparr>offset := i\<rparr>) \<and>
    offset b < i \<and> i < pb_length b \<and> wf_buf (b\<lparr>offset := i\<rparr>)"
proof -
  have "wf_buf (b\<lparr>offset := offset b + 1\<rparr>)" using assms by (intro wf_offset)
  from skip_ws_safe[OF this] obtain i where
    "buffer_skip_whitespace (b\<lparr>offset := offset b + 1\<rparr>) = Inr (b\<lparr>offset := i\<rparr>)"
    "offset b + 1 \<le> i" "i < pb_length b" by auto
  then show ?thesis using wf_offset[OF assms(1), of i] by auto
qed

lemma step_room: "wf_buf b \<Longrightarrow> cur b \<noteq> 0 \<Longrightarrow> offset b + 1 < pb_length b"
  using wf_step[of b] by (simp add: wf_buf_def)

text \<open>The end of one turn of either loop, after the value \<open>w\<close> has been parsed.\<close>

lemma list_tail:
  assumes wf: "wf_buf b3" and m3: "moved b (blocks w) b3" and lt: "offset b < offset b3"
    and d: "depth b3 = depth b" and w: "shape w" "(c_string w \<noteq> None) = named"
    and acc: "\<forall>x \<in> set acc. shape x \<and> (c_string x \<noteq> None) = named"
    and loop: "list_total loop named cls fuel" and f: "2 * (pb_length b - offset b) \<le> Suc fuel"
  shows "\<exists>r b'. cbind (buffer_skip_whitespace b3) (\<lambda>b4.
      cbind (looking_at b4 44) (\<lambda>comma.
      if comma then loop fuel (acc @ [w]) b4
      else cbind (looking_at b4 cls) (\<lambda>closed.
        if closed then Inr (Some (acc @ [w]), b4)
        else Inr (None, delete_items (acc @ [w]) b4)))) = Inr (r, b') \<and> list_ok named cls acc b r b'"
    (is "\<exists>r b'. ?tail = Inr (r, b') \<and> _")
proof -
  obtain k where k: "buffer_skip_whitespace b3 = Inr (b3\<lparr>offset := k\<rparr>)" "offset b3 \<le> k" "k < pb_length b3"
    using skip_ws_safe[OF wf] by blast
  let ?b4 = "b3\<lparr>offset := k\<rparr>"
  have wf4: "wf_buf ?b4" using wf_offset[OF wf k(3)] .
  have m4: "moved b (blocks w) ?b4" using m3 by simp
  have step: "?tail =
      (if cur ?b4 = 44 then loop fuel (acc @ [w]) ?b4
       else if cur ?b4 = cls then Inr (Some (acc @ [w]), ?b4)
       else Inr (None, delete_items (acc @ [w]) ?b4))"
    using k(1) wf_looking_at[OF wf4] by simp
  have acc': "\<forall>x \<in> set (acc @ [w]). shape x \<and> (c_string x \<noteq> None) = named" using acc w by auto
  have le: "offset b \<le> k" using lt k(2) by simp
  show ?thesis
  proof (cases "cur ?b4 = 44")
    case True
    have "offset ?b4 + 1 < pb_length ?b4" by (rule step_room[OF wf4]) (simp add: True)
    moreover have "2 * (pb_length ?b4 - offset ?b4) \<le> fuel"
      using f lt k(2,3) m3 by (simp add: moved_def)
    ultimately obtain r5 b5 where l: "loop fuel (acc @ [w]) ?b4 = Inr (r5, b5)"
      "list_ok named cls (acc @ [w]) ?b4 r5 b5"
      using loop wf4 acc' unfolding list_total_def by blast
    have "list_ok named cls acc b r5 b5"
      using l(2) moved_trans[OF m4] le d by (cases r5) (force simp: list_ok_def)+
    then show ?thesis using step True l(1) by simp
  next
    case False
    show ?thesis
    proof (cases "cur ?b4 = cls")
      case True
      then have "list_ok named cls acc b (Some (acc @ [w])) ?b4"
        using m4 wf4 acc' le d by (simp add: list_ok_def)
      then show ?thesis using step False True by simp
    next
      case nc: False
      have "moved b (blocks w - sum_list (map blocks (acc @ [w]))) (delete_items (acc @ [w]) ?b4)"
        by (rule delete_items_moved[OF m4])
      then show ?thesis using step False nc by (simp add: list_ok_def)
    qed
  qed
qed

text \<open>A turn that fails deletes the list and the item \<open>it\<close> it was working on.\<close>

lemma list_abort:
  "moved b (blocks it) b3 \<Longrightarrow> list_ok named cls acc b None (delete_items (acc @ [it]) b3)"
  using delete_items_moved[of b "blocks it" b3 "acc @ [it]"] by (simp add: list_ok_def)

lemma new_item_room:
  assumes "new_item b = (Some it, b1)" and "wf_buf b" and "offset b + 1 < pb_length b"
  shows "it = blank_item \<and> moved b 1 b1 \<and> depth b1 = depth b \<and>
    (\<exists>i. buffer_skip_whitespace (b1\<lparr>offset := offset b1 + 1\<rparr>) = Inr (b1\<lparr>offset := i\<rparr>) \<and>
      offset b < i \<and> i < pb_length b \<and> wf_buf (b1\<lparr>offset := i\<rparr>))"
proof -
  have b1: "it = blank_item" "moved b 1 b1" "offset b1 = offset b" "depth b1 = depth b"
    using new_item_cases[OF assms(1)] by simp_all
  have wf1: "wf_buf b1" "offset b1 + 1 < pb_length b1" "pb_length b1 = pb_length b"
    using wf_moved[OF assms(2) b1(2)] b1 assms(3) by (simp_all add: moved_def)
  show ?thesis using skip_next[OF wf1(1,2)] b1 wf1(3) by auto
qed

lemma parse_elements_step:
  assumes v: "value_total fuel" and el: "list_total parse_elements False 93 fuel"
  shows "list_total parse_elements False 93 (Suc fuel)"
  unfolding list_total_def
proof (intro allI impI)
  fix acc b
  assume wf: "wf_buf b" and room: "offset b + 1 < pb_length b"
    and f: "2 * (pb_length b - offset b) \<le> Suc fuel"
    and acc: "\<forall>x \<in> set acc. shape x \<and> (c_string x \<noteq> None) = False"
  obtain n b1 where ni: "new_item b = (n, b1)" by fastforce
  show "\<exists>r b'. parse_elements (Suc fuel) acc b = Inr (r, b') \<and> list_ok False 93 acc b r b'"
  proof (cases n)
    case None
    then have "moved b 0 b1" using new_item_cases[OF ni] by simp
    from delete_items_moved[OF this, of acc] show ?thesis using ni None by (simp add: list_ok_def)
  next
    case (Some it)
    obtain i where it: "it = blank_item" and b1: "moved b 1 b1" "depth b1 = depth b"
      and i: "buffer_skip_whitespace (b1\<lparr>offset := offset b1 + 1\<rparr>) = Inr (b1\<lparr>offset := i\<rparr>)"
        "offset b < i" "i < pb_length b" "wf_buf (b1\<lparr>offset := i\<rparr>)"
      using new_item_room[OF ni[unfolded Some] wf room] by blast
    let ?b2 = "b1\<lparr>offset := i\<rparr>"
    have "2 * (pb_length ?b2 - offset ?b2) + 1 \<le> fuel" using f i(2,3) b1(1) by (simp add: moved_def)
    then obtain r b3 where pv: "parse_value fuel it ?b2 = Inr (r, b3)" "value_ok it ?b2 r b3"
      using v i(4) fresh_blank(1) it unfolding value_total_def by blast
    show ?thesis
    proof (cases r)
      case None
      have "moved b (1 + 0) b3"
        using moved_trans[OF b1(1), of 0 b3] pv(2) None by (simp add: value_ok_def)
      then show ?thesis
        using ni Some i(1) pv(1) None it fresh_blank(2) list_abort[of b it b3 False 93 acc] by simp
    next
      case (Some w)
      have w: "moved ?b2 (blocks w - 1) b3" "depth b3 = depth ?b2" "wf_buf b3" "offset ?b2 < offset b3"
        "shape w" "c_string w = None"
        using pv(2) Some it fresh_blank by (simp_all add: value_ok_def)
      have m3: "moved b (blocks w) b3" using moved_trans[OF b1(1), of "blocks w - 1" b3] w(1) by simp
      show ?thesis
        using list_tail[OF w(3) m3 _ _ w(5) _ acc el f] w i(1,2) b1(2) ni \<open>n = Some it\<close> pv(1) Some
        by simp
    qed
  qed
qed

lemma name_item_fresh:
  "c_type k = cJSON_String \<Longrightarrow> valuestring k \<noteq> None \<Longrightarrow> children k = [] \<Longrightarrow>
   fresh (name_item k) \<and> blocks (name_item k) = 2 \<and> c_string (name_item k) \<noteq> None"
  by (auto simp: fresh_def name_item_def json_types)

text \<open>A member after its colon, then a member after its name: the rest of one round of the loop.\<close>

lemma member_value:
  assumes v: "value_total fuel" and me: "list_total parse_members True 125 fuel"
    and wf: "wf_buf b5" and m: "moved b 2 b5" and d: "depth b5 = depth b" and lt: "offset b < offset b5"
    and nm: "fresh nm" "blocks nm = 2" "c_string nm \<noteq> None"
    and acc: "\<forall>x \<in> set acc. shape x \<and> (c_string x \<noteq> None) = True"
    and f: "2 * (pb_length b - offset b) \<le> Suc fuel"
  shows "\<exists>r b'. cbind (parse_value fuel nm b5) (\<lambda>(r2, b6).
      case r2 of
        None \<Rightarrow> Inr (None, delete_items (acc @ [nm]) b6)
      | Some v \<Rightarrow>
          cbind (buffer_skip_whitespace b6) (\<lambda>b7.
          cbind (looking_at b7 44) (\<lambda>comma.
          if comma then parse_members fuel (acc @ [v]) b7
          else cbind (looking_at b7 125) (\<lambda>closed.
            if closed then Inr (Some (acc @ [v]), b7)
            else Inr (None, delete_items (acc @ [v]) b7))))) = Inr (r, b') \<and> list_ok True 125 acc b r b'"
proof -
  have "offset b5 < pb_length b5" using wf by (simp add: wf_buf_def)
  then have "2 * (pb_length b5 - offset b5) + 1 \<le> fuel" using f lt m by (simp add: moved_def)
  then obtain r2 b6 where pv: "parse_value fuel nm b5 = Inr (r2, b6)" "value_ok nm b5 r2 b6"
    using v wf nm(1) unfolding value_total_def by blast
  show ?thesis
  proof (cases r2)
    case None
    have "moved b (2 + 0) b6" using moved_trans[OF m, of 0 b6] pv(2) None by (simp add: value_ok_def)
    then have "list_ok True 125 acc b None (delete_items (acc @ [nm]) b6)"
      using nm(2) by (intro list_abort) simp
    then show ?thesis using pv(1) None by simp
  next
    case (Some w)
    have ww: "moved b5 (blocks w - 2) b6" "depth b6 = depth b" "wf_buf b6" "offset b < offset b6"
      "shape w" "(c_string w \<noteq> None) = True"
      using pv(2) Some nm d lt by (simp_all add: value_ok_def)
    have m6: "moved b (blocks w) b6" using moved_trans[OF m, of "blocks w - 2" b6] ww(1) by simp
    show ?thesis using list_tail[OF ww(3) m6 ww(4) ww(2) ww(5) ww(6) acc me f] pv(1) Some by simp
  qed
qed

lemma member_after_name:
  assumes v: "value_total fuel" and me: "list_total parse_members True 125 fuel"
    and wf: "wf_buf b3" and m: "moved b 2 b3" and d: "depth b3 = depth b" and lt: "offset b < offset b3"
    and nm: "fresh nm" "blocks nm = 2" "c_string nm \<noteq> None"
    and acc: "\<forall>x \<in> set acc. shape x \<and> (c_string x \<noteq> None) = True"
    and f: "2 * (pb_length b - offset b) \<le> Suc fuel"
  shows "\<exists>r b'. cbind (buffer_skip_whitespace b3) (\<lambda>b4.
      cbind (looking_at b4 58) (\<lambda>colon.
      if \<not> colon then Inr (None, delete_items (acc @ [nm]) b4)
      else cbind (buffer_skip_whitespace (b4\<lparr>offset := offset b4 + 1\<rparr>)) (\<lambda>b5.
        cbind (parse_value fuel nm b5) (\<lambda>(r2, b6).
        case r2 of
          None \<Rightarrow> Inr (None, delete_items (acc @ [nm]) b6)
        | Some v \<Rightarrow>
            cbind (buffer_skip_whitespace b6) (\<lambda>b7.
            cbind (looking_at b7 44) (\<lambda>comma.
            if comma then parse_members fuel (acc @ [v]) b7
            else cbind (looking_at b7 125) (\<lambda>closed.
              if closed then Inr (Some (acc @ [v]), b7)
              else Inr (None, delete_items (acc @ [v]) b7)))))))) = Inr (r, b') \<and>
      list_ok True 125 acc b r b'"
proof -
  obtain j where j: "buffer_skip_whitespace b3 = Inr (b3\<lparr>offset := j\<rparr>)" "offset b3 \<le> j" "j < pb_length b3"
    using skip_ws_safe[OF wf] by blast
  let ?b4 = "b3\<lparr>offset := j\<rparr>"
  have wf4: "wf_buf ?b4" using wf_offset[OF wf j(3)] .
  show ?thesis
  proof (cases "cur ?b4 = 58")
    case False
    have "list_ok True 125 acc b None (delete_items (acc @ [nm]) ?b4)"
      using m nm(2) by (intro list_abort) simp
    then show ?thesis using j(1) wf_looking_at[OF wf4] False by simp
  next
    case True
    have "offset ?b4 + 1 < pb_length ?b4" by (rule step_room[OF wf4]) (simp add: True)
    then obtain q where q: "buffer_skip_whitespace (?b4\<lparr>offset := offset ?b4 + 1\<rparr>) = Inr (?b4\<lparr>offset := q\<rparr>)"
      "offset ?b4 < q" "wf_buf (?b4\<lparr>offset := q\<rparr>)"
      using skip_next[OF wf4] by blast
    let ?b5 = "b3\<lparr>offset := q\<rparr>"
    have q': "buffer_skip_whitespace (b3\<lparr>offset := j + 1\<rparr>) = Inr ?b5" "wf_buf ?b5" using q by simp_all
    have "offset b < offset ?b5" "moved b 2 ?b5" "depth ?b5 = depth b" using lt j(2) q(2) m d by simp_all
    from member_value[OF v me q'(2) this(2,3,1) nm acc f] show ?thesis
      using j(1) wf_looking_at[OF wf4] True q'(1) by simp
  qed
qed

lemma parse_members_step:
  assumes v: "value_total fuel" and me: "list_total parse_members True 125 fuel"
  shows "list_total parse_members True 125 (Suc fuel)"
  unfolding list_total_def
proof (intro allI impI)
  fix acc b
  assume wf: "wf_buf b" and room: "offset b + 1 < pb_length b"
    and f: "2 * (pb_length b - offset b) \<le> Suc fuel"
    and acc: "\<forall>x \<in> set acc. shape x \<and> (c_string x \<noteq> None) = True"
  obtain n b1 where ni: "new_item b = (n, b1)" by fastforce
  show "\<exists>r b'. parse_members (Suc fuel) acc b = Inr (r, b') \<and> list_ok True 125 acc b r b'"
  proof (cases n)
    case None
    then have "moved b 0 b1" using new_item_cases[OF ni] by simp
    from delete_items_moved[OF this, of acc] show ?thesis using ni None by (simp add: list_ok_def)
  next
    case (Some it)
    obtain i where it: "it = blank_item" and b1: "moved b 1 b1" "depth b1 = depth b"
      and i: "buffer_skip_whitespace (b1\<lparr>offset := offset b1 + 1\<rparr>) = Inr (b1\<lparr>offset := i\<rparr>)"
        "offset b < i" "i < pb_length b" "wf_buf (b1\<lparr>offset := i\<rparr>)"
      using new_item_room[OF ni[unfolded Some] wf room] by blast
    let ?b2 = "b1\<lparr>offset := i\<rparr>"
    obtain r b3 where ps: "parse_string it ?b2 = Inr (r, b3)" "case r of
        None \<Rightarrow> moved ?b2 0 b3 \<and> depth b3 = depth ?b2
      | Some v \<Rightarrow> moved ?b2 1 b3 \<and> depth b3 = depth ?b2 \<and> wf_buf b3 \<and> offset ?b2 < offset b3 \<and>
          c_type v = cJSON_String \<and> valuestring v \<noteq> None \<and> c_string v = c_string it \<and>
          children v = children it"
      using parse_string_safe[OF i(4)] by blast
    show ?thesis
    proof (cases r)
      case None
      have "moved b (1 + 0) b3" using moved_trans[OF b1(1), of 0 b3] ps(2) None by simp
      then show ?thesis
        using ni Some i(1) ps(1) None it fresh_blank(2) list_abort[of b it b3 True 125 acc] by simp
    next
      case k: (Some k)
      have kk: "wf_buf b3" "c_type k = cJSON_String" "valuestring k \<noteq> None" "children k = []"
        using ps(2) k it by (simp_all add: blank_item_def)
      have "moved b 2 b3" using moved_trans[OF b1(1), of 1 b3] ps(2) k by simp
      moreover have "depth b3 = depth b" "offset b < offset b3" using ps(2) k b1(2) i(2) by simp_all
      moreover have "fresh (name_item k)" "blocks (name_item k) = 2" "c_string (name_item k) \<noteq> None"
        using name_item_fresh[OF kk(2-4)] by simp_all
      ultimately show ?thesis
        using member_after_name[OF v me kk(1) _ _ _ _ _ _ acc f, of "name_item k"]
          ni Some i(1) ps(1) k by (simp add: Let_def)
    qed
  qed
qed

lemma parser_total:
  "value_total fuel \<and> list_total parse_elements False 93 fuel \<and> list_total parse_members True 125 fuel"
proof (induction fuel)
  case 0
  show ?case by (auto simp: value_total_def list_total_def)
next
  case (Suc fuel)
  then show ?case using parse_value_step parse_elements_step parse_members_step by blast
qed

section \<open>The entry points\<close>

lemma skip_bom_safe:
  assumes "wf_buf b" and "offset b = 0"
  shows "\<exists>i. skip_utf8_bom b = Inr (Some (b\<lparr>offset := i\<rparr>)) \<and> wf_buf (b\<lparr>offset := i\<rparr>)"
proof (cases "can_access_at_index b 4")
  case True
  then have i: "3 < pb_length b" "pb_length b \<le> length (content b)"
    using assms by (simp_all add: can_access_at_index_def wf_buf_def)
  then have "slice (content b) (offset b) 3 = Inr (take 3 (content b))" using assms(2) by (simp add: slice_def)
  then have "skip_utf8_bom b =
      Inr (Some (b\<lparr>offset := (if take 3 (content b) = [0xEF, 0xBB, 0xBF] then 3 else 0)\<rparr>))"
    using True assms(2) by (simp add: skip_utf8_bom_def)
  moreover have "wf_buf (b\<lparr>offset := (if take 3 (content b) = [0xEF, 0xBB, 0xBF] then 3 else 0)\<rparr>)"
    using i assms by (intro wf_offset) auto
  ultimately show ?thesis by blast
next
  case False
  then have "skip_utf8_bom b = Inr (Some (b\<lparr>offset := 0\<rparr>))" using assms(2) by (simp add: skip_utf8_bom_def)
  moreover have "b\<lparr>offset := 0\<rparr> = b" using assms(2) by simp
  ultimately show ?thesis using assms(1) by metis
qed

lemma parse_fail_bounds:
  "parse_fail it b = (r, p, h) \<Longrightarrow> 0 < pb_length b \<Longrightarrow> r = None \<and> p < pb_length b \<and>
   h_live h = h_live (pb_heap b) - (case it of None \<Rightarrow> 0 | Some i \<Rightarrow> blocks i)"
  by (auto simp: parse_fail_def cJSON_Delete_def release_def split: if_splits option.splits)

text \<open>
  On a buffer whose last byte is NUL the parser always returns; the position it reports is
  inside the text, and the allocator holds exactly the blocks of the item it returns.
\<close>

definition parse_result_ok :: "nat \<Rightarrow> heap \<Rightarrow> cJSON option \<times> nat \<times> heap \<Rightarrow> bool" where
  "parse_result_ok len h res \<longleftrightarrow> (case res of (r, p, h') \<Rightarrow>
     p < len \<and> h_live h' = h_live h + (case r of None \<Rightarrow> 0 | Some v \<Rightarrow> blocks v) \<and>
     (case r of None \<Rightarrow> True | Some v \<Rightarrow> 0 < p \<and> shape v \<and> c_string v = None))"

lemma parse_fail_ok:
  assumes "parse_fail it b = res" and "0 < pb_length b"
    and "h_live (pb_heap b) = h_live h + (case it of None \<Rightarrow> 0 | Some i \<Rightarrow> blocks i)"
  shows "parse_result_ok (pb_length b) h res"
  using assms parse_fail_bounds[of it b] by (cases res) (auto simp: parse_result_ok_def)

text \<open>The end of the parse: the value is read into \<open>v\<close>, and the caller may require the end of the text.\<close>

lemma parse_end:
  assumes wf: "wf_buf b4" and len: "pb_length b4 = len" and len0: "0 < len" and v: "shape v" "c_string v = None"
    and off: "0 < offset b4" and live: "h_ok (pb_heap b4) = h_ok h" "h_live (pb_heap b4) = h_live h + blocks v"
  shows "\<exists>res. (if req then
        cbind (buffer_skip_whitespace b4) (\<lambda>b5.
        cbind (looking_at b5 0) (\<lambda>term.
        if \<not> term then Inr (parse_fail (Some v) b5)
        else Inr (Some v, offset b5, pb_heap b5)))
      else Inr (Some v, offset b4, pb_heap b4)) = Inr res \<and> parse_result_ok len h res"
proof (cases req)
  case False
  then show ?thesis using assms by (simp add: parse_result_ok_def wf_buf_def)
next
  case True
  obtain q where q: "buffer_skip_whitespace b4 = Inr (b4\<lparr>offset := q\<rparr>)" "offset b4 \<le> q" "q < pb_length b4"
    using skip_ws_safe[OF wf] by blast
  let ?b5 = "b4\<lparr>offset := q\<rparr>"
  have wf5: "wf_buf ?b5" using wf_offset[OF wf q(3)] .
  have "parse_result_ok len h (Some v, q, pb_heap b4)" using assms q by (simp add: parse_result_ok_def)
  moreover have "parse_result_ok (pb_length ?b5) h (parse_fail (Some v) ?b5)"
    using assms by (intro parse_fail_ok[OF refl]) simp_all
  ultimately show ?thesis
    using True q(1) wf_looking_at[OF wf5] len by (cases "cur ?b5 = 0") simp_all
qed

lemma cJSON_ParseWithLengthOpts_total:
  assumes "0 < len" and "len \<le> length m" and "m ! (len - 1) = 0"
  shows "\<exists>res. cJSON_ParseWithLengthOpts (Some m) len req h = Inr res \<and> parse_result_ok len h res"
proof -
  let ?b0 = "\<lparr>content = m, pb_length = len, offset = 0, depth = 0, pb_heap = h\<rparr>"
  have wf0: "wf_buf ?b0" using assms by (simp add: wf_buf_def)
  obtain n b1 where ni: "new_item ?b0 = (n, b1)" by fastforce
  show ?thesis
  proof (cases n)
    case None
    have "parse_result_ok (pb_length b1) h (parse_fail None b1)"
      using new_item_cases[OF ni] None assms(1) by (intro parse_fail_ok[OF refl]) (simp_all add: moved_def)
    then show ?thesis
      using assms(1) ni None new_item_cases[OF ni] by (simp add: cJSON_ParseWithLengthOpts_def Let_def moved_def)
  next
    case (Some it)
    then have it: "it = blank_item" and b1: "moved ?b0 1 b1" "offset b1 = 0"
      using new_item_cases[OF ni] by auto
    have wf1: "wf_buf b1" using wf_moved[OF wf0 b1(1)] b1 assms(1) by (simp add: moved_def)
    obtain i where i: "skip_utf8_bom b1 = Inr (Some (b1\<lparr>offset := i\<rparr>))" "wf_buf (b1\<lparr>offset := i\<rparr>)"
      using skip_bom_safe[OF wf1 b1(2)] by blast
    obtain k where k: "buffer_skip_whitespace (b1\<lparr>offset := i\<rparr>) = Inr (b1\<lparr>offset := k\<rparr>)" "k < pb_length b1"
      using skip_ws_safe[OF i(2)] by auto
    let ?b3 = "b1\<lparr>offset := k\<rparr>"
    have wf3: "wf_buf ?b3" using wf_offset[OF wf1 k(2)] .
    have "2 * (pb_length ?b3 - offset ?b3) + 1 \<le> parse_fuel len"
      using b1(1) by (simp add: parse_fuel_def moved_def)
    then obtain r b4 where pv: "parse_value (parse_fuel len) it ?b3 = Inr (r, b4)" "value_ok it ?b3 r b4"
      using parser_total[of "parse_fuel len"] wf3 it fresh_blank(1) unfolding value_total_def by blast
    have len4: "pb_length b4 = len" "pb_length b1 = len"
      using pv(2) b1(1) by (auto simp: value_ok_def moved_def split: option.splits)
    note run = cJSON_ParseWithLengthOpts_def Let_def
    show ?thesis
    proof (cases r)
      case None
      have "moved ?b0 (1 + 0) b4"
        using moved_trans[OF b1(1), of 0 b4] pv(2) None by (simp add: value_ok_def)
      then have "parse_result_ok (pb_length b4) h (parse_fail (Some it) b4)"
        using it fresh_blank(2) assms(1) len4(1) by (intro parse_fail_ok[OF refl]) (simp_all add: moved_def)
      then show ?thesis using assms(1) ni Some i(1) k(1) pv(1) None len4(1) by (simp add: run)
    next
      case v: (Some v)
      have vv: "moved ?b3 (blocks v - 1) b4" "wf_buf b4" "k < offset b4" "shape v" "c_string v = None"
        using pv(2) v it fresh_blank by (simp_all add: value_ok_def)
      have m4: "moved ?b0 (blocks v) b4" using moved_trans[OF b1(1), of "blocks v - 1" b4] vv(1) by simp
      have off: "0 < offset b4" using vv(3) by simp
      from parse_end[OF vv(2) len4(1) assms(1) vv(4,5) off, of h req] show ?thesis
        using m4 assms(1) ni Some i(1) k(1) pv(1) v by (simp add: run moved_def)
    qed
  qed
qed

lemma cJSON_ParseWithOpts_total:
  assumes "0 \<in> set m"
  shows "\<exists>res. cJSON_ParseWithOpts (Some m) req h = Inr res \<and> parse_result_ok (length (cstr m) + 1) h res"
proof -
  let ?n = "length (cstr m)"
  have n: "?n < length m" using assms by (rule cstr_length_less)
  have z: "m ! ?n = 0" using n nth_length_takeWhile[of "\<lambda>b. b \<noteq> 0" m] by (simp add: cstr_def)
  have "\<exists>res. cJSON_ParseWithLengthOpts (Some m) (?n + 1) req h = Inr res \<and> parse_result_ok (?n + 1) h res"
    using n z by (intro cJSON_ParseWithLengthOpts_total) simp_all
  then show ?thesis using assms by (simp add: cJSON_ParseWithOpts_def c_strlen_def)
qed

end
