(* ===== verification/Conf.thy ===== *)
theory Conf
  imports Broker Shm JsonSafe
begin

text \<open>
  Reading the configuration: init\_shm, get\_icehydra\_json\_node and get\_node\_start of
  src/conf.c, over the file reader, the JSON parser, the shared-memory calls (System V, the
  default) and the intrusive list of nodes.
\<close>

section \<open>One node\<close>

definition KEY_NAME :: bytes where "KEY_NAME = lit ''ih-name''"
definition KEY_PID :: bytes where "KEY_PID = lit ''ih-pid''"
definition KEY_CPU :: bytes where "KEY_CPU = lit ''ih-cpu_bind''"
definition KEY_SHM :: bytes where "KEY_SHM = lit ''ih-shm''"

definition item_list :: "bytes list" where
  "item_list = [KEY_NAME, KEY_PID, KEY_CPU, KEY_SHM]"

definition MAX_PATH :: nat where "MAX_PATH = 128"

text \<open>
  strcpy of a C string into a char array of \<open>cap\<close> bytes: what is stored, or a fault when it does
  not fit.
\<close>

definition strcpy_to :: "nat \<Rightarrow> bytes option \<Rightarrow> bytes cres" where
  "strcpy_to cap src =
     cbind (deref src) (\<lambda>s. if length (cstr s) + 1 \<le> cap then Inr (cstr s) else Inl OOB)"

text \<open>
  The loop of \<open>init_shm\<close> over the entries, with the counter \<open>shm_proj_id\<close> (an uint8\_t) and the
  number of table slots left; the result is the table, the counter and the calls made.  \<open>k r\<close> is
  what the kernel answers while the entry with \<open>r\<close> slots left is created.
\<close>

fun init_shm_loop ::
    "(nat \<Rightarrow> shm_kernel) \<Rightarrow> bytes \<Rightarrow> nat \<Rightarrow> u8 \<Rightarrow> cJSON list \<Rightarrow>
     (SHM_NODE_T list \<times> u8 \<times> shm_act list) cres" where
  "init_shm_loop k filename room pid [] = Inr ([], pid, [])"
| "init_shm_loop k filename room pid (j # js) =
     (let pid' = pid + 1;
          nm = cJSON_GetObjectItemCaseSensitive (Some j) (Some (lit ''shm_name''));
          sz = cJSON_GetObjectItemCaseSensitive (Some j) (Some (lit ''shm_size'')) in
      cbind (deref sz) (\<lambda>szi.
      cbind (shm_create (k room) \<lparr>sh_size = valueint szi, sh_proj_id = uint pid', sh_id = 0,
               sh_filename = Some filename, sh_mem_ptr = None\<rparr>) (\<lambda>(_, shm, acts).
      if sh_mem_ptr shm = None then Inl AssertFailed
      else if room = 0 then Inl OOB
      else cbind (deref nm) (\<lambda>nmi.
        cbind (strcpy_to MAX_FILE_NAME (valuestring nmi)) (\<lambda>name.
        cbind (init_shm_loop k filename (room - 1) pid' js) (\<lambda>(rest, pid'', acts').
        Inr (\<lparr>shm_name = name, shm_id = word_of_int (sh_id shm), shm_size = word_of_int (sh_size shm)\<rparr>
               # rest, pid'', acts @ Unmap (sh_mem_ptr shm) # acts')))))))"

definition init_shm ::
    "(nat \<Rightarrow> shm_kernel) \<Rightarrow> bool \<Rightarrow> pub_sub_node_t \<Rightarrow> cJSON \<Rightarrow> (int \<times> pub_sub_node_t \<times> shm_act list) cres" where
  "init_shm k calloc_ok node json =
     (if \<not> calloc_ok then Inr (-1, node\<lparr>nd_shm_node_ptr := None\<rparr>, [])
      else
        let filename = NAME_PREFIX @ nd_name node in
        if length filename + 1 > MAX_PATH then Inl OOB
        else cbind (init_shm_loop k filename (nat (cJSON_GetArraySize (Some json))) 0 (children json))
          (\<lambda>(table, pid, acts).
          Inr (0, node\<lparr>nd_shm_node_ptr := Some table, nd_shm_node_num := uint pid\<rparr>, acts)))"

text \<open>
  One turn of the loop over \<open>item_list\<close>: the member is looked up without regard to case, then
  its actual name is compared exactly with each of the four.
\<close>

definition apply_item ::
    "(nat \<Rightarrow> shm_kernel) \<Rightarrow> bool \<Rightarrow> cJSON \<Rightarrow> pub_sub_node_t \<Rightarrow> (pub_sub_node_t \<times> shm_act list) cres" where
  "apply_item k calloc_ok object node =
     cbind (deref (c_string object)) (\<lambda>nm.
     let key = cstr nm in
     cbind (if key = KEY_NAME
            then cbind (strcpy_to MAX_FILE_NAME (valuestring object)) (\<lambda>s. Inr (node\<lparr>nd_name := s\<rparr>))
            else Inr node) (\<lambda>n1.
     let n2 = (if key = KEY_PID
               then n1\<lparr>nd_id := valueint object,
                       nd_type := (if valueint object = 0 then CHUNK_TYPE_PUB else CHUNK_TYPE_SUB)\<rparr>
               else n1);
         n3 = (if key = KEY_CPU then n2\<lparr>nd_cpu_bind := valueint object\<rparr> else n2) in
     if key = KEY_SHM then cbind (init_shm k calloc_ok n3 object) (\<lambda>(_, n4, acts). Inr (n4, acts))
     else Inr (n3, [])))"

fun apply_items ::
    "(nat \<Rightarrow> shm_kernel) \<Rightarrow> bool \<Rightarrow> cJSON \<Rightarrow> bytes list \<Rightarrow> pub_sub_node_t \<Rightarrow> (pub_sub_node_t \<times> shm_act list) cres"
where
  "apply_items k calloc_ok json [] node = Inr (node, [])"
| "apply_items k calloc_ok json (key # keys) node =
     (case cJSON_GetObjectItem (Some json) (Some key) of
        None \<Rightarrow> apply_items k calloc_ok json keys node
      | Some object \<Rightarrow>
          cbind (apply_item k calloc_ok object node) (\<lambda>(node', acts).
          cbind (apply_items k calloc_ok json keys node') (\<lambda>(node'', acts').
          Inr (node'', acts @ acts'))))"

definition get_icehydra_json_node ::
    "(nat \<Rightarrow> shm_kernel) \<Rightarrow> bool \<Rightarrow> bool \<Rightarrow> cJSON \<Rightarrow> (pub_sub_node_t \<times> shm_act list) cres" where
  "get_icehydra_json_node k node_ok table_ok json =
     cbind (create_pub_sub_object node_ok) (\<lambda>obj. apply_items k table_ok json item_list obj)"

section \<open>All nodes\<close>

text \<open>
  The registry: the nodes by address (the i-th node read has address i), the links of their
  \<open>node_list\<close> members, how many there are (\<open>node_count\<close>) and the head.  \<open>head_node\<close> and
  \<open>result_node\<close> always hold the same pointer.
\<close>

record registry =
  rg_store :: dstore
  rg_node :: "nat \<Rightarrow> pub_sub_node_t"
  rg_count :: nat
  rg_head :: "nat option"

record conf_env =
  cf_shm :: "nat \<Rightarrow> nat \<Rightarrow> shm_kernel"
  cf_node_ok :: "nat \<Rightarrow> bool"
  cf_table_ok :: "nat \<Rightarrow> bool"

definition add_node :: "pub_sub_node_t \<Rightarrow> registry \<Rightarrow> registry cres" where
  "add_node n g =
     (let a = rg_count g; g' = g\<lparr>rg_node := (rg_node g)(a := n), rg_count := a + 1\<rparr> in
      if rg_count g = 0 \<and> nd_id n \<noteq> 0 then Inl (Exited (-1))
      else if nd_id n = 0 then
        Inr (g'\<lparr>rg_store := INIT_LIST_HEAD a (rg_store g), rg_head := Some a\<rparr>)
      else cbind (deref (rg_head g)) (\<lambda>h. Inr (g'\<lparr>rg_store := list_add_tail a h (rg_store g)\<rparr>)))"

text \<open>
  The loop over the objects of the file: parse one, enter it, delete it, go on behind it.  Each
  turn consumes text, so the length of the text bounds the number of turns
  (\<open>node_loop_total\<close>).
\<close>

fun node_loop ::
    "nat \<Rightarrow> conf_env \<Rightarrow> bytes \<Rightarrow> heap \<Rightarrow> registry \<Rightarrow> (registry \<times> shm_act list \<times> heap) cres" where
  "node_loop 0 e tx h g = Inl OutOfFuel"
| "node_loop (Suc fuel) e tx h g =
     cbind (cJSON_ParseWithOpts (Some tx) False h) (\<lambda>(json, pos, h1).
     case json of
       None \<Rightarrow> Inr (g, [], h1)
     | Some j \<Rightarrow>
         cbind (get_icehydra_json_node (cf_shm e (rg_count g)) (cf_node_ok e (rg_count g)) (cf_table_ok e (rg_count g)) j)
           (\<lambda>(n, acts).
         cbind (add_node n g) (\<lambda>g'.
         cbind (node_loop fuel e (drop pos tx) (cJSON_Delete [j] h1) g') (\<lambda>(g'', acts', h2).
         Inr (g'', acts @ acts', h2)))))"

definition empty_registry :: registry where
  "empty_registry = \<lparr>rg_store = \<lparr>nxt = (\<lambda>_. 0), prv = (\<lambda>_. 0)\<rparr>,
     rg_node = (\<lambda>_. \<lparr>nd_name = [], nd_type = CHUNK_TYPE_ERR, nd_cpu_bind = 0, nd_id = 0, nd_connfd = 0,
          nd_shm_node_ptr = None, nd_shm_node_num = 0, nd_pub_links_num = 0\<rparr>),
     rg_count = 0, rg_head = None\<rparr>"

text \<open>The registry returned, whose head is the node the caller gets, or \<open>None\<close> for NULL.\<close>

definition get_node_start ::
    "file_env \<Rightarrow> conf_env \<Rightarrow> heap \<Rightarrow> (registry option \<times> shm_act list \<times> heap) cres" where
  "get_node_start f e h =
     cbind (read_file f) (\<lambda>(fsize, json_string).
     if fsize < 0 then Inr (None, [], h)
     else cbind (deref json_string) (\<lambda>tx.
       cbind (node_loop (length tx) e tx h empty_registry) (\<lambda>(g, acts, h1).
       cbind (deref (rg_head g)) (\<lambda>r.
       Inr (Some (g\<lparr>rg_node := (rg_node g)(r := (rg_node g r)\<lparr>nd_pub_links_num := int (rg_count g) - 1\<rparr>)\<rparr>),
            acts, h1)))))"

text \<open>What list\_for\_each over the head's \<open>node_list\<close> visits, as the nodes the broker works on.\<close>

definition registry_nodes :: "registry \<Rightarrow> nat list \<Rightarrow> pub_sub_node_t list" where
  "registry_nodes g as = map (rg_node g) as"

definition visited :: "registry \<Rightarrow> nat list option" where
  "visited g = (case rg_head g of None \<Rightarrow> None
     | Some h \<Rightarrow> list_for_each (Suc (rg_count g)) h (rg_store g))"

section \<open>The registry is the list of nodes after the last publisher\<close>

text \<open>
  The addresses listed are exactly those of the nodes read after the head, in file order; all
  of them are subscribers (non-zero id), and the head is the last node with id 0.
\<close>

definition registry_ok :: "registry \<Rightarrow> bool" where
  "registry_ok g \<longleftrightarrow> (case rg_head g of
       None \<Rightarrow> rg_count g = 0
     | Some h \<Rightarrow> h < rg_count g \<and> dlist (rg_store g) h [Suc h ..< rg_count g] \<and> nd_id (rg_node g h) = 0 \<and>
         (\<forall>a. h < a \<and> a < rg_count g \<longrightarrow> nd_id (rg_node g a) \<noteq> 0))"

lemma add_node_ok:
  assumes "registry_ok g" and "add_node n g = Inr g'"
  shows "registry_ok g' \<and> rg_count g' = Suc (rg_count g) \<and> rg_node g' = (rg_node g)(rg_count g := n)"
proof -
  let ?a = "rg_count g"
  have nx: "\<not> (?a = 0 \<and> nd_id n \<noteq> 0)" using assms(2) by (auto simp: add_node_def Let_def split: if_splits)
  show ?thesis
  proof (cases "nd_id n = 0")
    case True
    then have g': "g' = g\<lparr>rg_node := (rg_node g)(?a := n), rg_count := ?a + 1,
        rg_store := INIT_LIST_HEAD ?a (rg_store g), rg_head := Some ?a\<rparr>"
      using assms(2) by (simp add: add_node_def Let_def)
    have "dlist (INIT_LIST_HEAD ?a (rg_store g)) ?a []" by (rule dl.rep_init)
    then show ?thesis using g' True by (simp add: registry_ok_def)
  next
    case False
    then obtain h where h: "rg_head g = Some h"
      and g': "g' = g\<lparr>rg_node := (rg_node g)(?a := n), rg_count := ?a + 1,
        rg_store := list_add_tail ?a h (rg_store g)\<rparr>"
      using assms(2) nx by (auto simp: add_node_def Let_def cbind_eq_Inr_iff deref_eq_Inr_iff)
    have ok: "h < ?a" "dlist (rg_store g) h [Suc h ..< ?a]" "nd_id (rg_node g h) = 0"
      "\<forall>a. h < a \<and> a < ?a \<longrightarrow> nd_id (rg_node g a) \<noteq> 0"
      using assms(1) h by (simp_all add: registry_ok_def)
    have "dlist (list_add_tail ?a h (rg_store g)) h ([Suc h ..< ?a] @ [?a])"
      using ok by (intro dl.rep_add_tail) auto
    then have "dlist (list_add_tail ?a h (rg_store g)) h [Suc h ..< Suc ?a]" using ok(1) by simp
    then show ?thesis using g' h ok False by (auto simp: registry_ok_def less_Suc_eq)
  qed
qed

lemma visited_ok:
  assumes "registry_ok g" and "rg_head g = Some h"
  shows "visited g = Some [Suc h ..< rg_count g]"
  using assms dl.walk_rep[of "rg_store g" h "[Suc h ..< rg_count g]" "Suc (rg_count g)"]
  by (simp add: registry_ok_def visited_def)

section \<open>Reading a file\<close>

lemma registry_ok_empty: "registry_ok empty_registry"
  by (simp add: registry_ok_def empty_registry_def)

text \<open>
  The text shrinks with every object, so the loop never runs out of fuel, and the allocator is
  back where it was when it ends.
\<close>

lemma drop_NUL:
  assumes "0 \<in> set m" and "p \<le> length (cstr m)"
  shows "0 \<in> set (drop p m)" and "length (cstr (drop p m)) = length (cstr m) - p"
proof -
  have "0 \<in> set (drop p m) \<and> length (cstr (drop p m)) = length (cstr m) - p"
    using assms
  proof (induction m arbitrary: p)
    case (Cons b m)
    show ?case
    proof (cases p)
      case 0
      then show ?thesis using Cons.prems by simp
    next
      case (Suc q)
      then have b: "b \<noteq> 0" using Cons.prems(2) by (cases "b = 0") (simp_all add: cstr_def)
      then have "0 \<in> set m" "q \<le> length (cstr m)"
        using Cons.prems Suc by (simp_all add: cstr_def)
      then show ?thesis using Cons.IH[of q] Suc b by (simp add: cstr_def)
    qed
  qed simp
  then show "0 \<in> set (drop p m)" and "length (cstr (drop p m)) = length (cstr m) - p" by simp_all
qed

lemma add_node_fails: "registry_ok g \<Longrightarrow> add_node n g = Inl f \<Longrightarrow> f = Exited (-1) \<and> rg_count g = 0"
  by (auto simp: add_node_def Let_def registry_ok_def deref_def split: if_splits option.splits)

text \<open>
  How the loop can end: with a registry and no block more than before, with the fault one node of the
  configuration gives, or because the first node is no publisher.
\<close>

definition loop_outcome :: "conf_env \<Rightarrow> heap \<Rightarrow> registry \<Rightarrow> (registry \<times> shm_act list \<times> heap) cres \<Rightarrow> bool" where
  "loop_outcome e h g res \<longleftrightarrow>
    (\<exists>g' acts h'. res = Inr (g', acts, h') \<and> registry_ok g' \<and>
      rg_count g \<le> rg_count g' \<and> h_live h' = h_live h) \<or>
    (\<exists>n i k1 k2 j. get_icehydra_json_node (cf_shm e i) k1 k2 j = Inl n \<and> res = Inl n) \<or>
    (rg_count g = 0 \<and> res = Inl (Exited (-1)))"

lemma loop_outcome_after:
  assumes "loop_outcome e h1 g1 res" and "rg_count g1 = Suc (rg_count g)" and "h_live h1 = h_live h"
  shows "loop_outcome e h g (cbind res (\<lambda>(g'', acts', h2). Inr (g'', acts @ acts', h2)))"
  using assms(1) unfolding loop_outcome_def[of e h1]
proof (elim disjE exE conjE)
  fix n i k1 k2 j assume "get_icehydra_json_node (cf_shm e i) k1 k2 j = Inl n" "res = Inl n"
  then show ?thesis unfolding loop_outcome_def by (intro disjI2 disjI1) auto
qed (use assms(2,3) in \<open>simp_all add: loop_outcome_def\<close>)

lemma node_loop_outcome:
  assumes "0 \<in> set tx" and "length (cstr tx) < fuel" and "registry_ok g"
  shows "loop_outcome e h g (node_loop fuel e tx h g)"
  using assms
proof (induction fuel arbitrary: tx h g)
  case (Suc fuel)
  obtain r p h1 where ps: "cJSON_ParseWithOpts (Some tx) False h = Inr (r, p, h1)"
    and ok: "parse_result_ok (length (cstr tx) + 1) h (r, p, h1)"
    using cJSON_ParseWithOpts_total[OF Suc.prems(1), of False h] by auto
  show ?case
  proof (cases r)
    case None
    then show ?thesis using ps ok Suc.prems(3) by (simp add: loop_outcome_def parse_result_ok_def)
  next
    case (Some j)
    have p: "0 < p" "p \<le> length (cstr tx)" "h_live h1 = h_live h + blocks j"
      using ok Some by (simp_all add: parse_result_ok_def)
    let ?n = "get_icehydra_json_node (cf_shm e (rg_count g)) (cf_node_ok e (rg_count g)) (cf_table_ok e (rg_count g)) j"
    consider (node) f where "?n = Inl f"
      | (add) n acts f where "?n = Inr (n, acts)" "add_node n g = Inl f"
      | (go) n acts g' where "?n = Inr (n, acts)" "add_node n g = Inr g'"
      by (metis sum.exhaust prod.exhaust)
    then show ?thesis
    proof cases
      case node
      then have "node_loop (Suc fuel) e tx h g = Inl f" using ps Some by simp
      then show ?thesis using node unfolding loop_outcome_def by blast
    next
      case add
      then show ?thesis using ps Some add_node_fails[OF Suc.prems(3) add(2)] by (simp add: loop_outcome_def)
    next
      case go
      let ?h = "cJSON_Delete [j] h1"
      have t: "0 \<in> set (drop p tx)" "length (cstr (drop p tx)) < fuel"
        using drop_NUL[OF Suc.prems(1) p(2)] p(1,2) Suc.prems(2) by simp_all
      have lv: "h_live ?h = h_live h" using p(3) by (simp add: cJSON_Delete_def release_def)
      note an = add_node_ok[OF Suc.prems(3) go(2)]
      have "loop_outcome e ?h g' (node_loop fuel e (drop p tx) ?h g')" using Suc.IH[OF t] an by blast
      then show ?thesis using loop_outcome_after[OF _ _ lv] an ps Some go by simp
    qed
  qed
qed simp

lemmas node_loop_total = node_loop_outcome[unfolded loop_outcome_def]

section \<open>What a configured node looks like\<close>

definition node_wf :: "pub_sub_node_t \<Rightarrow> bool" where
  "node_wf n \<longleftrightarrow> 0 \<notin> set (nd_name n) \<and> length (nd_name n) < MAX_FILE_NAME \<and> nd_connfd n = 0 \<and>
     (case nd_shm_node_ptr n of
        None \<Rightarrow> nd_shm_node_num n = 0
      | Some ss \<Rightarrow> list_all shm_node_ok ss \<and> nd_shm_node_num n = int (length ss) mod 256)"

lemma node_wf_links [simp]: "node_wf (n\<lparr>nd_pub_links_num := i\<rparr>) = node_wf n"
  by (cases "nd_shm_node_ptr n") (simp_all add: node_wf_def)

lemma strcpy_to_ok:
  "strcpy_to cap src = Inr s \<Longrightarrow> 0 \<notin> set s \<and> length s < cap"
  using cstr_NUL_free by (auto simp: strcpy_to_def cbind_eq_Inr_iff split: if_splits)

lemma init_shm_loop_ok:
  "init_shm_loop k filename room pid js = Inr (t, pid', acts) \<Longrightarrow>
   list_all shm_node_ok t \<and> length t = length js \<and> pid' = pid + of_nat (length js)"
proof (induction js arbitrary: room pid t acts)
  case Nil
  then show ?case by simp
next
  case (Cons j js)
  obtain nm name i sz rest acts' where
    nm: "strcpy_to MAX_FILE_NAME nm = Inr name"
    and r: "init_shm_loop k filename (room - 1) (pid + 1) js = Inr (rest, pid', acts')"
    and t: "t = \<lparr>shm_name = name, shm_id = i, shm_size = sz\<rparr> # rest"
    using Cons.prems
    by (auto simp: Let_def cbind_eq_Inr_iff split: if_splits)
  show ?case
    using Cons.IH[OF r] strcpy_to_ok[OF nm] t by (simp add: shm_node_ok_def add.assoc)
qed

lemma init_shm_ok:
  assumes "init_shm k ok node json = Inr (r, node', acts)" and "node_wf node"
    and "nd_shm_node_ptr node = None"
  shows "node_wf node'"
proof (cases ok)
  case False
  then show ?thesis using assms by (auto simp: init_shm_def node_wf_def)
next
  case True
  then obtain t pid where
    l: "init_shm_loop k (NAME_PREFIX @ nd_name node) (nat (cJSON_GetArraySize (Some json))) 0 (children json)
        = Inr (t, pid, acts)"
    and n': "node' = node\<lparr>nd_shm_node_ptr := Some t, nd_shm_node_num := uint pid\<rparr>"
    using assms(1) by (auto simp: init_shm_def Let_def cbind_eq_Inr_iff split: if_splits)
  note t = init_shm_loop_ok[OF l]
  have "uint (of_nat (length t) :: u8) = int (length t) mod 256"
    by (simp add: unsigned_of_nat take_bit_eq_mod zmod_int)
  then show ?thesis using t n' assms(2) by (simp add: node_wf_def)
qed

text \<open>
  The four keys are looked up in order, and only \<open>ih-shm\<close>, the last, sets the table; so the
  table is still absent when it is reached.
\<close>

lemma apply_item_ok:
  assumes "apply_item k ok obj node = Inr (node', acts)" and "node_wf node"
    and "nd_shm_node_ptr node = None"
  shows "node_wf node'"
    and "cstr (the (c_string obj)) \<noteq> KEY_SHM \<Longrightarrow> nd_shm_node_ptr node' = None"
proof -
  obtain nm where nm: "c_string obj = Some nm"
    using assms(1) by (auto simp: apply_item_def cbind_eq_Inr_iff deref_eq_Inr_iff)
  let ?key = "cstr nm"
  obtain n1 where n1: "if ?key = KEY_NAME then \<exists>s. strcpy_to MAX_FILE_NAME (valuestring obj) = Inr s \<and>
      n1 = node\<lparr>nd_name := s\<rparr> else n1 = node"
    and rest: "(let n2 = (if ?key = KEY_PID
               then n1\<lparr>nd_id := valueint obj,
                       nd_type := (if valueint obj = 0 then CHUNK_TYPE_PUB else CHUNK_TYPE_SUB)\<rparr>
               else n1);
         n3 = (if ?key = KEY_CPU then n2\<lparr>nd_cpu_bind := valueint obj\<rparr> else n2) in
     if ?key = KEY_SHM then cbind (init_shm k ok n3 obj) (\<lambda>(_, n4, acts). Inr (n4, acts))
     else Inr (n3, [])) = Inr (node', acts)"
    using assms(1) nm by (auto simp: apply_item_def cbind_eq_Inr_iff Let_def split: if_splits)
  have wf1: "node_wf n1" "nd_shm_node_ptr n1 = None"
    using n1 assms(2,3) strcpy_to_ok[of MAX_FILE_NAME "valuestring obj"]
    by (auto simp: node_wf_def split: if_splits)
  define n3 where "n3 = (let n2 = (if ?key = KEY_PID
               then n1\<lparr>nd_id := valueint obj,
                       nd_type := (if valueint obj = 0 then CHUNK_TYPE_PUB else CHUNK_TYPE_SUB)\<rparr>
               else n1) in if ?key = KEY_CPU then n2\<lparr>nd_cpu_bind := valueint obj\<rparr> else n2)"
  have wf3: "node_wf n3" "nd_shm_node_ptr n3 = None"
    using wf1 by (auto simp: n3_def node_wf_def Let_def)
  have rest': "(if ?key = KEY_SHM then cbind (init_shm k ok n3 obj) (\<lambda>(_, n4, acts). Inr (n4, acts))
     else Inr (n3, [])) = Inr (node', acts)"
    using rest by (simp only: n3_def Let_def)
  show "node_wf node'"
  proof (cases "?key = KEY_SHM")
    case True
    then obtain r where "init_shm k ok n3 obj = Inr (r, node', acts)"
      using rest' by (auto simp: cbind_eq_Inr_iff)
    then show ?thesis using init_shm_ok wf3 by blast
  next
    case False
    then show ?thesis using rest' wf3 by simp
  qed
  show "cstr (the (c_string obj)) \<noteq> KEY_SHM \<Longrightarrow> nd_shm_node_ptr node' = None"
    using rest' wf3 nm by simp
qed

lemma find_ci_key:
  "find_ci key xs = Some x \<Longrightarrow> c_string x \<noteq> None \<Longrightarrow>
   map tolower (cstr (the (c_string x))) = map tolower (cstr key)"
  by (induction xs)
    (auto simp: case_insensitive_strcmp_def split: if_splits
      dest!: ci_cmp_eq_0[OF conjI[OF _ conjI[OF cstr_NUL_free cstr_NUL_free]]])

text \<open>The member found for one of the first three keys is not the table.\<close>

lemma found_not_shm:
  assumes "cJSON_GetObjectItem (Some json) (Some key) = Some obj" and "key \<in> {KEY_NAME, KEY_PID, KEY_CPU}"
  shows "cstr (the (c_string obj)) \<noteq> KEY_SHM"
proof
  assume eq: "cstr (the (c_string obj)) = KEY_SHM"
  have "find_ci key (children json) = Some obj" "c_string obj \<noteq> None"
    using assms(1)
    by (auto simp: cJSON_GetObjectItem_def get_object_item_def split: option.splits if_splits)
  from find_ci_key[OF this] have "map tolower KEY_SHM = map tolower (cstr key)" using eq by simp
  moreover have "map tolower (cstr KEY_NAME) \<noteq> map tolower KEY_SHM"
    "map tolower (cstr KEY_PID) \<noteq> map tolower KEY_SHM" "map tolower (cstr KEY_CPU) \<noteq> map tolower KEY_SHM"
    by (simp_all add: KEY_NAME_def KEY_PID_def KEY_CPU_def KEY_SHM_def lit_def cstr_def tolower_def)
  ultimately show False using assms(2) by auto
qed

lemma apply_items_ok:
  assumes "apply_items k ok json keys node = Inr (node', acts)" and "node_wf node"
    and "nd_shm_node_ptr node = None" and "set (butlast keys) \<subseteq> {KEY_NAME, KEY_PID, KEY_CPU}"
  shows "node_wf node'"
  using assms
proof (induction keys arbitrary: node acts)
  case Nil
  then show ?case by simp
next
  case (Cons key keys)
  show ?case
  proof (cases "cJSON_GetObjectItem (Some json) (Some key)")
    case None
    then show ?thesis using Cons.IH[of node acts] Cons.prems by (cases keys) auto
  next
    case (Some obj)
    then obtain n1 acts1 acts2 where a: "apply_item k ok obj node = Inr (n1, acts1)"
      and r: "apply_items k ok json keys n1 = Inr (node', acts2)"
      using Cons.prems(1) by (auto simp: cbind_eq_Inr_iff)
    note ok1 = apply_item_ok[OF a Cons.prems(2,3)]
    show ?thesis
    proof (cases "keys = []")
      case True
      then show ?thesis using r ok1(1) by simp
    next
      case False
      then have "key \<in> {KEY_NAME, KEY_PID, KEY_CPU}" "set (butlast keys) \<subseteq> {KEY_NAME, KEY_PID, KEY_CPU}"
        using Cons.prems(4) by simp_all
      then show ?thesis using Cons.IH[OF r ok1(1) ok1(2)] found_not_shm[OF Some] by blast
    qed
  qed
qed

lemma get_icehydra_json_node_wf:
  assumes "get_icehydra_json_node k nok tok json = Inr (node, acts)"
  shows "node_wf node"
proof -
  obtain ob where c: "create_pub_sub_object nok = Inr ob" and a: "apply_items k tok json item_list ob = Inr (node, acts)"
    using assms by (auto simp: get_icehydra_json_node_def cbind_eq_Inr_iff)
  have "node_wf ob" "nd_shm_node_ptr ob = None"
    using c by (auto simp: create_pub_sub_object_def node_wf_def MAX_FILE_NAME_def split: if_splits)
  then show ?thesis by (rule apply_items_ok[OF a]) (simp add: item_list_def)
qed

lemma node_loop_wf:
  "node_loop fuel e tx h g = Inr (g', acts, h') \<Longrightarrow> registry_ok g \<Longrightarrow>
   (\<forall>a < rg_count g. node_wf (rg_node g a)) \<Longrightarrow>
   registry_ok g' \<and> (\<forall>a < rg_count g'. node_wf (rg_node g' a))"
proof (induction fuel arbitrary: tx h g acts)
  case 0
  then show ?case by simp
next
  case (Suc fuel)
  obtain r p h1 where ps: "cJSON_ParseWithOpts (Some tx) False h = Inr (r, p, h1)"
    using Suc.prems(1) by (auto simp: cbind_eq_Inr_iff)
  show ?case
  proof (cases r)
    case None
    then show ?thesis using ps Suc.prems by simp
  next
    case (Some j)
    obtain n a1 g1 a2 where n: "get_icehydra_json_node (cf_shm e (rg_count g)) (cf_node_ok e (rg_count g))
        (cf_table_ok e (rg_count g)) j = Inr (n, a1)" and g1: "add_node n g = Inr g1"
      and l: "node_loop fuel e (drop p tx) (cJSON_Delete [j] h1) g1 = Inr (g', a2, h')"
      using Suc.prems(1) ps Some by (auto simp: cbind_eq_Inr_iff)
    note an = add_node_ok[OF Suc.prems(2) g1]
    have "\<forall>a < rg_count g1. node_wf (rg_node g1 a)"
      using an Suc.prems(3) get_icehydra_json_node_wf[OF n] by (auto simp: less_Suc_eq)
    then show ?thesis using Suc.IH[OF l] an by blast
  qed
qed

section \<open>From the file to the first turn of the event loop\<close>

text \<open>
  main's start-up: the head is \<open>node_start\<close>, the entries of its list are the nodes the loop works
  on; no client is connected yet and every node still has the descriptor 0 calloc gave it.
\<close>

definition main_start :: "registry \<Rightarrow> int \<Rightarrow> net \<Rightarrow> broker cres" where
  "main_start g sockfd w =
     cbind (deref (rg_head g)) (\<lambda>h. cbind (deref (visited g)) (\<lambda>as.
     if sockfd > 0 then
       Inr \<lparr>br_start = rg_node g h, br_nodes = map (rg_node g) as, br_sockfd = sockfd,
         br_max_conn_fd = -1, br_link_count = 0, br_net = w\<rparr>
     else Inl AssertFailed))"

lemma get_node_start_spec:
  assumes "get_node_start f e h = Inr (Some g, acts, h')"
  shows "\<exists>r. rg_head g = Some r \<and> r < rg_count g \<and> visited g = Some [Suc r ..< rg_count g] \<and>
    nd_pub_links_num (rg_node g r) = int (rg_count g) - 1 \<and> nd_id (rg_node g r) = 0 \<and>
    (\<forall>a. r < a \<and> a < rg_count g \<longrightarrow> nd_id (rg_node g a) \<noteq> 0) \<and>
    (\<forall>a < rg_count g. node_wf (rg_node g a))"
proof -
  obtain r0 d g0 r where rd: "read_file f = Inr (r0, Some d)"
    and l: "node_loop (length d) e d h empty_registry = Inr (g0, acts, h')"
    and r: "rg_head g0 = Some r"
    and g: "g = g0\<lparr>rg_node := (rg_node g0)(r := (rg_node g0 r)\<lparr>nd_pub_links_num := int (rg_count g0) - 1\<rparr>)\<rparr>"
    using assms
    by (auto simp: get_node_start_def cbind_eq_Inr_iff deref_eq_Inr_iff split: if_splits)
  have ok: "registry_ok g0" "\<forall>a < rg_count g0. node_wf (rg_node g0 a)"
    using node_loop_wf[OF l registry_ok_empty] by (simp_all add: empty_registry_def)
  have lt: "r < rg_count g0" using ok(1) r by (simp add: registry_ok_def)
  have v: "visited g0 = Some [Suc r ..< rg_count g0]" by (rule visited_ok[OF ok(1) r])
  then have "visited g = Some [Suc r ..< rg_count g]" using g r by (simp add: visited_def)
  moreover have "\<forall>a < rg_count g. node_wf (rg_node g a)" using ok(2) g by simp
  ultimately show ?thesis using ok(1) r g lt by (auto simp: registry_ok_def)
qed

text \<open>
  A configuration with distinct names and at most 255 blocks starts the broker in its
  invariant, when the listening descriptor fits an fd\_set.
\<close>

lemma main_start_inv:
  assumes "get_node_start f e h = Inr (Some g, acts, h')" and "main_start g sockfd w = Inr b"
    and "distinct (map nd_name (br_nodes b))"
    and "\<And>ss. nd_shm_node_ptr (br_start b) = Some ss \<Longrightarrow> length ss \<le> 255"
    and "sockfd < FD_SETSIZE" and "no_sigpipe w"
  shows "broker_inv b"
proof -
  obtain r where r: "rg_head g = Some r" "visited g = Some [Suc r ..< rg_count g]"
    "\<forall>a < rg_count g. node_wf (rg_node g a)" "r < rg_count g"
    using get_node_start_spec[OF assms(1)] by blast
  have b: "b = \<lparr>br_start = rg_node g r, br_nodes = map (rg_node g) [Suc r ..< rg_count g], br_sockfd = sockfd,
         br_max_conn_fd = -1, br_link_count = 0, br_net = w\<rparr>"
    using assms(2) r(1,2) by (auto simp: main_start_def split: if_splits)
  have wf: "\<forall>n \<in> set (br_nodes b). node_wf n" using b r(3) by auto
  have "node_wf (br_start b)" using b r(3,4) by simp
  then have "shm_ok (br_start b)"
    using assms(4) by (auto simp: node_wf_def shm_ok_def split: option.splits)
  moreover have "names_ok (br_nodes b)" using wf assms(3) by (auto simp: names_ok_def node_wf_def)
  moreover have "\<forall>n \<in> set (br_nodes b). nd_connfd n = 0" using wf by (simp add: node_wf_def)
  then have "own_fds (br_nodes b)" "open_fds (br_sockfd b) (br_nodes b) (br_net b)"
    by (auto simp: own_fds_def open_fds_def)
  moreover have "fds_bounded b"
    using assms(2,5) b \<open>\<forall>n \<in> set (br_nodes b). nd_connfd n = 0\<close>
    by (auto simp: fds_bounded_def FD_SETSIZE_def main_start_def cbind_eq_Inr_iff split: if_splits)
  ultimately show ?thesis using assms(6) b by (simp add: broker_inv_def)
qed

end
