(* ===== verification/Startup.thy ===== *)
theory Startup
  imports Conf
begin

text \<open>
  main of src/main.c up to its event loop: the options, the configuration file, the listening socket.
  argp\_parse is the C library's; \<open>parse_opt\<close> is what it calls, once for each option and argument, and
  a result of ARGP\_ERR\_UNKNOWN for one of its own keys only tells it that the key is not handled.
\<close>

section \<open>The options\<close>

record arguments =
  arg_file :: bytes
  arg_daemon :: bool

definition ARGP_ERR_UNKNOWN :: int where "ARGP_ERR_UNKNOWN = 7"
definition ARGP_KEY_ARG :: int where "ARGP_KEY_ARG = 0"
definition ARGP_KEY_END :: int where "ARGP_KEY_END = 0x1000001"

text \<open>The array \<open>file\<close> has MAX\_PATH bytes; access answers for a path whether it is readable.\<close>

definition parse_opt :: "(bytes \<Rightarrow> bool) \<Rightarrow> int \<Rightarrow> bytes option \<Rightarrow> arguments \<Rightarrow> (int \<times> arguments) cres" where
  "parse_opt readable key arg a =
     (if key = 68 then Inr (0, a\<lparr>arg_daemon := True\<rparr>)
      else if key = 102 then
        (case arg of
           None \<Rightarrow> Inr (0, a)
         | Some p \<Rightarrow>
             if readable p then if length p + 1 > MAX_PATH then Inl OOB else Inr (0, a\<lparr>arg_file := p\<rparr>)
             else Inr (0, a))
      else if key = ARGP_KEY_ARG \<or> key = ARGP_KEY_END then Inr (0, a)
      else Inr (ARGP_ERR_UNKNOWN, a))"

fun argp_calls :: "(bytes \<Rightarrow> bool) \<Rightarrow> (int \<times> bytes option) list \<Rightarrow> arguments \<Rightarrow> arguments cres" where
  "argp_calls readable [] a = Inr a"
| "argp_calls readable ((key, arg) # calls) a =
     cbind (parse_opt readable key arg a) (\<lambda>(_, a'). argp_calls readable calls a')"

definition no_arguments :: arguments where
  "no_arguments = \<lparr>arg_file = [], arg_daemon = False\<rparr>"

section \<open>From the options to the loop\<close>

record main_env =
  me_readable :: "bytes \<Rightarrow> bool"
  me_file :: "bytes \<Rightarrow> file_env"
  me_conf :: conf_env
  me_name_calloc :: "nat \<Rightarrow> nat option"
  me_socket :: int
  me_bind_ok :: bool
  me_rbuf_calloc :: bool

text \<open>
  The result is the exit status, or the broker in front of its first turn with the calls made to set up
  its socket.  The block of the server's name is asked for one byte short (\<open>name_fix_room\<close>): main
  gets past it only when calloc gives more than it was asked for.  The results of daemon, bind\_cpu and listen are not looked at.
\<close>

definition main_setup ::
  "main_env \<Rightarrow> (int \<times> bytes option) list \<Rightarrow> heap \<Rightarrow> net \<Rightarrow> (int + broker \<times> sysact list) cres"
where
  "main_setup e calls h w =
     cbind (argp_calls (me_readable e) calls no_arguments) (\<lambda>a.
     if arg_file a = [] then Inr (Inl (-1))
     else
       cbind (get_node_start (me_file e (arg_file a)) (me_conf e) h) (\<lambda>(start, _, _).
       case start of
         None \<Rightarrow> Inl AssertFailed
       | Some g \<Rightarrow>
           cbind (deref (rg_head g)) (\<lambda>r.
           cbind (name_fix (me_name_calloc e) (Some NAME_PREFIX) (Some (nd_name (rg_node g r))) (Some SOCK_NAME_SUFFIX)) (\<lambda>blk.
           cbind (creat_bind_unix_tcp (map_option cstr blk) (me_socket e) (me_bind_ok e)) (\<lambda>(sockfd, acts).
           cbind (main_start g sockfd w) (\<lambda>b.
           if \<not> me_rbuf_calloc e then Inl AssertFailed
           else Inr (Inr (b, acts))))))))"

section \<open>What the options mean\<close>

text \<open>The readable paths given with -f, in order.\<close>

fun given_paths :: "(bytes \<Rightarrow> bool) \<Rightarrow> (int \<times> bytes option) list \<Rightarrow> bytes list" where
  "given_paths readable [] = []"
| "given_paths readable ((key, arg) # calls) =
     (case arg of
        None \<Rightarrow> []
      | Some p \<Rightarrow> if key = 102 \<and> readable p then [p] else []) @ given_paths readable calls"

lemma argp_calls_spec:
  "argp_calls readable calls a =
     (if \<forall>p \<in> set (given_paths readable calls). length p < MAX_PATH
      then Inr \<lparr>arg_file = last (arg_file a # given_paths readable calls),
        arg_daemon = (arg_daemon a \<or> (\<exists>arg. (68, arg) \<in> set calls))\<rparr>
      else Inl OOB)"
proof (induction calls arbitrary: a)
  case (Cons c calls)
  obtain key arg where c: "c = (key, arg)" by (cases c)
  consider "key = 68" | "key \<noteq> 68" "\<exists>p. arg = Some p \<and> key = 102 \<and> readable p"
    | "key \<noteq> 68" "\<not> (\<exists>p. arg = Some p \<and> key = 102 \<and> readable p)" by blast
  then show ?case
  proof cases
    case 1
    then show ?thesis using Cons[of "a\<lparr>arg_daemon := True\<rparr>"] by (cases arg) (auto simp: c parse_opt_def)
  next
    case 2
    then obtain p where "arg = Some p" "key = 102" "readable p" by blast
    then show ?thesis using Cons[of "a\<lparr>arg_file := p\<rparr>"] by (cases "length p < MAX_PATH") (simp_all add: c parse_opt_def)
  next
    case 3
    then have "\<exists>r. parse_opt readable key arg a = Inr (r, a)" by (cases arg) (auto simp: parse_opt_def)
    moreover have "given_paths readable (c # calls) = given_paths readable calls" using 3 by (cases arg) (auto simp: c)
    moreover have "(\<exists>arg. (68, arg) \<in> set (c # calls)) \<longleftrightarrow> (\<exists>arg. (68, arg) \<in> set calls)" using 3 by (auto simp: c)
    ultimately show ?thesis using Cons[of a] by (auto simp: c)
  qed
qed simp

section \<open>The broker that is started\<close>

lemma socket_name:
  assumes "node_wf n"
  defines "nm \<equiv> NAME_PREFIX @ nd_name n @ SOCK_NAME_SUFFIX"
  shows "name_fix calloc (Some NAME_PREFIX) (Some (nd_name n)) (Some SOCK_NAME_SUFFIX) =
      (case calloc (length nm) of
         None \<Rightarrow> Inr None
       | Some room \<Rightarrow> if room \<le> length nm then Inl OOB else Inr (Some (nm @ [0])))"
    and "cstr (nm @ [0]) = nm" and "length nm < SUN_PATH_SIZE"
proof -
  have "0 \<notin> set nm" using assms(1) by (auto simp: nm_def node_wf_def NAME_PREFIX_def SOCK_NAME_SUFFIX_def)
  then show "cstr (nm @ [0]) = nm" by simp
  show "length nm < SUN_PATH_SIZE"
    using assms(1) by (simp add: nm_def node_wf_def NAME_PREFIX_def SOCK_NAME_SUFFIX_def SUN_PATH_SIZE_def MAX_FILE_NAME_def)
  show "name_fix calloc (Some NAME_PREFIX) (Some (nd_name n)) (Some SOCK_NAME_SUFFIX) =
      (case calloc (length nm) of
         None \<Rightarrow> Inr None
       | Some room \<Rightarrow> if room \<le> length nm then Inl OOB else Inr (Some (nm @ [0])))"
    unfolding nm_def
    by (rule name_fix_room[of "Some NAME_PREFIX" "Some SOCK_NAME_SUFFIX" calloc "nd_name n", unfolded the_bytes_simps]) simp
qed

lemma main_setup_broker:
  assumes "main_setup e calls h w = Inr (Inr (b, acts))"
  shows "\<exists>path g sacts h'. given_paths (me_readable e) calls \<noteq> [] \<and> path = last (given_paths (me_readable e) calls) \<and>
    get_node_start (me_file e path) (me_conf e) h = Inr (Some g, sacts, h') \<and> main_start g (br_sockfd b) w = Inr b \<and>
    0 < br_sockfd b \<and> br_sockfd b = me_socket e \<and> (let nm = NAME_PREFIX @ nd_name (br_start b) @ SOCK_NAME_SUFFIX in
      acts = [Unlink nm, Bind (br_sockfd b) nm, Chmod nm 438] \<and>
      (\<exists>room. me_name_calloc e (length nm) = Some room \<and> length nm < room))"
proof -
  let ?paths = "given_paths (me_readable e) calls"
  obtain a g sacts h' r blk sockfd where run:
    "argp_calls (me_readable e) calls no_arguments = Inr a" "arg_file a \<noteq> []"
    "get_node_start (me_file e (arg_file a)) (me_conf e) h = Inr (Some g, sacts, h')" "rg_head g = Some r"
    "name_fix (me_name_calloc e) (Some NAME_PREFIX) (Some (nd_name (rg_node g r))) (Some SOCK_NAME_SUFFIX) = Inr blk"
    "creat_bind_unix_tcp (map_option cstr blk) (me_socket e) (me_bind_ok e) = Inr (sockfd, acts)"
    "main_start g sockfd w = Inr b"
    using assms by (auto simp: main_setup_def cbind_eq_Inr_iff deref_eq_Inr_iff split: if_splits option.splits)
  have "arg_file a = last ([] # ?paths)"
    using run(1) by (simp add: argp_calls_spec no_arguments_def split: if_splits) auto
  then have path: "?paths \<noteq> []" "arg_file a = last ?paths" using run(2) by (auto split: if_splits)
  have "\<forall>i < rg_count g. node_wf (rg_node g i)" "r < rg_count g" using get_node_start_spec[OF run(3)] run(4) by auto
  note name = socket_name[of "rg_node g r", OF this(1)[rule_format, OF this(2)]]
  have b: "br_start b = rg_node g r" "br_sockfd b = sockfd" "0 < sockfd"
    using run(4,7) by (auto simp: main_start_def cbind_eq_Inr_iff deref_eq_Inr_iff split: if_splits)
  let ?nm = "NAME_PREFIX @ nd_name (rg_node g r) @ SOCK_NAME_SUFFIX"
  obtain room where blk: "blk = Some (?nm @ [0])" "me_name_calloc e (length ?nm) = Some room" "length ?nm < room"
    using run(5,6) name(1)[of "me_name_calloc e"]
    by (auto simp: creat_bind_unix_tcp_def split: option.splits if_splits)
  have acts: "acts = [Unlink ?nm, Bind sockfd ?nm, Chmod ?nm 438]" "sockfd = me_socket e"
    using run(6) b(3) name(2,3) blk(1)
    by (auto simp: creat_bind_unix_tcp_def strcpy_sun_path_def split: if_splits)
  show ?thesis using path run(3,7) b acts blk(2,3)
    by (intro exI[of _ "last ?paths"] exI[of _ g] exI[of _ sacts] exI[of _ h']) (auto simp: Let_def)
qed

end
