(* ===== verification/JsonPrint.thy ===== *)
theory JsonPrint
  imports JsonTree
begin

text \<open>
  The printer of src/cJSON.c.  A \<open>printbuffer\<close> is the block printed into, what the code believes
  its size to be, the offset, the nesting depth and the allocator; memory that has just been
  allocated holds arbitrary bytes (\<open>p_fill\<close>).  Every store is bounds-checked against the block.
  The conversions of sprintf the printer uses (\<open>%d\<close>, \<open>%1.15g\<close>, \<open>%1.17g\<close>, \<open>%04x\<close>) are computed.
\<close>

section \<open>Formatting numbers\<close>

function nat_digits :: "nat \<Rightarrow> bytes" where
  "nat_digits n = (if n < 10 then [of_nat (48 + n)] else nat_digits (n div 10) @ [of_nat (48 + n mod 10)])"
  by pat_completeness auto
termination by (relation "measure id") auto

declare nat_digits.simps [simp del]

definition fmt_d :: "int \<Rightarrow> bytes" where
  "fmt_d i = (if i < 0 then 45 # nat_digits (nat (- i)) else nat_digits (nat i))"

text \<open>The decimal exponent of a positive rational, from the digits of its numerator and denominator.\<close>

definition flog10 :: "rat \<Rightarrow> int" where
  "flog10 x = (case quotient_of x of (p, q) \<Rightarrow>
     let k = int (length (nat_digits (nat p))) - int (length (nat_digits (nat q)))
     in if x < pow10 k then k - 1 else k)"

definition strip0 :: "bytes \<Rightarrow> bytes" where
  "strip0 ds = rev (dropWhile (\<lambda>d. d = 48) (rev ds))"

definition with_point :: "bytes \<Rightarrow> bytes" where
  "with_point fs = (if fs = [] then [] else 46 # fs)"

definition fmt_exp :: "int \<Rightarrow> bytes" where
  "fmt_exp e = 101 # (if e < 0 then 45 else 43) #
     (let ds = nat_digits (nat \<bar>e\<bar>) in if length ds < 2 then 48 # ds else ds)"

text \<open>\<open>%1.<prec>g\<close> of a finite double: \<open>prec\<close> significant digits, ties to even, trailing zeros removed.\<close>

definition fmt_g :: "nat \<Rightarrow> rat \<Rightarrow> bytes" where
  "fmt_g prec x =
     (if x = 0 then [48]
      else
        let y = \<bar>x\<bar>; e0 = flog10 y;
            m0 = nat (round_half_even (y / pow10 (e0 - (int prec - 1))));
            (m, e) = (if m0 = 10 ^ prec then (10 ^ (prec - 1), e0 + 1) else (m0, e0));
            ds = nat_digits m
        in (if x < 0 then [45] else []) @
           (if e < -4 \<or> e \<ge> int prec then take 1 ds @ with_point (strip0 (drop 1 ds)) @ fmt_exp e
            else if e < 0 then [48, 46] @ replicate (nat (- e) - 1) 48 @ strip0 ds
            else take (nat e + 1) ds @ with_point (strip0 (drop (nat e + 1) ds))))"

text \<open>
  \<open>compare_double\<close>: the difference and the tolerance are doubles, rounded.  With one infinity, or
  two of opposite sign, both are infinite; the difference of equal infinities is a NaN.
\<close>

definition DBL_EPSILON :: rat where "DBL_EPSILON = 1 / 2 ^ 52"

definition compare_double :: "dbl \<Rightarrow> dbl \<Rightarrow> bool" where
  "compare_double a b = (let maxVal = (if \<bar>a\<bar> > \<bar>b\<bar> then \<bar>a\<bar> else \<bar>b\<bar>) in \<bar>a - b\<bar> \<le> maxVal * Fin DBL_EPSILON)"

lemma compare_double_cases:
  "compare_double a b = (case (a, b) of
     (Fin x, Fin y) \<Rightarrow> to_dbl \<bar>x - y\<bar> \<le> to_dbl ((if \<bar>x\<bar> > \<bar>y\<bar> then \<bar>x\<bar> else \<bar>y\<bar>) * DBL_EPSILON)
   | (NaN, _) \<Rightarrow> False | (_, NaN) \<Rightarrow> False
   | (PInf, PInf) \<Rightarrow> False | (MInf, MInf) \<Rightarrow> False
   | _ \<Rightarrow> True)"
proof (cases "\<exists>x y. a = Fin x \<and> b = Fin y")
  case True
  then obtain x y where "a = Fin x" "b = Fin y" by blast
  moreover have "\<bar>Fin z\<bar> = Fin \<bar>z\<bar>" "Fin z * Fin w = to_dbl (z * w)" "\<bar>Fin z - Fin w\<bar> = to_dbl \<bar>z - w\<bar>" for z w
    using abs_to_dbl by (simp_all add: abs_dbl_def times_dbl_def minus_dbl_def)
  ultimately show ?thesis by (simp add: compare_double_def Let_def)
next
  case False
  then show ?thesis
    by (cases a; cases b) (auto simp: compare_double_def Let_def abs_dbl_def times_dbl_def minus_dbl_def dbl_sgn_def
        DBL_EPSILON_def less_eq_dbl_def less_dbl_def)
qed

section \<open>The buffer\<close>

record printbuffer =
  p_buf :: "bytes option"
  p_length :: nat
  p_offset :: nat
  p_depth :: nat
  p_noalloc :: bool
  p_format :: bool
  p_realloc :: bool
  p_fill :: "nat \<Rightarrow> u8"
  p_heap :: heap

definition resize :: "(nat \<Rightarrow> u8) \<Rightarrow> nat \<Rightarrow> bytes \<Rightarrow> bytes" where
  "resize fill n m = take n m @ map fill [length m ..< n]"

text \<open>
  \<open>ensure\<close>: whether there is room for \<open>needed\<close> bytes and a terminator at the offset, after
  enlarging the block when that is possible.  A failed enlargement frees the block.
\<close>

definition ensure :: "nat \<Rightarrow> printbuffer \<Rightarrow> (bool \<times> printbuffer) cres" where
  "ensure needed p =
     (case p_buf p of
        None \<Rightarrow> Inr (False, p)
      | Some m \<Rightarrow>
          if p_length p > 0 \<and> p_offset p \<ge> p_length p then Inr (False, p)
          else if int needed > INT_MAX then Inr (False, p)
          else
            let total = needed + p_offset p + 1 in
            if total \<le> p_length p then Inr (True, p)
            else if p_noalloc p then Inr (False, p)
            else if int total > INT_MAX then Inr (False, p)
            else
              let newsize = (if int total > INT_MAX div 2 then nat INT_MAX else total * 2) in
              case allocate (p_heap p) of (ok, h) \<Rightarrow>
              if \<not> ok then Inr (False, p\<lparr>p_buf := None, p_length := 0, p_heap := release 1 h\<rparr>)
              else if p_realloc p then
                Inr (True, p\<lparr>p_buf := Some (resize (p_fill p) newsize m), p_length := newsize,
                       p_heap := release 1 h\<rparr>)
              else cbind (slice m 0 (p_offset p + 1)) (\<lambda>old.
                Inr (True, p\<lparr>p_buf := Some (resize (p_fill p) newsize old), p_length := newsize,
                       p_heap := release 1 h\<rparr>)))"

text \<open>Stores at the output pointer, which is the buffer at its offset, plus \<open>i\<close>.\<close>

definition out :: "nat \<Rightarrow> bytes \<Rightarrow> printbuffer \<Rightarrow> printbuffer cres" where
  "out i bs p =
     cbind (deref (p_buf p)) (\<lambda>m. cbind (pokes m (p_offset p + i) bs) (\<lambda>m'. Inr (p\<lparr>p_buf := Some m'\<rparr>)))"

definition update_offset :: "printbuffer \<Rightarrow> printbuffer cres" where
  "update_offset p =
     (case p_buf p of
        None \<Rightarrow> Inr p
      | Some m \<Rightarrow> cbind (c_strlen (drop (p_offset p) m)) (\<lambda>n. Inr (p\<lparr>p_offset := p_offset p + n\<rparr>)))"

text \<open>\<open>if (!step) return false;\<close> and then the rest.\<close>

definition pbind ::
    "(bool \<times> printbuffer) cres \<Rightarrow> (printbuffer \<Rightarrow> (bool \<times> printbuffer) cres) \<Rightarrow> (bool \<times> printbuffer) cres"
where
  "pbind m f = cbind m (\<lambda>(ok, p). if ok then f p else Inr (False, p))"

lemma pbind_cong [fundef_cong]:
  "m = m' \<Longrightarrow> (\<And>p. m' = Inr (True, p) \<Longrightarrow> f p = g p) \<Longrightarrow> pbind m f = pbind m' g"
  by (cases m') (auto simp: pbind_def)

definition returning_true :: "printbuffer cres \<Rightarrow> (bool \<times> printbuffer) cres" where
  "returning_true m = cbind m (\<lambda>p. Inr (True, p))"

section \<open>Strings\<close>

definition short_escape :: "u8 \<Rightarrow> u8 option" where
  "short_escape c =
     (if c = 92 then Some 92 else if c = 34 then Some 34 else if c = 8 then Some 98
      else if c = 12 then Some 102 else if c = 10 then Some 110 else if c = 13 then Some 114
      else if c = 9 then Some 116 else None)"

definition escape_extra :: "u8 \<Rightarrow> nat" where
  "escape_extra c =
     (if c = 34 \<or> c = 92 \<or> c = 8 \<or> c = 12 \<or> c = 10 \<or> c = 13 \<or> c = 9 then 1 else if c < 32 then 5 else 0)"

definition hex_char :: "nat \<Rightarrow> u8" where
  "hex_char n = of_nat (if n < 10 then 48 + n else 87 + n)"

text \<open>\<open>u%04x\<close>.\<close>

definition fmt_u04x :: "u8 \<Rightarrow> bytes" where
  "fmt_u04x c = [117, 48, 48, hex_char (unat c div 16), hex_char (unat c mod 16)]"

text \<open>The copying loop, with the output pointer at \<open>i\<close>.\<close>

fun escape_loop :: "bytes \<Rightarrow> nat \<Rightarrow> printbuffer \<Rightarrow> printbuffer cres" where
  "escape_loop [] i p = Inr p"
| "escape_loop (c # cs) i p =
     (if c > 31 \<and> c \<noteq> 34 \<and> c \<noteq> 92 then cbind (out i [c] p) (\<lambda>p'. escape_loop cs (i + 1) p')
      else cbind (out i [92] p) (\<lambda>p1.
        case short_escape c of
          Some x \<Rightarrow> cbind (out (i + 1) [x] p1) (\<lambda>p2. escape_loop cs (i + 2) p2)
        | None \<Rightarrow> cbind (out (i + 1) (fmt_u04x c @ [0]) p1) (\<lambda>p2. escape_loop cs (i + 6) p2)))"

definition print_string_ptr :: "bytes option \<Rightarrow> printbuffer \<Rightarrow> (bool \<times> printbuffer) cres" where
  "print_string_ptr input p =
     (case input of
        None \<Rightarrow> pbind (ensure 3 p) (\<lambda>p1. returning_true (out 0 [34, 34, 0] p1))
      | Some s \<Rightarrow>
          let cs = cstr s; escape_characters = sum_list (map escape_extra cs);
              output_length = length cs + escape_characters in
          pbind (ensure (output_length + 3) p) (\<lambda>p1.
          if escape_characters = 0 then returning_true (out 0 ([34] @ cs @ [34, 0]) p1)
          else
            returning_true (cbind (out 0 [34] p1) (\<lambda>p2. cbind (escape_loop cs 1 p2) (\<lambda>p3.
              out (output_length + 1) [34, 0] p3)))))"

section \<open>Numbers\<close>

text \<open>\<open>sprintf\<close> into \<open>number_buffer\<close>, which has 26 bytes.\<close>

definition sprintf_26 :: "bytes \<Rightarrow> bytes cres" where
  "sprintf_26 s = (if length s + 1 \<le> 26 then Inr s else Inl OOB)"

definition number_chars :: "cJSON \<Rightarrow> bytes cres" where
  "number_chars item =
     (case valuedouble item of
        Fin d \<Rightarrow>
          if d = of_int (valueint item) then sprintf_26 (fmt_d (valueint item))
          else cbind (sprintf_26 (fmt_g 15 d)) (\<lambda>s.
            case strtod s of (test, used) \<Rightarrow>
            if used = 0 \<or> \<not> compare_double test (Fin d) then sprintf_26 (fmt_g 17 d) else Inr s)
      | _ \<Rightarrow> sprintf_26 (lit ''null''))"

definition print_number :: "cJSON \<Rightarrow> printbuffer \<Rightarrow> (bool \<times> printbuffer) cres" where
  "print_number item p =
     cbind (number_chars item) (\<lambda>s.
     pbind (ensure (length s + 1) p) (\<lambda>p1.
     cbind (out 0 (s @ [0]) p1) (\<lambda>p2. Inr (True, p2\<lparr>p_offset := p_offset p2 + length s\<rparr>))))"

section \<open>Values\<close>

definition sep :: "bool \<Rightarrow> bytes \<Rightarrow> bytes \<Rightarrow> bytes" where
  "sep formatted s extra = (if formatted then s @ extra else s)"

definition advance :: "nat \<Rightarrow> printbuffer \<Rightarrow> printbuffer" where
  "advance n p = p\<lparr>p_offset := p_offset p + n\<rparr>"

definition deeper :: "printbuffer \<Rightarrow> printbuffer" where
  "deeper p = p\<lparr>p_depth := p_depth p + 1\<rparr>"

definition shallower :: "printbuffer \<Rightarrow> printbuffer" where
  "shallower p = p\<lparr>p_depth := p_depth p - 1\<rparr>"

text \<open>\<open>ensure\<close> room, store the bytes, step over \<open>n\<close> of them.\<close>

definition put_out :: "nat \<Rightarrow> bytes \<Rightarrow> nat \<Rightarrow> printbuffer \<Rightarrow> (bool \<times> printbuffer) cres" where
  "put_out needed bs n p = pbind (ensure needed p) (\<lambda>p1. cbind (out 0 bs p1) (\<lambda>p2. Inr (True, advance n p2)))"

text \<open>
  \<open>print_array\<close> and \<open>print_object\<close> take the list of children; \<open>print_elements\<close> and \<open>print_members\<close>
  are their loops.
\<close>

fun print_value :: "cJSON \<Rightarrow> printbuffer \<Rightarrow> (bool \<times> printbuffer) cres"
  and print_array :: "cJSON list \<Rightarrow> printbuffer \<Rightarrow> (bool \<times> printbuffer) cres"
  and print_object :: "cJSON list \<Rightarrow> printbuffer \<Rightarrow> (bool \<times> printbuffer) cres"
  and print_elements :: "cJSON list \<Rightarrow> printbuffer \<Rightarrow> (bool \<times> printbuffer) cres"
  and print_members :: "cJSON list \<Rightarrow> printbuffer \<Rightarrow> (bool \<times> printbuffer) cres"
where
  "print_value (Item t vs vi vd s ch) p =
     (let ty = t AND 0xFF in
      if ty = cJSON_NULL then put_out 5 (lit ''null'' @ [0]) 0 p
      else if ty = cJSON_False then put_out 6 (lit ''false'' @ [0]) 0 p
      else if ty = cJSON_True then put_out 5 (lit ''true'' @ [0]) 0 p
      else if ty = cJSON_Number then print_number (Item t vs vi vd s ch) p
      else if ty = cJSON_Raw then
        (case vs of None \<Rightarrow> Inr (False, p) | Some r \<Rightarrow> put_out (length (cstr r) + 1) (cstr r @ [0]) 0 p)
      else if ty = cJSON_String then print_string_ptr vs p
      else if ty = cJSON_Array then print_array ch p
      else if ty = cJSON_Object then print_object ch p
      else Inr (False, p))"
| "print_array ch p =
     pbind (put_out 1 [91] 1 p) (\<lambda>p1.
     pbind (print_elements ch (deeper p1)) (\<lambda>p2.
     pbind (put_out 2 [93, 0] 0 p2) (\<lambda>p3. Inr (True, shallower p3))))"
| "print_object ch p =
     (let len = (if p_format p then 2 else 1) in
      pbind (put_out (len + 1) (sep (p_format p) [123] [10]) len p) (\<lambda>p1.
      pbind (print_members ch (deeper p1)) (\<lambda>p2.
      pbind (put_out (if p_format p2 then p_depth p2 + 1 else 2)
               ((if p_format p2 then replicate (p_depth p2 - 1) 9 else []) @ [125, 0]) 0 p2) (\<lambda>p3.
      Inr (True, shallower p3)))))"
| "print_elements [] p = Inr (True, p)"
| "print_elements (x # xs) p =
     pbind (print_value x p) (\<lambda>p1. cbind (update_offset p1) (\<lambda>p2.
     if xs \<noteq> [] then
       let len = (if p_format p2 then 2 else 1) in
       pbind (put_out (len + 1) (sep (p_format p2) [44] [32] @ [0]) len p2) (\<lambda>p3. print_elements xs p3)
     else print_elements xs p2))"
| "print_members [] p = Inr (True, p)"
| "print_members (x # xs) p =
     pbind (if p_format p then put_out (p_depth p) (replicate (p_depth p) 9) (p_depth p) p else Inr (True, p)) (\<lambda>p1.
     pbind (print_string_ptr (c_string x) p1) (\<lambda>p2. cbind (update_offset p2) (\<lambda>p3.
     let len = (if p_format p3 then 2 else 1) in
     pbind (put_out len (sep (p_format p3) [58] [9]) len p3) (\<lambda>p4.
     pbind (print_value x p4) (\<lambda>p5. cbind (update_offset p5) (\<lambda>p6.
     let len2 = (if p_format p6 then 1 else 0) + (if xs \<noteq> [] then 1 else 0) in
     pbind (put_out (len2 + 1) ((if xs \<noteq> [] then [44] else []) @ (if p_format p6 then [10] else []) @ [0]) len2 p6)
       (\<lambda>p7. print_members xs p7)))))))"

section \<open>The entry points\<close>

definition free_buffer :: "printbuffer \<Rightarrow> heap" where
  "free_buffer p = (if p_buf p = None then p_heap p else release 1 (p_heap p))"

definition print_item :: "cJSON option \<Rightarrow> printbuffer \<Rightarrow> (bool \<times> printbuffer) cres" where
  "print_item item p = (case item of None \<Rightarrow> Inr (False, p) | Some v \<Rightarrow> print_value v p)"

definition new_printbuffer :: "nat \<Rightarrow> bool \<Rightarrow> bool \<Rightarrow> bool \<Rightarrow> (nat \<Rightarrow> u8) \<Rightarrow> bytes \<Rightarrow> heap \<Rightarrow> printbuffer" where
  "new_printbuffer n noalloc fmt rea fill m h =
     \<lparr>p_buf = Some m, p_length = n, p_offset = 0, p_depth = 0, p_noalloc = noalloc, p_format = fmt,
       p_realloc = rea, p_fill = fill, p_heap = h\<rparr>"

text \<open>\<open>print\<close>: the returned block, and the heap; \<open>rea\<close> is whether the hooks have a realloc.\<close>

definition print ::
    "cJSON option \<Rightarrow> bool \<Rightarrow> bool \<Rightarrow> (nat \<Rightarrow> u8) \<Rightarrow> heap \<Rightarrow> (bytes option \<times> heap) cres" where
  "print item fmt rea fill h =
     (case allocate h of (ok, h1) \<Rightarrow>
      if \<not> ok then Inr (None, h1)
      else
        cbind (print_item item (new_printbuffer 256 False fmt rea fill (map fill [0..<256]) h1)) (\<lambda>(ok, p).
        if \<not> ok then Inr (None, free_buffer p)
        else cbind (update_offset p) (\<lambda>p1. cbind (deref (p_buf p1)) (\<lambda>m.
          case allocate (p_heap p1) of (ok, h2) \<Rightarrow>
          if \<not> ok then Inr (None, release 1 h2)
          else if rea then Inr (Some (resize fill (p_offset p1 + 1) m), release 1 h2)
          else
            cbind (slice m 0 (min (p_length p1) (p_offset p1 + 1))) (\<lambda>old.
            cbind (poke (resize fill (p_offset p1 + 1) old) (p_offset p1) 0) (\<lambda>printed.
            Inr (Some printed, release 1 h2)))))))"

definition cJSON_Print :: "cJSON option \<Rightarrow> bool \<Rightarrow> (nat \<Rightarrow> u8) \<Rightarrow> heap \<Rightarrow> (bytes option \<times> heap) cres" where
  "cJSON_Print item rea fill h = print item True rea fill h"

definition cJSON_PrintUnformatted ::
    "cJSON option \<Rightarrow> bool \<Rightarrow> (nat \<Rightarrow> u8) \<Rightarrow> heap \<Rightarrow> (bytes option \<times> heap) cres" where
  "cJSON_PrintUnformatted item rea fill h = print item False rea fill h"

definition cJSON_PrintBuffered ::
    "cJSON option \<Rightarrow> int \<Rightarrow> bool \<Rightarrow> bool \<Rightarrow> (nat \<Rightarrow> u8) \<Rightarrow> heap \<Rightarrow> (bytes option \<times> heap) cres" where
  "cJSON_PrintBuffered item prebuffer fmt rea fill h =
     (if prebuffer < 0 then Inr (None, h)
      else case allocate h of (ok, h1) \<Rightarrow>
        if \<not> ok then Inr (None, h1)
        else
          let n = nat prebuffer in
          cbind (print_item item (new_printbuffer n False fmt rea fill (map fill [0..<n]) h1)) (\<lambda>(ok, p).
          if \<not> ok then Inr (None, free_buffer p) else Inr (p_buf p, p_heap p)))"

text \<open>Into the caller's block, whose contents afterwards are returned.\<close>

definition cJSON_PrintPreallocated ::
    "cJSON option \<Rightarrow> bytes option \<Rightarrow> int \<Rightarrow> bool \<Rightarrow> bool \<Rightarrow> (nat \<Rightarrow> u8) \<Rightarrow> heap \<Rightarrow> (bool \<times> bytes option) cres" where
  "cJSON_PrintPreallocated item buffer len fmt rea fill h =
     (if len < 0 \<or> buffer = None then Inr (False, buffer)
      else cbind (deref buffer) (\<lambda>m.
        cbind (print_item item (new_printbuffer (nat len) True fmt rea fill m h)) (\<lambda>(ok, p).
        Inr (ok, p_buf p))))"

end
