(* ===== verification/DebugPrint.thy ===== *)
theory DebugPrint
  imports Broker JsonPrint
begin

text \<open>
  The two printers of src/conf.c that main calls for every message in a build without NDEBUG, as the
  bytes they write.  The body is printed with %s, so it is read up to a NUL; main's buffer is cleared
  before each message, but a body that fills it leaves none.
\<close>

definition print_cmd_head :: "PROTOCOL_CMD \<Rightarrow> bytes" where
  "print_cmd_head head =
     [10] @ lit ''magic: '' @ [szMagic head ! 0] @ lit '' '' @ [szMagic head ! 1] @ lit '' '' @ [10] @
     lit ''bodylen: '' @ fmt_d (uint (bodylen head)) @ lit '',sendType: '' @ fmt_d (uint (cmdSendType head)) @
     lit '',id: '' @ fmt_d (uint (cmdid head)) @ lit '',br_num: '' @ fmt_d (uint (broadcast_num head)) @ lit '' '' @ [10]"

fun print_ids :: "bytes \<Rightarrow> nat \<Rightarrow> nat \<Rightarrow> bytes cres" where
  "print_ids m i 0 = Inr []"
| "print_ids m i (Suc n) =
     cbind (peek m i) (\<lambda>d. cbind (print_ids m (Suc i) n) (\<lambda>rest. Inr (lit '' '' @ fmt_d (uint d) @ rest)))"

definition print_string_at :: "bytes \<Rightarrow> nat \<Rightarrow> bytes cres" where
  "print_string_at m i = (if i \<le> length m \<and> 0 \<in> set (drop i m) then Inr (cstr (drop i m)) else Inl OOB)"

definition print_data_char :: "int \<Rightarrow> bytes \<Rightarrow> bytes cres" where
  "print_data_char br_num m =
     cbind (print_ids m 0 (nat br_num)) (\<lambda>ids.
     cbind (print_string_at m (nat (round4 br_num))) (\<lambda>body.
     Inr ([10] @ lit ''ids:'' @ ids @ [10] @ lit ''body: '' @ body @ lit '' '' @ [10])))"

lemma print_ids_ok: "i + n \<le> length m \<Longrightarrow> \<exists>t. print_ids m i n = Inr t"
proof (induction n arbitrary: i)
  case (Suc n)
  then obtain t where "print_ids m (Suc i) n = Inr t" by fastforce
  then show ?case using Suc.prems by (simp add: peek_def)
qed simp

text \<open>
  For a message of main's buffer the printers return unless the bytes behind the ids have no NUL.
\<close>

lemma print_data_char_faults:
  assumes "nat br_num \<le> length m"
  shows "print_data_char br_num m = Inl OOB \<longleftrightarrow> \<not> (nat (round4 br_num) \<le> length m \<and> 0 \<in> set (drop (nat (round4 br_num)) m))"
  using print_ids_ok[of 0 "nat br_num" m] assms by (auto simp: print_data_char_def print_string_at_def)

end
