(* ===== verification/JsonRender.thy ===== *)
theory JsonRender
  imports JsonPrint
begin

text \<open>
  What the printer of JsonPrint promises.  \<open>text_of\<close> is the text of an item, without buffers; the
  lemmas show that print\_value appends exactly this text, that it stores nothing outside the
  block, and that it fails only when the item has no text or the block cannot be made two bytes
  longer than the text.
\<close>

section \<open>The text of an item\<close>

definition escaped :: "u8 \<Rightarrow> bytes" where
  "escaped c =
     (if c > 31 \<and> c \<noteq> 34 \<and> c \<noteq> 92 then [c]
      else case short_escape c of Some x \<Rightarrow> [92, x] | None \<Rightarrow> 92 # fmt_u04x c)"

definition quoted :: "bytes option \<Rightarrow> bytes" where
  "quoted vs = (case vs of None \<Rightarrow> [34, 34] | Some s \<Rightarrow> 34 # concat (map escaped (cstr s)) @ [34])"

definition number_text :: "cJSON \<Rightarrow> bytes option" where
  "number_text item = (case number_chars item of Inl _ \<Rightarrow> None | Inr s \<Rightarrow> Some s)"

definition tabs :: "bool \<Rightarrow> nat \<Rightarrow> bytes" where
  "tabs f d = (if f then replicate d 9 else [])"

definition after_member :: "bool \<Rightarrow> bool \<Rightarrow> bytes" where
  "after_member f more_follow = (if more_follow then [44] else []) @ (if f then [10] else [])"

fun text_of :: "bool \<Rightarrow> nat \<Rightarrow> cJSON \<Rightarrow> bytes option"
  and texts_of :: "bool \<Rightarrow> nat \<Rightarrow> cJSON list \<Rightarrow> bytes option"
  and members_of :: "bool \<Rightarrow> nat \<Rightarrow> cJSON list \<Rightarrow> bytes option"
where
  "text_of f d (Item t vs vi vd s ch) =
     (let ty = t AND 0xFF in
      if ty = cJSON_NULL then Some (lit ''null'')
      else if ty = cJSON_False then Some (lit ''false'')
      else if ty = cJSON_True then Some (lit ''true'')
      else if ty = cJSON_Number then number_text (Item t vs vi vd s ch)
      else if ty = cJSON_Raw then map_option cstr vs
      else if ty = cJSON_String then Some (quoted vs)
      else if ty = cJSON_Array then map_option (\<lambda>x. [91] @ x @ [93]) (texts_of f (d + 1) ch)
      else if ty = cJSON_Object then
        map_option (\<lambda>x. sep f [123] [10] @ x @ tabs f d @ [125]) (members_of f (d + 1) ch)
      else None)"
| "texts_of f d [] = Some []"
| "texts_of f d (x # xs) =
     (case (text_of f d x, texts_of f d xs) of
        (Some a, Some b) \<Rightarrow> Some (a @ (if xs \<noteq> [] then sep f [44] [32] else []) @ b)
      | _ \<Rightarrow> None)"
| "members_of f d [] = Some []"
| "members_of f d (x # xs) =
     (case (text_of f d x, members_of f d xs) of
        (Some a, Some b) \<Rightarrow>
          Some (tabs f d @ quoted (c_string x) @ sep f [58] [9] @ a @ after_member f (xs \<noteq> []) @ b)
      | _ \<Rightarrow> None)"

text \<open>Every double of the tree is one a 64-bit double can hold, every integer an int.\<close>

definition double_ok :: "dbl \<Rightarrow> bool" where
  "double_ok d = (case d of Fin x \<Rightarrow> x = 0 \<or> (1 / 2 ^ 1074 \<le> \<bar>x\<bar> \<and> \<bar>x\<bar> \<le> DBL_MAX) | _ \<Rightarrow> True)"

fun item_ok :: "cJSON \<Rightarrow> bool" where
  "item_ok (Item t vs vi vd s ch) \<longleftrightarrow>
     double_ok vd \<and> INT_MIN \<le> vi \<and> vi \<le> INT_MAX \<and> (\<forall>c \<in> set ch. item_ok c)"

section \<open>Numbers fit their buffer\<close>

lemma digit_char_not_NUL: "n < 10 \<Longrightarrow> (of_nat (48 + n) :: u8) \<noteq> 0"
  by (subst word_of_nat_eq_0_iff) (auto dest: dvd_imp_le)

lemma nat_digits_bounds:
  "(0 < n \<longrightarrow> 10 ^ (length (nat_digits n) - 1) \<le> n) \<and> n < 10 ^ length (nat_digits n)
   \<and> nat_digits n \<noteq> [] \<and> 0 \<notin> set (nat_digits n)"
proof (induction n rule: nat_digits.induct)
  case (1 n)
  show ?case
  proof (cases "n < 10")
    case True
    then have d: "nat_digits n = [of_nat (48 + n)]" by (simp add: nat_digits.simps[of n])
    show ?thesis unfolding d using True digit_char_not_NUL[OF True] by (simp del: of_nat_add)
  next
    case False
    let ?k = "length (nat_digits (n div 10))"
    have ih: "10 ^ (?k - 1) \<le> n div 10" "n div 10 < 10 ^ ?k" "0 < ?k" "0 \<notin> set (nat_digits (n div 10))"
      using 1[OF False] False by auto
    have d: "nat_digits n = nat_digits (n div 10) @ [of_nat (48 + n mod 10)]"
      using False by (simp add: nat_digits.simps[of n])
    have "(10::nat) ^ ?k = 10 * 10 ^ (?k - 1)" using ih(3) by (metis Suc_pred' power_Suc)
    then have "10 ^ ?k \<le> n" using ih(1) by linarith
    moreover have "n < 10 ^ Suc ?k" using ih(2) by (simp add: div_less_iff_less_mult)
    moreover have "(of_nat (48 + n mod 10) :: u8) \<noteq> 0" by (rule digit_char_not_NUL) simp
    ultimately show ?thesis unfolding d using ih(4) by (simp del: of_nat_add)
  qed
qed

lemma nat_digits_length:
  assumes "n < 10 ^ k" and "0 < k"
  shows "length (nat_digits n) \<le> k"
proof (rule ccontr)
  assume "\<not> length (nat_digits n) \<le> k"
  then have k: "k \<le> length (nat_digits n) - 1" by simp
  have "length (nat_digits n) = 1" if "n = 0" using that by (simp add: nat_digits.simps)
  then have "n \<noteq> 0" using k assms(2) by (cases "n = 0") auto
  then have "10 ^ (length (nat_digits n) - 1) \<le> n" using nat_digits_bounds[of n] by auto
  moreover have "(10::nat) ^ k \<le> 10 ^ (length (nat_digits n) - 1)" using k by (intro power_increasing) auto
  ultimately show False using assms(1) by linarith
qed

lemma nat_digits_no_NUL: "0 \<notin> set (nat_digits n)"
  using nat_digits_bounds[of n] by blast

lemma pow10_powi: "pow10 k = 10 powi k"
  by (simp add: pow10_def power_int_def inverse_eq_divide power_one_over)

lemma pow10_mono: "a \<le> b \<Longrightarrow> pow10 a \<le> pow10 b"
  by (simp add: pow10_powi power_int_increasing)

lemma pow10_less_imp: "pow10 a < pow10 b \<Longrightarrow> a < b"
  using pow10_mono[of b a] by linarith

lemma pow10_diff: "pow10 (int a - int b) = 10 ^ a / 10 ^ b"
  by (simp add: pow10_powi power_int_diff)

lemma pow10_pos: "0 < pow10 k"
  by (simp add: pow10_powi)

lemma flog10_bounds:
  assumes "0 < y"
  shows "pow10 (flog10 y) \<le> y" and "y < pow10 (flog10 y + 1)"
proof -
  obtain p q where pq: "quotient_of y = (p, q)" by (cases "quotient_of y")
  have q: "0 < q" using quotient_of_denom_pos[OF pq] .
  have y: "y = of_int p / of_int q" using quotient_of_div[OF pq] .
  then have p: "0 < p" using assms q by (simp add: zero_less_divide_iff)
  define P Q where "P = nat p" and "Q = nat q"
  have PQ: "0 < P" "0 < Q" "y = of_nat P / of_nat Q" using p q y by (simp_all add: P_def Q_def)
  define a b where "a = length (nat_digits P)" and "b = length (nat_digits Q)"
  have a: "10 ^ (a - 1) \<le> P" "P < 10 ^ a" "0 < a" and b: "10 ^ (b - 1) \<le> Q" "Q < 10 ^ b" "0 < b"
    using nat_digits_bounds[of P] nat_digits_bounds[of Q] PQ(1,2) by (auto simp: a_def b_def)
  have cast: "(10 :: rat) ^ n = of_nat (10 ^ n)" for n by simp
  have ra: "(10 :: rat) ^ (a - 1) \<le> of_nat P" "(of_nat P :: rat) < 10 ^ a"
    and rb: "(10 :: rat) ^ (b - 1) \<le> of_nat Q" "(of_nat Q :: rat) < 10 ^ b"
    unfolding cast of_nat_le_iff of_nat_less_iff by fact+
  have Q: "(0 :: rat) < of_nat Q" "(0 :: rat) < of_nat P" using PQ(1,2) by simp_all
  have lo: "pow10 (int (a - 1) - int b) \<le> y"
    unfolding pow10_diff PQ(3) using ra(1) rb(2) Q by (intro frac_le) auto
  have hi: "y < pow10 (int a - int (b - 1))"
    unfolding pow10_diff PQ(3) using ra(2) rb(1) Q by (intro frac_less) auto
  have f: "flog10 y = (if y < pow10 (int a - int b) then int a - int b - 1 else int a - int b)"
    unfolding flog10_def pq prod.case Let_def a_def b_def P_def Q_def ..
  have e: "int (a - 1) - int b = int a - int b - 1" "int a - int (b - 1) = int a - int b + 1"
    using a(3) b(3) by (simp_all add: of_nat_diff)
  show "pow10 (flog10 y) \<le> y" using lo unfolding f e by (simp add: not_less)
  show "y < pow10 (flog10 y + 1)" using hi unfolding f e by simp
qed

lemma round_half_even_le: "x \<le> of_int k \<Longrightarrow> round_half_even x \<le> k"
proof -
  assume x: "x \<le> of_int k"
  show ?thesis
  proof (cases "x = of_int k")
    case False
    then have "\<lfloor>x\<rfloor> < k" using x by (simp add: floor_less_iff)
    then show ?thesis by (simp add: round_half_even_def Let_def)
  qed (simp add: round_half_even_of_int)
qed

lemma strip0_length: "length (strip0 ds) \<le> length ds"
  using length_dropWhile_le[of "\<lambda>d. d = 48" "rev ds"] by (simp add: strip0_def)

lemma with_point_length: "length (with_point fs) \<le> Suc (length fs)"
  by (simp add: with_point_def)

lemma fmt_exp_length: "\<bar>e\<bar> < 1000 \<Longrightarrow> length (fmt_exp e) \<le> 5"
  using nat_digits_length[of "nat \<bar>e\<bar>" 3] by (simp add: fmt_exp_def Let_def)

definition exponent_ok :: "rat \<Rightarrow> bool" where
  "exponent_ok x \<longleftrightarrow> x = 0 \<or> \<bar>flog10 \<bar>x\<bar>\<bar> < 999"

lemma double_exponent: "double_ok (Fin x) \<Longrightarrow> exponent_ok x"
proof (cases "x = 0")
  case False
  assume "double_ok (Fin x)"
  then have x: "1 / 2 ^ 1074 \<le> \<bar>x\<bar>" "\<bar>x\<bar> \<le> DBL_MAX" using False by (simp_all add: double_ok_def)
  have "pow10 (flog10 \<bar>x\<bar>) < pow10 309"
    using flog10_bounds(1)[of "\<bar>x\<bar>"] x(2) False by (simp add: DBL_MAX_def pow10_def)
  moreover have "pow10 (-324) < pow10 (flog10 \<bar>x\<bar> + 1)"
    using flog10_bounds(2)[of "\<bar>x\<bar>"] x(1) False by (simp add: pow10_def)
  ultimately have "flog10 \<bar>x\<bar> < 309" "-324 < flog10 \<bar>x\<bar> + 1" by (auto dest: pow10_less_imp)
  then have "\<bar>flog10 \<bar>x\<bar>\<bar> < 999" by linarith
  then show ?thesis by (simp add: exponent_ok_def)
qed (simp add: exponent_ok_def)

lemma fmt_g_length:
  assumes "0 < prec" and "exponent_ok x"
  shows "length (fmt_g prec x) \<le> prec + 7"
proof (cases "x = 0")
  case False
  define e0 where "e0 = flog10 \<bar>x\<bar>"
  define m0 where "m0 = nat (round_half_even (\<bar>x\<bar> / pow10 (e0 - (int prec - 1))))"
  define m where "m = (if m0 = 10 ^ prec then 10 ^ (prec - 1) else m0)"
  define e where "e = (if m0 = 10 ^ prec then e0 + 1 else e0)"
  define ds where "ds = nat_digits m"
  have b: "\<bar>x\<bar> < pow10 (e0 + 1)" using flog10_bounds(2)[of "\<bar>x\<bar>"] False by (simp add: e0_def)
  have "pow10 (e0 + 1) = 10 ^ prec * pow10 (e0 - (int prec - 1))"
    by (simp add: pow10_powi flip: power_int_of_nat power_int_add)
  then have "\<bar>x\<bar> / pow10 (e0 - (int prec - 1)) \<le> of_int (10 ^ prec)"
    using b pow10_pos[of "e0 - (int prec - 1)"] by (simp add: divide_le_eq)
  then have "round_half_even (\<bar>x\<bar> / pow10 (e0 - (int prec - 1))) \<le> 10 ^ prec" by (rule round_half_even_le)
  then have "m0 \<le> 10 ^ prec" by (simp add: m0_def nat_le_iff)
  then have "m < 10 ^ prec" using assms(1) by (simp add: m_def)
  then have len: "length ds \<le> prec" using nat_digits_length assms(1) by (simp add: ds_def)
  have "\<bar>e0\<bar> < 999" using assms(2) False by (simp add: exponent_ok_def e0_def)
  then have e: "\<bar>e\<bar> < 1000" by (auto simp: e_def abs_less_iff)
  have g: "fmt_g prec x = (if x < 0 then [45] else []) @
     (if e < -4 \<or> e \<ge> int prec then take 1 ds @ with_point (strip0 (drop 1 ds)) @ fmt_exp e
      else if e < 0 then [48, 46] @ replicate (nat (- e) - 1) 48 @ strip0 ds
      else take (nat e + 1) ds @ with_point (strip0 (drop (nat e + 1) ds)))"
    using False unfolding fmt_g_def Let_def ds_def e_def m_def m0_def e0_def by (simp split: prod.split)
  have w: "length (with_point (strip0 (drop k ds))) \<le> Suc (length ds - k)" for k
    using with_point_length[of "strip0 (drop k ds)"] strip0_length[of "drop k ds"] by simp
  have "length (take 1 ds @ with_point (strip0 (drop 1 ds)) @ fmt_exp e) \<le> prec + 6"
    using w[of 1] fmt_exp_length[OF e] len by simp
  moreover have "length ([48, 46] @ replicate (nat (- e) - 1) (48 :: u8) @ strip0 ds) \<le> prec + 6" if "\<not> e < -4"
    using that strip0_length[of ds] len by simp
  moreover have "length (take (nat e + 1) ds @ with_point (strip0 (drop (nat e + 1) ds))) \<le> prec + 6"
    using w[of "nat e + 1"] len by simp
  ultimately show ?thesis unfolding g by (simp only: length_append split: if_split) auto
qed (simp add: fmt_g_def)

lemma fmt_d_length:
  assumes "INT_MIN \<le> i" and "i \<le> INT_MAX"
  shows "length (fmt_d i) \<le> 11"
proof -
  have "length (nat_digits (nat \<bar>i\<bar>)) \<le> 10"
    using assms by (intro nat_digits_length) (simp_all add: INT_MIN_def INT_MAX_def)
  then show ?thesis by (cases "i < 0") (simp_all add: fmt_d_def)
qed

text \<open>\<open>number_buffer\<close> is never overrun.\<close>

lemma number_chars_safe:
  assumes "item_ok item"
  obtains s where "number_chars item = Inr s" and "length s \<le> 25"
proof -
  obtain t vs vi vd n ch where i: "item = Item t vs vi vd n ch" by (cases item)
  have d: "sprintf_26 (fmt_d vi) = Inr (fmt_d vi)" "length (fmt_d vi) \<le> 25"
    using assms fmt_d_length[of vi] by (simp_all add: i sprintf_26_def)
  have g: "sprintf_26 (fmt_g k x) = Inr (fmt_g k x)" "length (fmt_g k x) \<le> 25"
    if "vd = Fin x" "0 < k" "k \<le> 17" for k x
    using assms fmt_g_length[of k x] double_exponent[of x] that by (simp_all add: i sprintf_26_def)
  show ?thesis
  proof (cases vd)
    case (Fin x)
    have "number_chars item \<in> Inr ` {fmt_d vi, fmt_g 15 x, fmt_g 17 x}"
      using d g[OF Fin, of 15] g[OF Fin, of 17] by (simp add: number_chars_def i Fin split: prod.split)
    then show ?thesis using that d g[OF Fin, of 15] g[OF Fin, of 17] by auto
  qed (use that in \<open>simp_all add: number_chars_def i sprintf_26_def\<close>)
qed

section \<open>The buffer\<close>

definition printed :: "printbuffer \<Rightarrow> bytes" where
  "printed p = take (p_offset p) (the (p_buf p))"

definition usable :: "printbuffer \<Rightarrow> bool" where
  "usable p \<longleftrightarrow>
     (\<exists>m. p_buf p = Some m \<and> length m = p_length p) \<and> int (p_length p) \<le> INT_MAX \<and>
     (p_offset p < p_length p \<or> p_offset p = 0 \<and> p_length p = 0 \<and> (p_realloc p \<or> p_noalloc p))"

text \<open>The blocks held: what the allocator counts beyond the buffer stays the same.\<close>

definition spare :: "printbuffer \<Rightarrow> int" where
  "spare p = h_live (p_heap p) - (if p_buf p = None then 0 else 1)"

definition same_printer :: "printbuffer \<Rightarrow> printbuffer \<Rightarrow> bool" where
  "same_printer p p' \<longleftrightarrow>
     p_noalloc p' = p_noalloc p \<and> p_format p' = p_format p \<and> p_realloc p' = p_realloc p \<and>
     p_fill p' = p_fill p \<and> h_ok (p_heap p') = h_ok (p_heap p) \<and> spare p' = spare p \<and>
     (p_noalloc p \<longrightarrow> map_option length (p_buf p') = map_option length (p_buf p))"

text \<open>The block has, or can be given, \<open>n\<close> bytes.\<close>

definition can_hold :: "printbuffer \<Rightarrow> nat \<Rightarrow> bool" where
  "can_hold p n \<longleftrightarrow>
     n \<le> p_length p \<or> (\<not> p_noalloc p \<and> (\<forall>k. h_ok (p_heap p) k) \<and> int n \<le> INT_MAX)"

text \<open>\<open>appended p s p'\<close>: the text \<open>s\<close> has been printed; the block may have been enlarged.\<close>

definition appended :: "printbuffer \<Rightarrow> bytes \<Rightarrow> printbuffer \<Rightarrow> bool" where
  "appended p s p' \<longleftrightarrow>
     usable p' \<and> same_printer p p' \<and> p_length p \<le> p_length p' \<and> p_depth p' = p_depth p \<and>
     p_offset p' = p_offset p + length s \<and> printed p' = printed p @ s"

lemma same_printer_refl [simp]: "same_printer p p"
  by (simp add: same_printer_def)

lemma same_printer_trans: "same_printer p q \<Longrightarrow> same_printer q r \<Longrightarrow> same_printer p r"
  by (simp add: same_printer_def)

lemma appended_Nil: "usable p \<Longrightarrow> appended p [] p"
  by (simp add: appended_def)

lemma appended_trans: "appended p s q \<Longrightarrow> appended q t r \<Longrightarrow> appended p (s @ t) r"
  by (auto simp: appended_def elim: same_printer_trans)

lemma can_hold_mono: "can_hold p n \<Longrightarrow> k \<le> n \<Longrightarrow> can_hold p k"
  by (auto simp: can_hold_def)

lemma can_hold_appended: "can_hold p n \<Longrightarrow> appended p s q \<Longrightarrow> can_hold q n"
  by (auto simp: can_hold_def appended_def same_printer_def)

lemma allocate_cases:
  obtains "h_ok h (h_calls h)" "allocate h = (True, h\<lparr>h_calls := h_calls h + 1, h_live := h_live h + 1\<rparr>)"
  | "\<not> h_ok h (h_calls h)" "allocate h = (False, h\<lparr>h_calls := h_calls h + 1\<rparr>)"
  by (cases "h_ok h (h_calls h)") (simp_all add: allocate_def)

lemma enlarged:
  assumes "p_buf p = Some m" and "allocate (p_heap p) = (True, h)"
    and "take (p_offset p) old = take (p_offset p) m" and "p_offset p \<le> length old"
    and "p_length p \<le> n" and "p_offset p < n" and "int n \<le> INT_MAX" and "\<not> p_noalloc p"
  shows "appended p [] (p\<lparr>p_buf := Some (resize (p_fill p) n old), p_length := n, p_heap := release 1 h\<rparr>)"
  using assms
  by (cases "p_heap p" rule: allocate_cases)
    (auto simp: appended_def usable_def same_printer_def printed_def spare_def resize_def release_def min_def)

text \<open>\<open>ensure\<close> fails only when there can be no room.\<close>

lemma ensure_grows:
  assumes m: "p_buf p = Some m" "length m = p_length p"
    and off: "p_offset p < p_length p \<or> p_offset p = 0 \<and> p_length p = 0 \<and> (p_realloc p \<or> p_noalloc p)"
    and n: "\<not> int n > INT_MAX"
    and total: "\<not> n + p_offset p + 1 \<le> p_length p" "\<not> int (n + p_offset p + 1) > INT_MAX" and mv: "\<not> p_noalloc p"
  obtains ok q where "ensure n p = Inr (ok, q)" and "same_printer p q"
    and "ok \<Longrightarrow> appended p [] q \<and> p_offset p + n + 1 \<le> p_length q"
    and "\<not> ok \<Longrightarrow> \<not> can_hold p (p_offset p + n + 1)"
proof -
  have valid: "\<not> (p_length p > 0 \<and> p_offset p \<ge> p_length p)" and le: "p_offset p \<le> length m"
    using off m(2) by auto
  define size where "size = (if int (n + p_offset p + 1) > INT_MAX div 2 then nat INT_MAX else (n + p_offset p + 1) * 2)"
  have sz: "n + p_offset p + 1 \<le> size" "int size \<le> INT_MAX" "0 < size"
    using total(2) by (auto simp: size_def INT_MAX_def)
  obtain got h where h: "allocate (p_heap p) = (got, h)" by (cases "allocate (p_heap p)")
  have e: "ensure n p =
     (if \<not> got then Inr (False, p\<lparr>p_buf := None, p_length := 0, p_heap := release 1 h\<rparr>)
      else if p_realloc p then
        Inr (True, p\<lparr>p_buf := Some (resize (p_fill p) size m), p_length := size, p_heap := release 1 h\<rparr>)
      else cbind (slice m 0 (p_offset p + 1)) (\<lambda>old.
        Inr (True, p\<lparr>p_buf := Some (resize (p_fill p) size old), p_length := size, p_heap := release 1 h\<rparr>)))"
    unfolding ensure_def m(1) option.case if_not_P[OF valid] Let_def if_not_P[OF n] if_not_P[OF total(1)]
      if_not_P[OF mv] if_not_P[OF total(2)] h prod.case size_def[symmetric] ..
  show thesis
  proof (cases got)
    case False
    have "spare (p\<lparr>p_buf := None, p_length := 0, p_heap := release 1 h\<rparr>) = spare p"
      "h_ok h = h_ok (p_heap p)" "\<not> (\<forall>k. h_ok (p_heap p) k)"
      using False h m(1) by (cases "p_heap p" rule: allocate_cases; auto simp: spare_def release_def)+
    then have "same_printer p (p\<lparr>p_buf := None, p_length := 0, p_heap := release 1 h\<rparr>)"
      "\<not> can_hold p (p_offset p + n + 1)"
      using total(1) mv by (auto simp: same_printer_def can_hold_def release_def)
    moreover have "ensure n p = Inr (False, p\<lparr>p_buf := None, p_length := 0, p_heap := release 1 h\<rparr>)"
      using e False by simp
    ultimately show thesis using that by blast
  next
    case True
    then have "allocate (p_heap p) = (True, h)" using h by simp
    note big = enlarged[OF m(1) this]
    have "ensure n p = Inr (True, p\<lparr>p_buf := Some (resize (p_fill p) size old), p_length := size,
        p_heap := release 1 h\<rparr>) \<Longrightarrow> take (p_offset p) old = take (p_offset p) m \<Longrightarrow>
        p_offset p \<le> length old \<Longrightarrow> thesis" for old
      using that big[of old size] total(1) mv sz by (auto simp: appended_def)
    then show thesis using e True le off m(2) mv
      by (cases "p_realloc p") (auto simp: slice_def min_def)
  qed
qed

lemma ensure_spec:
  assumes "usable p"
  obtains ok q where "ensure n p = Inr (ok, q)" and "same_printer p q"
    and "ok \<Longrightarrow> appended p [] q \<and> p_offset p + n + 1 \<le> p_length q"
    and "\<not> ok \<Longrightarrow> \<not> can_hold p (p_offset p + n + 1)"
proof -
  obtain m where m: "p_buf p = Some m" "length m = p_length p" "int (p_length p) \<le> INT_MAX"
    and off: "p_offset p < p_length p \<or> p_offset p = 0 \<and> p_length p = 0 \<and> (p_realloc p \<or> p_noalloc p)"
    using assms by (auto simp: usable_def)
  have valid: "\<not> (p_length p > 0 \<and> p_offset p \<ge> p_length p)" using off by auto
  define total where "total = n + p_offset p + 1"
  consider (huge) "int n > INT_MAX" | (fits) "\<not> int n > INT_MAX" "total \<le> p_length p"
    | (fixed) "\<not> total \<le> p_length p" "p_noalloc p"
    | (huge2) "\<not> int n > INT_MAX" "\<not> total \<le> p_length p" "int total > INT_MAX" "\<not> p_noalloc p"
    | (grow) "\<not> int n > INT_MAX" "\<not> total \<le> p_length p" "\<not> p_noalloc p" "\<not> int total > INT_MAX"
    by blast
  then show thesis
  proof cases
    case huge
    show thesis
      by (rule that[of False p]) (use huge m valid in \<open>simp_all add: ensure_def can_hold_def\<close>)
  next
    case fits
    show thesis
      by (rule that[of True p])
        (use fits m(1) valid assms in \<open>simp_all add: ensure_def total_def appended_Nil\<close>)
  next
    case fixed
    show thesis
      by (rule that[of False p]) (use fixed m(1) valid in \<open>simp_all add: ensure_def total_def can_hold_def\<close>)
  next
    case huge2
    show thesis
      by (rule that[of False p]) (use huge2 m(1) valid in \<open>simp_all add: ensure_def total_def can_hold_def\<close>)
  next
    case grow
    show thesis
      by (rule ensure_grows[OF m(1,2) off grow(1) _ _ grow(3)])
        (use grow(2,4) that in \<open>auto simp: total_def\<close>)
  qed
qed

section \<open>What a printing step leaves behind\<close>

text \<open>
  \<open>outcome P F p r\<close>: the step does not fault; when it succeeds \<open>P\<close> holds of the buffer it leaves,
  and it fails only if \<open>F\<close>.
\<close>

definition outcome ::
    "(printbuffer \<Rightarrow> bool) \<Rightarrow> bool \<Rightarrow> printbuffer \<Rightarrow> (bool \<times> printbuffer) cres \<Rightarrow> bool" where
  "outcome P F p r \<longleftrightarrow>
     (\<exists>q. r = Inr (True, q) \<and> same_printer p q \<and> P q) \<or>
     (\<exists>q. r = Inr (False, q) \<and> same_printer p q \<and> F)"

definition finished :: "printbuffer \<Rightarrow> bytes \<Rightarrow> printbuffer \<Rightarrow> bool" where
  "finished p s q \<longleftrightarrow>
     appended p s q \<and> p_offset q + 2 \<le> p_length q \<and> the (p_buf q) ! p_offset q = 0"

text \<open>The text has been stored with its terminator, and update\_offset steps over it.\<close>

definition ended :: "printbuffer \<Rightarrow> bytes \<Rightarrow> printbuffer \<Rightarrow> bool" where
  "ended p s p' \<longleftrightarrow> (\<exists>q. update_offset p' = Inr q \<and> finished p s q)"

lemma outcome_trans:
  "same_printer p q \<Longrightarrow> outcome P F q r \<Longrightarrow> outcome P F p r"
  unfolding outcome_def using same_printer_trans by blast

lemma outcome_bind:
  assumes "outcome P1 F1 p r" and "F1 \<Longrightarrow> F" and "\<And>q. P1 q \<Longrightarrow> outcome P F q (f q)"
  shows "outcome P F p (pbind r f)"
  using assms(1)[unfolded outcome_def]
proof (elim disjE exE conjE)
  fix q assume "r = Inr (True, q)" "same_printer p q" "P1 q"
  then show ?thesis using outcome_trans assms(3) by (simp add: pbind_def)
next
  fix q assume "r = Inr (False, q)" "same_printer p q" F1
  then show ?thesis using assms(2) by (simp add: outcome_def pbind_def)
qed

lemma outcome_update:
  assumes "update_offset p = Inr q" and "same_printer p q" and "outcome P F q (f q)"
  shows "outcome P F p (cbind (update_offset p) f)"
  using assms outcome_trans by simp

lemma outcome_return: "P p \<Longrightarrow> outcome P F p (Inr (True, p))"
  by (simp add: outcome_def)

lemma outcome_weaken: "outcome P F p r \<Longrightarrow> (\<And>q. P q \<Longrightarrow> P' q) \<Longrightarrow> (F \<Longrightarrow> F') \<Longrightarrow> outcome P' F' p r"
  by (auto simp: outcome_def)

lemma ensure_outcome:
  assumes "usable p"
  shows "outcome (\<lambda>q. appended p [] q \<and> p_offset p + n + 1 \<le> p_length q)
           (\<not> can_hold p (p_offset p + n + 1)) p (ensure n p)"
  by (rule ensure_spec[OF assms, of n]) (auto simp: outcome_def)

lemma same_printer_update [simp]:
  "p_buf p = Some m \<Longrightarrow> length m' = length m \<Longrightarrow> same_printer p (p\<lparr>p_buf := Some m'\<rparr>)"
  by (auto simp: same_printer_def spare_def)

lemma usable_buf: "usable p \<Longrightarrow> \<exists>m. p_buf p = Some m \<and> length m = p_length p"
  by (simp add: usable_def)

lemma out_Inr:
  assumes "p_buf p = Some m" and "p_offset p + i + length bs \<le> length m"
  shows "out i bs p =
    Inr (p\<lparr>p_buf := Some (take (p_offset p + i) m @ bs @ drop (p_offset p + i + length bs) m)\<rparr>)"
  using assms by (simp add: out_def pokes_Inr)

text \<open>Stores that step over what they wrote.\<close>

lemma put_out_outcome:
  assumes "usable p" and "length s \<le> n" and "length (s @ rest) \<le> n + 1"
  shows "outcome (\<lambda>q. appended p s q \<and> p_offset p + n + 1 \<le> p_length q \<and>
             (rest \<noteq> [] \<longrightarrow> the (p_buf q) ! p_offset q = hd rest))
           (\<not> can_hold p (p_offset p + n + 1)) p (put_out n (s @ rest) (length s) p)"
  unfolding put_out_def
proof (rule outcome_bind[OF ensure_outcome[OF assms(1), of n]])
  fix q assume q: "appended p [] q \<and> p_offset p + n + 1 \<le> p_length q"
  then obtain m where m: "p_buf q = Some m" "length m = p_length q"
    using usable_buf by (auto simp: appended_def)
  have o: "p_offset q = p_offset p" using q by (simp add: appended_def)
  define m' where "m' = take (p_offset q) m @ (s @ rest) @ drop (p_offset q + length (s @ rest)) m"
  have out: "out 0 (s @ rest) q = Inr (q\<lparr>p_buf := Some m'\<rparr>)"
    using out_Inr[OF m(1), of 0 "s @ rest"] q assms(3) m(2) o by (simp add: m'_def)
  have len: "length m' = p_length q" and "take (p_offset q + length s) m' = take (p_offset q) m @ s"
    using q assms(2,3) m(2) o by (simp_all add: m'_def)
  then have "appended p s (advance (length s) (q\<lparr>p_buf := Some m'\<rparr>))"
    using q m assms(2)
    by (auto simp: advance_def appended_def usable_def same_printer_def spare_def printed_def)
  moreover have "rest \<noteq> [] \<longrightarrow> m' ! (p_offset p + length s) = hd rest"
    using q assms(2,3) m(2) o by (simp add: m'_def nth_append hd_conv_nth min_def)
  moreover have "same_printer q (advance (length s) (q\<lparr>p_buf := Some m'\<rparr>))"
    using m len by (simp add: same_printer_def advance_def spare_def)
  ultimately show "outcome (\<lambda>q. appended p s q \<and> p_offset p + n + 1 \<le> p_length q \<and>
        (rest \<noteq> [] \<longrightarrow> the (p_buf q) ! p_offset q = hd rest)) (\<not> can_hold p (p_offset p + n + 1)) q
      (cbind (out 0 (s @ rest) q) (\<lambda>p2. Inr (True, advance (length s) p2)))"
    using q o by (simp add: outcome_def out advance_def)
qed simp

text \<open>Stores of a terminated text, which update\_offset steps over.\<close>

lemma ended_intro:
  assumes "appended p [] p1" and "p_offset p + length s + 2 \<le> p_length p1" and "length m' = p_length p1"
    and "take (p_offset p + length s + 1) m' = take (p_offset p) (the (p_buf p1)) @ s @ [0]"
    and "0 \<notin> set s"
  shows "ended p s (p1\<lparr>p_buf := Some m'\<rparr>)" and "same_printer p1 (p1\<lparr>p_buf := Some m'\<rparr>)"
proof -
  let ?o = "p_offset p"
  have o: "p_offset p1 = ?o" and u: "usable p1" using assms(1) by (auto simp: appended_def)
  then obtain m where m: "p_buf p1 = Some m" "length m = p_length p1" using usable_buf by blast
  define tail where "tail = drop (?o + length s + 1) m'"
  have m': "m' = take ?o m @ s @ [0] @ tail"
    using assms(4) append_take_drop_id[of "?o + length s + 1" m'] m(1) by (simp add: tail_def)
  have l: "length (take ?o m) = ?o" using assms(2) m(2) by simp
  have d: "drop ?o m' = s @ 0 # tail" and t: "take (?o + length s) m' = take ?o m @ s"
    and z: "m' ! (?o + length s) = 0"
    unfolding m' using l by (simp_all add: nth_append)
  have "update_offset (p1\<lparr>p_buf := Some m'\<rparr>) = Inr (p1\<lparr>p_buf := Some m', p_offset := ?o + length s\<rparr>)"
    using d assms(5) o by (simp add: update_offset_def c_strlen_def)
  moreover have "finished p s (p1\<lparr>p_buf := Some m', p_offset := ?o + length s\<rparr>)"
    using assms(1-3) m t z
    by (auto simp: finished_def appended_def usable_def same_printer_def spare_def printed_def)
  ultimately show "ended p s (p1\<lparr>p_buf := Some m'\<rparr>)" by (auto simp: ended_def)
  show "same_printer p1 (p1\<lparr>p_buf := Some m'\<rparr>)" using m assms(3) by simp
qed

lemma put_out_0: "put_out n bs 0 p = pbind (ensure n p) (\<lambda>p1. returning_true (out 0 bs p1))"
  by (simp add: put_out_def returning_true_def advance_def)

lemma store_outcome:
  assumes "usable p" and "length s < n" and "0 \<notin> set s"
  shows "outcome (ended p s) (\<not> can_hold p (p_offset p + n + 1)) p (put_out n (s @ [0]) 0 p)"
  unfolding put_out_0
proof (rule outcome_bind[OF ensure_outcome[OF assms(1), of n]])
  fix q assume q: "appended p [] q \<and> p_offset p + n + 1 \<le> p_length q"
  then obtain m where m: "p_buf q = Some m" "length m = p_length q"
    using usable_buf by (auto simp: appended_def)
  have o: "p_offset q = p_offset p" using q by (simp add: appended_def)
  define m' where "m' = take (p_offset q) m @ (s @ [0]) @ drop (p_offset q + length (s @ [0])) m"
  have out: "out 0 (s @ [0]) q = Inr (q\<lparr>p_buf := Some m'\<rparr>)"
    using out_Inr[OF m(1), of 0 "s @ [0]"] q assms(2) m(2) o by (simp add: m'_def)
  have "length m' = p_length q" "take (p_offset p + length s + 1) m' = take (p_offset p) m @ s @ [0]"
    using q assms(2) m(2) o by (auto simp: m'_def)
  then have "ended p s (q\<lparr>p_buf := Some m'\<rparr>)" "same_printer q (q\<lparr>p_buf := Some m'\<rparr>)"
    using ended_intro[of p q s m'] q assms(2,3) m(1) by simp_all
  then show "outcome (ended p s) (\<not> can_hold p (p_offset p + n + 1)) q (returning_true (out 0 (s @ [0]) q))"
    by (simp add: outcome_def returning_true_def out)
qed simp

section \<open>Strings\<close>

lemma plain_char: "31 < c \<longleftrightarrow> \<not> c < (32 :: u8)"
  by (auto simp: word_less_nat_alt)

lemma escaped_length: "length (escaped c) = 1 + escape_extra c"
  by (auto simp: escaped_def escape_extra_def short_escape_def fmt_u04x_def plain_char)

lemma hex_char_not_NUL: "n < 16 \<Longrightarrow> hex_char n \<noteq> 0"
  unfolding hex_char_def by (subst word_of_nat_eq_0_iff) (auto dest: dvd_imp_le)

lemma escaped_no_NUL: "c \<noteq> 0 \<Longrightarrow> 0 \<notin> set (escaped c)"
  using hex_char_not_NUL[of "unat c div 16"] hex_char_not_NUL[of "unat c mod 16"] unsigned_less[of c, where 'a = nat]
  by (auto simp: escaped_def short_escape_def fmt_u04x_def split: if_splits)

lemma concat_escaped_length:
  "length (concat (map escaped cs)) = length cs + sum_list (map escape_extra cs)"
  by (induction cs) (simp_all add: escaped_length)

lemma quoted_no_NUL: "0 \<notin> set (quoted vs)"
  using escaped_no_NUL cstr_NUL_free by (auto simp: quoted_def split: option.splits) metis

lemma no_escapes: "sum_list (map escape_extra cs) = 0 \<Longrightarrow> concat (map escaped cs) = cs"
  by (induction cs) (auto simp: escape_extra_def escaped_def plain_char simp del: sum_list_eq_0_iff split: if_splits)

text \<open>
  The copying loop writes the escaped characters; sprintf's terminators behind the \<open>\u\<close>
  sequences need one more byte than the text.
\<close>

lemma escape_loop_writes:
  assumes "p_buf p = Some m" and "p_offset p + i + length (concat (map escaped cs)) + 1 \<le> length m"
  shows "\<exists>m'. escape_loop cs i p = Inr (p\<lparr>p_buf := Some m'\<rparr>) \<and> length m' = length m \<and>
    take (p_offset p + i + length (concat (map escaped cs))) m' =
      take (p_offset p + i) m @ concat (map escaped cs)"
  using assms
proof (induction cs arbitrary: i p m)
  case Nil
  then show ?case by (intro exI[of _ m]) simp
next
  case (Cons c cs)
  let ?k = "length (escaped c)" and ?o = "p_offset p"
  have "\<exists>m1. escape_loop (c # cs) i p = escape_loop cs (i + ?k) (p\<lparr>p_buf := Some m1\<rparr>) \<and>
      length m1 = length m \<and> take (?o + i + ?k) m1 = take (?o + i) m @ escaped c"
  proof (cases "c > 31 \<and> c \<noteq> 34 \<and> c \<noteq> 92")
    case True
    then show ?thesis using Cons.prems by (auto simp: escaped_def out_Inr)
  next
    case False
    then have loop: "escape_loop (c # cs) i p = cbind (out i [92] p) (\<lambda>p1.
        case short_escape c of
          Some x \<Rightarrow> cbind (out (i + 1) [x] p1) (\<lambda>p2. escape_loop cs (i + 2) p2)
        | None \<Rightarrow> cbind (out (i + 1) (fmt_u04x c @ [0]) p1) (\<lambda>p2. escape_loop cs (i + 6) p2))"
      by (simp only: escape_loop.simps if_False)
    show ?thesis
    proof (cases "short_escape c")
      case None
      let ?m1 = "take (?o + i) m @ (92 # fmt_u04x c) @ 0 # drop (?o + i + 7) m"
      have k: "escaped c = 92 # fmt_u04x c" "length (fmt_u04x c) = 5"
        using False None by (auto simp: escaped_def fmt_u04x_def)
      then have "escape_loop (c # cs) i p = escape_loop cs (i + ?k) (p\<lparr>p_buf := Some ?m1\<rparr>)"
        using None Cons.prems unfolding loop by (simp add: out_Inr add.commute add.left_commute)
      then show ?thesis using k Cons.prems(2) by (intro exI[of _ ?m1]) simp
    next
      case (Some x)
      let ?m1 = "take (?o + i) m @ [92, x] @ drop (?o + i + 2) m"
      have k: "escaped c = [92, x]" using False Some by (auto simp: escaped_def)
      then have "escape_loop (c # cs) i p = escape_loop cs (i + ?k) (p\<lparr>p_buf := Some ?m1\<rparr>)"
        using Some Cons.prems unfolding loop by (simp add: out_Inr add.commute add.left_commute)
      then show ?thesis using k Cons.prems(2) by (intro exI[of _ ?m1]) simp
    qed
  qed
  then obtain m1 where m1: "escape_loop (c # cs) i p = escape_loop cs (i + ?k) (p\<lparr>p_buf := Some m1\<rparr>)"
    "length m1 = length m" "take (?o + i + ?k) m1 = take (?o + i) m @ escaped c" by blast
  have "\<exists>m'. escape_loop cs (i + ?k) (p\<lparr>p_buf := Some m1\<rparr>) = Inr (p\<lparr>p_buf := Some m'\<rparr>) \<and>
      length m' = length m1 \<and> take (?o + (i + ?k) + length (concat (map escaped cs))) m' =
        take (?o + (i + ?k)) m1 @ concat (map escaped cs)"
    using Cons.IH[of "p\<lparr>p_buf := Some m1\<rparr>" m1 "i + ?k"] Cons.prems(2) m1(2) by simp
  then show ?case using m1 by (auto simp: add.assoc)
qed

lemma print_empty_string_outcome:
  assumes "usable p"
  shows "outcome (ended p (quoted None)) (\<not> can_hold p (p_offset p + (length (quoted None) + 2))) p
           (print_string_ptr None p)"
proof -
  have n: "p_offset p + (length (quoted None) + 2) = p_offset p + 3 + 1"
    and code: "print_string_ptr None p = put_out 3 ([34, 34] @ [0]) 0 p" and q: "quoted None = [34, 34]"
    by (simp_all add: print_string_ptr_def quoted_def put_out_0)
  have "outcome (ended p [34, 34]) (\<not> can_hold p (p_offset p + 3 + 1)) p (put_out 3 ([34, 34] @ [0]) 0 p)"
    by (rule store_outcome[OF assms]) simp_all
  then have "outcome (ended p (quoted None)) (\<not> can_hold p (p_offset p + 3 + 1)) p (print_string_ptr None p)"
    by (simp only: code q)
  then show ?thesis by (simp only: n)
qed

text \<open>The string with escapes, once there is room for it: quote, escaped text, quote and NUL.\<close>

lemma escaped_string_written:
  assumes p1: "appended p [] p1" and room: "p_offset p + (n + 3) + 1 \<le> p_length p1"
    and n: "length (concat (map escaped (cstr s))) = n"
  shows "outcome (ended p (quoted (Some s))) c p1 (returning_true (cbind (out 0 [34] p1) (\<lambda>p2.
    cbind (escape_loop (cstr s) 1 p2) (\<lambda>p3. out (n + 1) [34, 0] p3))))"
proof -
  let ?cs = "cstr s" and ?e = "concat (map escaped (cstr s))" and ?o = "p_offset p"
  have q: "quoted (Some s) = 34 # ?e @ [34]" "length (quoted (Some s)) = n + 2" using n by (simp_all add: quoted_def)
  obtain m where m: "p_buf p1 = Some m" "length m = p_length p1"
    using usable_buf p1 by (auto simp: appended_def)
  have o: "p_offset p1 = ?o" using p1 by (simp add: appended_def)
  define m1 where "m1 = take ?o m @ [34] @ drop (?o + 1) m"
  have m1: "out 0 [34] p1 = Inr (p1\<lparr>p_buf := Some m1\<rparr>)" "length m1 = length m"
    "take (?o + 1) m1 = take ?o m @ [34]"
    using out_Inr[OF m(1), of 0 "[34]"] room m(2) o by (simp_all add: m1_def)
  obtain m2 where m2: "escape_loop ?cs 1 (p1\<lparr>p_buf := Some m1\<rparr>) = Inr (p1\<lparr>p_buf := Some m2\<rparr>)"
    "length m2 = length m" "take (?o + 1 + n) m2 = take (?o + 1) m1 @ ?e"
    using escape_loop_writes[of "p1\<lparr>p_buf := Some m1\<rparr>" m1 1 ?cs] room m(2) m1(2) o n by auto
  define m3 where "m3 = take (?o + (n + 1)) m2 @ [34, 0] @ drop (?o + (n + 1) + 2) m2"
  have m3: "out (n + 1) [34, 0] (p1\<lparr>p_buf := Some m2\<rparr>) = Inr (p1\<lparr>p_buf := Some m3\<rparr>)"
    using out_Inr[of "p1\<lparr>p_buf := Some m2\<rparr>" m2 "n + 1" "[34, 0]"] room m(2) m2(2) o by (simp add: m3_def)
  have "m3 = (take ?o m @ quoted (Some s) @ [0]) @ drop (?o + (n + 1) + 2) m2"
    using m2(3) m1(3) by (simp add: m3_def q add.commute[of 1 n] add.assoc)
  moreover have "length (take ?o m @ quoted (Some s) @ [0]) = ?o + (n + 2) + 1" using room m(2) by (simp add: q(2))
  ultimately have "take (?o + (n + 2) + 1) m3 = take ?o m @ quoted (Some s) @ [0]"
    by (metis append_eq_conv_conj)
  moreover have "length m3 = p_length p1" using room m(2) m2(2) by (simp add: m3_def)
  ultimately have "ended p (quoted (Some s)) (p1\<lparr>p_buf := Some m3\<rparr>)" "same_printer p1 (p1\<lparr>p_buf := Some m3\<rparr>)"
    using ended_intro[of p p1 "quoted (Some s)" m3] p1 room m(1) q(2) quoted_no_NUL[of "Some s"] by simp_all
  then show ?thesis by (simp add: m1(1) m2(1) m3 returning_true_def outcome_def del: One_nat_def)
qed

lemma print_string_outcome:
  assumes "usable p"
  shows "outcome (ended p (quoted vs)) (\<not> can_hold p (p_offset p + (length (quoted vs) + 2))) p
           (print_string_ptr vs p)"
proof (cases vs)
  case None
  show ?thesis unfolding None by (rule print_empty_string_outcome[OF assms])
next
  case (Some s)
  let ?cs = "cstr s"
  define n where "n = length ?cs + sum_list (map escape_extra ?cs)"
  have n: "length (concat (map escaped ?cs)) = n" by (simp add: n_def concat_escaped_length)
  have q: "quoted vs = 34 # concat (map escaped ?cs) @ [34]" "length (quoted vs) = n + 2"
    using n by (simp_all add: quoted_def Some)
  have e: "p_offset p + (length (quoted vs) + 2) = p_offset p + (n + 3) + 1" using q(2) by linarith
  show ?thesis
  proof (cases "sum_list (map escape_extra ?cs) = 0")
    case True
    have code: "print_string_ptr vs p = put_out (n + 3) (quoted vs @ [0]) 0 p"
      using True by (simp add: print_string_ptr_def Some Let_def n_def q(1)[unfolded Some] no_escapes put_out_0)
    show ?thesis unfolding e code
      by (rule store_outcome[OF assms]) (simp_all add: q(2) quoted_no_NUL)
  next
    case False
    have code: "print_string_ptr vs p = pbind (ensure (n + 3) p) (\<lambda>p1.
        returning_true (cbind (out 0 [34] p1) (\<lambda>p2. cbind (escape_loop ?cs 1 p2) (\<lambda>p3.
          out (n + 1) [34, 0] p3))))"
      unfolding print_string_ptr_def Some option.case Let_def if_not_P[OF False] n_def ..
    show ?thesis unfolding code
      by (rule outcome_bind[OF ensure_outcome[OF assms, of "n + 3"]])
        (use escaped_string_written n in \<open>simp_all only: e[unfolded Some] Some not_False_eq_True\<close>)
  qed
qed

section \<open>Values\<close>

definition unwanted :: "printbuffer \<Rightarrow> bytes option \<Rightarrow> bool" where
  "unwanted p t \<longleftrightarrow> (\<forall>s. t = Some s \<longrightarrow> \<not> can_hold p (p_offset p + (length s + 2)))"

text \<open>A value: printed with its terminator.  A list of values: printed, and stepped over.\<close>

abbreviation prints_value ::
    "printbuffer \<Rightarrow> bytes option \<Rightarrow> (bool \<times> printbuffer) cres \<Rightarrow> bool" where
  "prints_value p t r \<equiv> outcome (\<lambda>q. \<exists>s. t = Some s \<and> ended p s q) (unwanted p t) p r"

abbreviation prints_list ::
    "printbuffer \<Rightarrow> bytes option \<Rightarrow> (bool \<times> printbuffer) cres \<Rightarrow> bool" where
  "prints_list p t r \<equiv> outcome (\<lambda>q. \<exists>s. t = Some s \<and> appended p s q) (unwanted p t) p r"

lemma unwanted_None [simp]: "unwanted p None"
  by (simp add: unwanted_def)

lemma unwanted_Some: "unwanted p (Some s) \<longleftrightarrow> \<not> can_hold p (p_offset p + (length s + 2))"
  by (simp add: unwanted_def)

lemma not_can_hold:
  "appended p s q \<Longrightarrow> \<not> can_hold q n \<Longrightarrow> n \<le> k \<Longrightarrow> \<not> can_hold p k"
  using can_hold_appended can_hold_mono by blast

lemma unwanted_after:
  assumes "appended p a q" and "unwanted q t" and "\<And>x. u = Some x \<Longrightarrow> \<exists>s. t = Some s \<and> length a + length s \<le> length x"
  shows "unwanted p u"
  unfolding unwanted_def
proof (intro allI impI)
  fix x assume "u = Some x"
  then obtain s where s: "t = Some s" "length a + length s \<le> length x" using assms(3) by blast
  then have no: "\<not> can_hold q (p_offset q + (length s + 2))" using assms(2) by (simp add: unwanted_def)
  have "p_offset q = p_offset p + length a" using assms(1) by (simp add: appended_def)
  then show "\<not> can_hold p (p_offset p + (length x + 2))"
    using s(2) by (intro not_can_hold[OF assms(1) no]) linarith
qed

lemma finished_appended: "finished p s q \<Longrightarrow> appended p s q"
  by (simp add: finished_def)

lemma ended_update:
  assumes "ended p s p'"
  obtains q where "update_offset p' = Inr q" and "same_printer p' q" and "finished p s q"
proof -
  obtain q where q: "update_offset p' = Inr q" "finished p s q" using assms by (auto simp: ended_def)
  then have "same_printer p' q"
    by (auto simp: update_offset_def cres_simps same_printer_def spare_def split: option.splits)
  then show thesis using that q by blast
qed

lemma print_number_outcome:
  assumes "usable p" and "item_ok item"
  shows "prints_value p (number_text item) (print_number item p)"
proof -
  obtain s where s: "number_chars item = Inr s" using number_chars_safe[OF assms(2)] by blast
  have t: "number_text item = Some s" by (simp add: number_text_def s)
  have e: "ended p s q"
    if q: "appended p s q \<and> p_offset p + (length s + 1) + 1 \<le> p_length q \<and>
      ([0 :: u8] \<noteq> [] \<longrightarrow> the (p_buf q) ! p_offset q = hd [0])" for q
  proof -
    obtain m where m: "p_buf q = Some m" "length m = p_length q"
      using q usable_buf[of q] by (auto simp: appended_def)
    have o: "p_offset q = p_offset p + length s" using q by (simp add: appended_def)
    have "drop (p_offset q) m = 0 # drop (Suc (p_offset q)) m"
      using q m o by (simp add: Cons_nth_drop_Suc[symmetric])
    then have "update_offset q = Inr q" by (simp add: update_offset_def m c_strlen_def cstr_def)
    then show ?thesis using q o by (simp add: ended_def finished_def)
  qed
  have "print_number item p = put_out (length s + 1) (s @ [0]) (length s) p"
    by (simp add: print_number_def s put_out_def advance_def)
  then show ?thesis
    using outcome_weaken[OF put_out_outcome[OF assms(1), of s "length s + 1" "[0]"], of "\<lambda>q. \<exists>x. number_text item = Some x \<and> ended p x q"
        "unwanted p (number_text item)"] e
    by (simp add: t unwanted_Some)
qed

text \<open>The elements of an array and the members of an object, given that each of them prints.\<close>

definition prints_well :: "cJSON \<Rightarrow> bool" where
  "prints_well x \<longleftrightarrow>
     (\<forall>p. usable p \<longrightarrow> prints_value p (text_of (p_format p) (p_depth p) x) (print_value x p))"

lemma appended_same:
  "appended p s q \<Longrightarrow> p_format q = p_format p \<and> p_depth q = p_depth p \<and> usable q \<and> p_offset q = p_offset p + length s"
  by (simp add: appended_def same_printer_def)

lemma put_list_outcome:
  assumes "usable p" and "length s \<le> n" and "length (s @ rest) \<le> n + 1"
    and "\<And>x. t = Some x \<Longrightarrow> n + 1 \<le> length x + 2"
  shows "outcome (appended p s) (unwanted p t) p (put_out n (s @ rest) (length s) p)"
proof (rule outcome_weaken[OF put_out_outcome[OF assms(1-3)]])
  assume "\<not> can_hold p (p_offset p + n + 1)"
  then show "unwanted p t"
    using assms(4) unfolding unwanted_def by (metis add.assoc add_le_cancel_left can_hold_mono)
qed simp

text \<open>Continuing behind a text that has been printed.\<close>

lemma ended_after: "appended p a q \<Longrightarrow> ended q s r \<Longrightarrow> ended p (a @ s) r"
  by (auto simp: ended_def finished_def elim: appended_trans)

lemma list_after:
  assumes "appended p a q" and "u = map_option ((@) a) t" and "prints_list q t r"
  shows "outcome (\<lambda>q'. \<exists>s. u = Some s \<and> appended p s q') (unwanted p u) q r"
proof (rule outcome_weaken[OF assms(3)])
  fix q' assume "\<exists>s. t = Some s \<and> appended q s q'"
  then show "\<exists>s. u = Some s \<and> appended p s q'" using assms(1,2) appended_trans by auto
next
  assume "unwanted q t"
  then show "unwanted p u" by (rule unwanted_after[OF assms(1)]) (auto simp: assms(2))
qed

lemma value_after:
  assumes "appended p a q" and "prints_value q t r" and "\<And>x. u = Some x \<Longrightarrow> \<exists>s. t = Some s \<and> length a + length s \<le> length x"
    and "\<And>s q'. t = Some s \<Longrightarrow> ended p (a @ s) q' \<Longrightarrow> outcome P (unwanted p u) q' (f q')"
  shows "outcome P (unwanted p u) q (pbind r f)"
proof (rule outcome_bind[OF assms(2)])
  assume "unwanted q t"
  then show "unwanted p u" by (rule unwanted_after[OF assms(1) _ assms(3)])
next
  fix q' assume "\<exists>s. t = Some s \<and> ended q s q'"
  then show "outcome P (unwanted p u) q' (f q')" using assms(4) ended_after[OF assms(1)] by blast
qed

lemma update_after:
  assumes "ended p s q" and "\<And>q'. appended p s q' \<Longrightarrow> outcome P F q' (f q')"
  shows "outcome P F q (cbind (update_offset q) f)"
proof -
  obtain q' where q': "update_offset q = Inr q'" "same_printer q q'" "finished p s q'"
    using ended_update[OF assms(1)] .
  show ?thesis
    by (rule outcome_update[OF q'(1,2)]) (rule assms(2)[OF finished_appended[OF q'(3)]])
qed

lemma put_after:
  assumes "appended p a q" and "length s \<le> n" and "length (s @ rest) \<le> n + 1"
    and "\<And>x. u = Some x \<Longrightarrow> length a + n \<le> length x + 1"
    and "\<And>q'. appended p (a @ s) q' \<Longrightarrow> outcome P (unwanted p u) q' (f q')"
  shows "outcome P (unwanted p u) q (pbind (put_out n (s @ rest) (length s) q) f)"
proof -
  have u: "usable q" and o: "p_offset q = p_offset p + length a" using appended_same[OF assms(1)] by auto
  show ?thesis
  proof (rule outcome_bind[OF put_out_outcome[OF u assms(2,3)]])
    assume no: "\<not> can_hold q (p_offset q + n + 1)"
    show "unwanted p u" unfolding unwanted_def
    proof (intro allI impI)
      fix x assume "u = Some x"
      then have "p_offset q + n + 1 \<le> p_offset p + (length x + 2)" using assms(4)[of x] o by linarith
      then show "\<not> can_hold p (p_offset p + (length x + 2))" by (rule not_can_hold[OF assms(1) no])
    qed
  next
    fix q' assume "appended q s q' \<and> p_offset q + n + 1 \<le> p_length q' \<and>
        (rest \<noteq> [] \<longrightarrow> the (p_buf q') ! p_offset q' = hd rest)"
    then show "outcome P (unwanted p u) q' (f q')" using assms(5) appended_trans[OF assms(1)] by blast
  qed
qed

lemma print_elements_outcome:
  assumes "\<forall>x \<in> set xs. prints_well x" and "usable p"
  shows "prints_list p (texts_of (p_format p) (p_depth p) xs) (print_elements xs p)"
  using assms
proof (induction xs arbitrary: p)
  case Nil
  then show ?case by (simp add: outcome_return appended_Nil)
next
  case (Cons x xs)
  let ?f = "p_format p" and ?d = "p_depth p"
  let ?t = "texts_of ?f ?d (x # xs)" and ?r = "texts_of ?f ?d xs"
  define c where "c = (if xs \<noteq> [] then sep ?f [44] [32] else [])"
  have head: "prints_value p (text_of ?f ?d x) (print_value x p)"
    using Cons.prems by (simp add: prints_well_def)
  show ?case unfolding print_elements.simps
  proof (rule value_after[OF appended_Nil[OF Cons.prems(2)] head])
    fix a p1 assume a: "text_of ?f ?d x = Some a" "ended p ([] @ a) p1"
    have t: "?t = map_option ((@) (a @ c)) ?r" by (simp add: a c_def split: option.split)
    have tail: "outcome (\<lambda>q. \<exists>s. ?t = Some s \<and> appended p s q) (unwanted p ?t) p3 (print_elements xs p3)"
      if p3: "appended p (a @ c) p3" for p3
      by (rule list_after[OF p3 t]) (use Cons.IH[of p3] Cons.prems(1) appended_same[OF p3] in simp)
    show "outcome (\<lambda>q. \<exists>s. ?t = Some s \<and> appended p s q) (unwanted p ?t) p1
        (cbind (update_offset p1) (\<lambda>p2.
           if xs \<noteq> [] then
             let len = (if p_format p2 then 2 else 1) in
             pbind (put_out (len + 1) (sep (p_format p2) [44] [32] @ [0]) len p2) (print_elements xs)
           else print_elements xs p2))"
    proof (rule update_after[OF a(2)])
      fix p2 assume p2: "appended p ([] @ a) p2"
      show "outcome (\<lambda>q. \<exists>s. ?t = Some s \<and> appended p s q) (unwanted p ?t) p2
        (if xs \<noteq> [] then
           let len = (if p_format p2 then 2 else 1) in
           pbind (put_out (len + 1) (sep (p_format p2) [44] [32] @ [0]) len p2) (print_elements xs)
         else print_elements xs p2)"
      proof (cases "xs = []")
        case False
        have len: "length c = (if p_format p2 then 2 else 1)" "sep (p_format p2) [44] [32] = c"
          using appended_same[OF p2] False by (simp_all add: c_def sep_def)
        have "outcome (\<lambda>q. \<exists>s. ?t = Some s \<and> appended p s q) (unwanted p ?t) p2
           (pbind (put_out (length c + 1) (c @ [0]) (length c) p2) (print_elements xs))"
          by (rule put_after[OF p2]) (use tail t in \<open>auto simp: map_option_case split: option.splits\<close>)
        then show ?thesis using False unfolding Let_def len(1)[symmetric] len(2) by simp
      qed (use tail[of p2] p2 in \<open>simp add: c_def\<close>)
    qed
  qed (use Cons.prems(2) in \<open>auto split: option.splits\<close>)
qed

lemma string_after:
  assumes "appended p a q" and "\<And>x. u = Some x \<Longrightarrow> length a + length (quoted vs) \<le> length x"
    and "\<And>q'. appended p (a @ quoted vs) q' \<Longrightarrow> outcome P (unwanted p u) q' (f q')"
  shows "outcome P (unwanted p u) q (pbind (print_string_ptr vs q) (\<lambda>q1. cbind (update_offset q1) f))"
proof -
  have v: "prints_value q (Some (quoted vs)) (print_string_ptr vs q)"
    using print_string_outcome[of q vs] appended_same[OF assms(1)]
    by (auto elim!: outcome_weaken simp: unwanted_Some)
  show ?thesis
  proof (rule value_after[OF assms(1) v])
    fix s q' assume "Some (quoted vs) = Some s" "ended p (a @ s) q'"
    then show "outcome P (unwanted p u) q' (cbind (update_offset q') f)"
      using assms(3) by (auto intro: update_after)
  qed (use assms(2) in auto)
qed

lemma print_members_outcome:
  assumes "\<forall>x \<in> set xs. prints_well x" and "usable p"
  shows "prints_list p (members_of (p_format p) (p_depth p) xs) (print_members xs p)"
  using assms
proof (induction xs arbitrary: p)
  case Nil
  then show ?case by (simp add: outcome_return appended_Nil)
next
  case (Cons x xs)
  let ?f = "p_format p" and ?d = "p_depth p"
  let ?u = "members_of ?f ?d (x # xs)" and ?r = "members_of ?f ?d xs"
  let ?Out = "outcome (\<lambda>q. \<exists>s. ?u = Some s \<and> appended p s q) (unwanted p ?u)"
  define k where "k = tabs ?f ?d @ quoted (c_string x) @ sep ?f [58] [9]"
  define e where "e = after_member ?f (xs \<noteq> [])"
  have u: "\<exists>a b. text_of ?f ?d x = Some a \<and> ?r = Some b \<and> y = k @ a @ e @ b" if "?u = Some y" for y
    using that by (auto simp: k_def e_def split: option.splits)
  define more where "more p6 =
     (let len2 = (if p_format p6 then 1 else 0) + (if xs \<noteq> [] then 1 else 0) in
      pbind (put_out (len2 + 1) ((if xs \<noteq> [] then [44] else []) @ (if p_format p6 then [10] else []) @ [0]) len2 p6)
        (print_members xs))" for p6
  have more: "?Out p6 (more p6)" if a: "text_of ?f ?d x = Some a" and p6: "appended p (k @ a) p6" for a p6
  proof -
    have len: "(if p_format p6 then 1 else 0) + (if xs \<noteq> [] then 1 else 0) = length e"
      and bs: "(if xs \<noteq> [] then [44] else []) @ (if p_format p6 then [10] else []) @ [0] = e @ [0]"
      using appended_same[OF p6] by (auto simp: e_def after_member_def)
    have t: "?u = map_option ((@) ((k @ a) @ e)) ?r" by (simp add: a k_def e_def split: option.split)
    have tail: "?Out p7 (print_members xs p7)" if p7: "appended p ((k @ a) @ e) p7" for p7
      by (rule list_after[OF p7 t]) (use Cons.IH[of p7] Cons.prems(1) appended_same[OF p7] in simp)
    show ?thesis unfolding more_def Let_def len bs
      by (rule put_after[OF p6 _ _ _ tail]) (use t in \<open>auto simp: map_option_case split: option.splits\<close>)
  qed
  have val: "?Out p4 (pbind (print_value x p4) (\<lambda>p5. cbind (update_offset p5) more))" if p4: "appended p k p4" for p4
  proof (rule value_after[OF p4, where t = "text_of ?f ?d x"])
    show "prints_value p4 (text_of ?f ?d x) (print_value x p4)"
      using Cons.prems(1) appended_same[OF p4] by (auto simp: prints_well_def)
    show "\<exists>s. text_of ?f ?d x = Some s \<and> length k + length s \<le> length y" if "?u = Some y" for y
      using u[OF that] by auto
    show "?Out q' (cbind (update_offset q') more)" if "text_of ?f ?d x = Some s" "ended p (k @ s) q'" for s q'
      using more[OF that(1)] by (rule update_after[OF that(2)])
  qed
  have colon: "?Out p3 (let len = (if p_format p3 then 2 else 1) in
      pbind (put_out len (sep (p_format p3) [58] [9]) len p3)
        (\<lambda>p4. pbind (print_value x p4) (\<lambda>p5. cbind (update_offset p5) more)))"
    if p3: "appended p (tabs ?f ?d @ quoted (c_string x)) p3" for p3
  proof -
    let ?c = "sep ?f [58] [9]"
    have c: "sep (p_format p3) [58] [9] = ?c" "(if p_format p3 then 2 else 1) = length ?c"
      using appended_same[OF p3] by (simp_all add: sep_def)
    have "?Out p3 (pbind (put_out (length ?c) (?c @ []) (length ?c) p3)
        (\<lambda>p4. pbind (print_value x p4) (\<lambda>p5. cbind (update_offset p5) more)))"
      by (rule put_after[OF p3]) (use u val in \<open>auto simp: k_def\<close>)
    then show ?thesis unfolding Let_def c by simp
  qed
  have key: "?Out p1 (pbind (print_string_ptr (c_string x) p1) (\<lambda>p2. cbind (update_offset p2) (\<lambda>p3.
      let len = (if p_format p3 then 2 else 1) in
      pbind (put_out len (sep (p_format p3) [58] [9]) len p3)
        (\<lambda>p4. pbind (print_value x p4) (\<lambda>p5. cbind (update_offset p5) more)))))"
    if p1: "appended p (tabs ?f ?d) p1" for p1
    by (rule string_after[OF p1 _ colon]) (use u in \<open>auto simp: k_def\<close>)
  have "?Out p (pbind (put_out (length (tabs ?f ?d)) (tabs ?f ?d @ []) (length (tabs ?f ?d)) p)
     (\<lambda>p1. pbind (print_string_ptr (c_string x) p1) (\<lambda>p2. cbind (update_offset p2) (\<lambda>p3.
      let len = (if p_format p3 then 2 else 1) in
      pbind (put_out len (sep (p_format p3) [58] [9]) len p3)
        (\<lambda>p4. pbind (print_value x p4) (\<lambda>p5. cbind (update_offset p5) more))))))"
    if ?f
    by (rule put_after[OF appended_Nil[OF Cons.prems(2)] _ _ _ key]) (use u in \<open>auto simp: k_def\<close>)
  then show ?case
    using key[of p] appended_Nil[OF Cons.prems(2)]
    unfolding print_members.simps more_def Let_def by (cases ?f) (simp_all add: tabs_def pbind_def)
qed

lemma store_value:
  assumes "usable p" and "0 \<notin> set s"
  shows "prints_value p (Some s) (put_out (length s + 1) (s @ [0]) 0 p)"
proof (rule outcome_weaken[OF store_outcome[OF assms(1) _ assms(2), of "length s + 1"]])
  assume "\<not> can_hold p (p_offset p + (length s + 1) + 1)"
  then show "unwanted p (Some s)" by (simp add: unwanted_Some)
qed simp_all

lemma usable_deeper [simp]: "usable (deeper p) = usable p" "p_format (deeper p) = p_format p"
  "p_depth (deeper p) = p_depth p + 1" "p_offset (deeper p) = p_offset p"
  by (simp_all add: deeper_def usable_def)

lemma appended_deeper:
  "appended p s p1 \<Longrightarrow> appended (deeper p1) t p2 \<Longrightarrow> appended (deeper p) (s @ t) p2"
  by (auto simp: appended_def deeper_def same_printer_def spare_def printed_def)

lemma ended_shallower:
  assumes "ended (deeper p) s q"
  shows "ended p s (shallower q)" and "same_printer q (shallower q)"
proof -
  obtain r where r: "update_offset q = Inr r" "finished (deeper p) s r" using assms by (auto simp: ended_def)
  have "update_offset (shallower q) = Inr (shallower r)"
    using r(1) by (auto simp: update_offset_def shallower_def cres_simps split: option.splits)
  moreover have "finished p s (shallower r)"
    using r(2) by (auto simp: finished_def shallower_def deeper_def appended_def usable_def same_printer_def
      spare_def printed_def)
  ultimately show "ended p s (shallower q)" by (auto simp: ended_def)
  show "same_printer q (shallower q)" by (simp add: same_printer_def shallower_def spare_def)
qed

text \<open>An array or object: the opening, the list one level deeper, the closing.\<close>

lemma container_outcome:
  assumes "usable p" and "length a \<le> n" and "length (a @ rest) \<le> n + 1" and "n \<le> length a + 1"
    and "\<And>p1. appended p a p1 \<Longrightarrow> prints_list (deeper p1) t (list (deeper p1))"
    and "\<And>p2. p_format p2 = p_format p \<Longrightarrow> p_depth p2 = p_depth p + 1 \<Longrightarrow>
           usable p2 \<Longrightarrow> prints_value p2 (Some z) (close p2)"
    and "z \<noteq> []" and "u = map_option (\<lambda>x. a @ x @ z) t"
  shows "prints_value p u (pbind (put_out n (a @ rest) (length a) p) (\<lambda>p1.
     pbind (list (deeper p1)) (\<lambda>p2. pbind (close p2) (\<lambda>p3. Inr (True, shallower p3)))))"
proof (rule put_after[OF appended_Nil[OF assms(1)] assms(2,3)])
  show "length [] + n \<le> length x + 1" if "u = Some x" for x
    using that assms(4,7,8) by (cases t) (auto simp: Suc_le_eq)
next
  fix p1 assume p1: "appended p ([] @ a) p1"
  show "outcome (\<lambda>q. \<exists>s. u = Some s \<and> ended p s q) (unwanted p u) p1
    (pbind (list (deeper p1)) (\<lambda>p2. pbind (close p2) (\<lambda>p3. Inr (True, shallower p3))))"
  proof (rule outcome_trans[of _ "deeper p1"], simp add: same_printer_def deeper_def spare_def,
      rule outcome_bind[OF assms(5)])
    show "appended p a p1" using p1 by simp
  next
    assume "unwanted (deeper p1) t"
    then have "unwanted p1 t" by (simp add: unwanted_def can_hold_def deeper_def)
    then show "unwanted p u"
      by (rule unwanted_after[OF p1]) (auto simp: assms(8))
  next
    fix p2 assume "\<exists>s. t = Some s \<and> appended (deeper p1) s p2"
    then obtain s where s: "t = Some s" "appended (deeper p1) s p2" by blast
    have p2: "appended (deeper p) (a @ s) p2" using appended_deeper[OF _ s(2), of p a] p1 by simp
    show "outcome (\<lambda>q. \<exists>s. u = Some s \<and> ended p s q) (unwanted p u) p2
        (pbind (close p2) (\<lambda>p3. Inr (True, shallower p3)))"
    proof (rule outcome_bind[OF assms(6)])
      assume "unwanted p2 (Some z)"
      then have "unwanted (deeper p) u"
        by (rule unwanted_after[OF p2]) (auto simp: assms(8) s(1))
      then show "unwanted p u" by (simp add: unwanted_def can_hold_def deeper_def)
    next
      fix p3 assume "\<exists>y. Some z = Some y \<and> ended p2 y p3"
      then have "ended p ((a @ s) @ z) (shallower p3)" "same_printer p3 (shallower p3)"
        using ended_shallower[OF ended_after[OF p2]] by auto
      then show "outcome (\<lambda>q. \<exists>s. u = Some s \<and> ended p s q) (unwanted p u) p3 (Inr (True, shallower p3))"
        by (simp add: outcome_def assms(8) s(1))
    qed (use appended_same[OF p2] in auto)
  qed
qed

lemma prints_if:
  "prints_value p a r \<Longrightarrow> prints_value p b r' \<Longrightarrow> prints_value p (if c then a else b) (if c then r else r')"
  by simp

text \<open>print\_value prints the text of the item.\<close>

lemma print_array_outcome:
  assumes ch: "\<forall>c \<in> set ch. prints_well c" and p: "usable p"
  shows "prints_value p (map_option (\<lambda>x. [91] @ x @ [93]) (texts_of (p_format p) (p_depth p + 1) ch)) (print_array ch p)"
proof -
  let ?f = "p_format p" and ?d = "p_depth p"
  have two: "put_out 1 [91] 1 q = put_out 1 ([91] @ []) (length [91 :: u8]) q"
    "put_out 2 [93, 0] 0 q = put_out (length [93 :: u8] + 1) ([93] @ [0]) 0 q" for q
    by (simp_all add: numeral_2_eq_2)
  show ?thesis unfolding print_array.simps two
  proof (rule container_outcome[OF p, where t = "texts_of ?f (?d + 1) ch"])
    show "prints_list (deeper p1) (texts_of ?f (?d + 1) ch) (print_elements ch (deeper p1))"
      if "appended p [91] p1" for p1
      using print_elements_outcome[OF ch, of "deeper p1"] appended_same[OF that] by simp
    show "prints_value p2 (Some [93]) (put_out (length [93 :: u8] + 1) ([93] @ [0]) 0 p2)"
      if "usable p2" for p2
      by (rule store_value[OF that]) simp
  qed simp_all
qed

lemma print_object_outcome:
  assumes ch: "\<forall>c \<in> set ch. prints_well c" and p: "usable p"
  shows "prints_value p
    (map_option (\<lambda>x. sep (p_format p) [123] [10] @ x @ tabs (p_format p) (p_depth p) @ [125])
      (members_of (p_format p) (p_depth p + 1) ch)) (print_object ch p)"
proof -
  let ?f = "p_format p" and ?d = "p_depth p"
  let ?opn = "sep ?f [123] [10]" and ?cls = "tabs ?f ?d @ [125]"
  have len: "(if ?f then 2 else 1) = length ?opn" by (simp add: sep_def)
  have "prints_value p (map_option (\<lambda>x. ?opn @ x @ ?cls) (members_of ?f (?d + 1) ch))
      (pbind (put_out (length ?opn + 1) (?opn @ []) (length ?opn) p) (\<lambda>p1.
       pbind (print_members ch (deeper p1)) (\<lambda>p2.
       pbind (put_out (if p_format p2 then p_depth p2 + 1 else 2)
                ((if p_format p2 then replicate (p_depth p2 - 1) 9 else []) @ [125, 0]) 0 p2) (\<lambda>p3.
       Inr (True, shallower p3)))))"
  proof (rule container_outcome[OF p, where t = "members_of ?f (?d + 1) ch"])
    show "prints_list (deeper p1) (members_of ?f (?d + 1) ch) (print_members ch (deeper p1))"
      if "appended p ?opn p1" for p1
      using print_members_outcome[OF ch, of "deeper p1"] appended_same[OF that] by simp
    show "prints_value p2 (Some ?cls) (put_out (if p_format p2 then p_depth p2 + 1 else 2)
                ((if p_format p2 then replicate (p_depth p2 - 1) 9 else []) @ [125, 0]) 0 p2)"
      if p2: "p_format p2 = ?f" "p_depth p2 = ?d + 1" "usable p2" for p2
    proof -
      have e: "(if p_format p2 then p_depth p2 + 1 else 2) = length ?cls + 1"
        "(if p_format p2 then replicate (p_depth p2 - 1) 9 else []) @ [125, 0] = ?cls @ [0]"
        using p2(1,2) by (simp_all add: tabs_def)
      show ?thesis unfolding e by (rule store_value[OF p2(3)]) (simp add: tabs_def)
    qed
  qed simp_all
  then show ?thesis unfolding print_object.simps Let_def len append_Nil2 .
qed

lemma print_literal_outcome:
  assumes "usable p" and "n = length t + 1" and "0 \<notin> set t"
  shows "prints_value p (Some t) (put_out n (t @ [0]) 0 p)"
  unfolding assms(2) by (rule store_value[OF assms(1,3)])

lemma print_value_outcome: "item_ok x \<Longrightarrow> prints_well x"
proof (induction x)
  case (Item t vs vi vd s ch)
  let ?x = "Item t vs vi vd s ch"
  have ch: "\<forall>c \<in> set ch. prints_well c" using Item by auto
  show ?case unfolding prints_well_def
  proof (intro allI impI)
    fix p assume p: "usable p"
    let ?f = "p_format p" and ?d = "p_depth p"
    note containers = print_array_outcome[OF ch p] print_object_outcome[OF ch p]
    have str: "prints_value p (Some (quoted vs)) (print_string_ptr vs p)"
      by (rule outcome_weaken[OF print_string_outcome[OF p, of vs]]) (simp_all add: unwanted_Some)
    have raw: "prints_value p (map_option cstr vs) (case vs of None \<Rightarrow> Inr (False, p)
        | Some r \<Rightarrow> put_out (length (cstr r) + 1) (cstr r @ [0]) 0 p)"
      using store_value[OF p cstr_NUL_free] by (cases vs) (simp_all add: outcome_def)
    have lits: "prints_value p (Some (lit ''null'')) (put_out 5 (lit ''null'' @ [0]) 0 p)"
      "prints_value p (Some (lit ''false'')) (put_out 6 (lit ''false'' @ [0]) 0 p)"
      "prints_value p (Some (lit ''true'')) (put_out 5 (lit ''true'' @ [0]) 0 p)"
      by (rule print_literal_outcome[OF p]; simp)+
    have fail: "prints_value p None (Inr (False, p))" by (simp add: outcome_def)
    show "prints_value p (text_of ?f ?d ?x) (print_value ?x p)"
      unfolding text_of.simps print_value.simps Let_def
      by (intro prints_if lits print_number_outcome[OF p Item.prems] raw str fail containers)
  qed
qed

section \<open>The entry points\<close>

lemma new_printbuffer_sel [simp]:
  "p_buf (new_printbuffer n na fmt rea fill m h) = Some m"
  "p_length (new_printbuffer n na fmt rea fill m h) = n"
  "p_offset (new_printbuffer n na fmt rea fill m h) = 0"
  "p_depth (new_printbuffer n na fmt rea fill m h) = 0"
  "p_noalloc (new_printbuffer n na fmt rea fill m h) = na"
  "p_format (new_printbuffer n na fmt rea fill m h) = fmt"
  "p_realloc (new_printbuffer n na fmt rea fill m h) = rea"
  "p_heap (new_printbuffer n na fmt rea fill m h) = h"
  by (simp_all add: new_printbuffer_def)

text \<open>
  The result of printing an item into a fresh buffer: on success the buffer starts with the
  text and its terminator.
\<close>

lemma print_item_spec:
  assumes "item_ok v" and "length m = n" and "int n \<le> INT_MAX" and "0 < n \<or> rea \<or> na"
    and p_def: "p = new_printbuffer n na fmt rea fill m h"
  obtains (succeeded) s q m' where "print_item (Some v) p = Inr (True, q)" and "same_printer p q"
      and "text_of fmt 0 v = Some s" and "p_buf q = Some m'" and "length s + 2 \<le> length m'"
      and "length m' = p_length q" and "take (length s + 1) m' = s @ [0]"
      and "update_offset q = Inr (q\<lparr>p_offset := length s\<rparr>)"
  | (failed) q where "print_item (Some v) p = Inr (False, q)" and "same_printer p q"
      and "\<forall>s. text_of fmt 0 v = Some s \<longrightarrow> \<not> can_hold p (length s + 2)"
proof -
  have "usable p" using assms(2-4) by (auto simp: usable_def p_def)
  then have "prints_value p (text_of fmt 0 v) (print_item (Some v) p)"
    using print_value_outcome[OF assms(1)] by (auto simp: prints_well_def print_item_def p_def)
  then consider (t) q s where "print_item (Some v) p = Inr (True, q)" "same_printer p q"
      "text_of fmt 0 v = Some s" "ended p s q"
    | (f) q where "print_item (Some v) p = Inr (False, q)" "same_printer p q" "unwanted p (text_of fmt 0 v)"
    by (auto simp: outcome_def)
  then show thesis
  proof cases
    case t
    obtain r where r: "update_offset q = Inr r" "finished p s r" using t(4) by (auto simp: ended_def)
    then have r': "r = q\<lparr>p_offset := p_offset r\<rparr>"
      by (auto simp: update_offset_def cres_simps split: option.splits)
    have o: "p_offset r = length s" using r(2) by (simp add: finished_def appended_def p_def)
    obtain m' where m': "p_buf r = Some m'" "length m' = p_length r"
      using r(2) usable_buf[of r] by (auto simp: finished_def appended_def)
    have "take (length s) m' = s" "m' ! length s = 0" "length s + 2 \<le> length m'"
      using r(2) o m' by (auto simp: finished_def appended_def printed_def p_def)
    moreover from this have "take (length s + 1) m' = s @ [0]" by (simp add: take_Suc_conv_app_nth)
    moreover have "p_buf q = Some m'" "p_length q = p_length r" using m'(1) by (subst (asm) r', simp) (subst r', simp)
    moreover have "update_offset q = Inr (q\<lparr>p_offset := length s\<rparr>)" using r(1) r' o by simp
    ultimately show thesis using succeeded[of q s m'] t m'(2) by simp
  next
    case f
    then show thesis using failed[of q] by (simp add: unwanted_def p_def)
  qed
qed

text \<open>Into the caller's block: exactly two bytes more than the text are needed.\<close>

lemma print_preallocated_spec:
  assumes "item_ok v" and "length m = nat len" and "0 \<le> len" and "len \<le> INT_MAX"
  shows "\<exists>ok m'. cJSON_PrintPreallocated (Some v) (Some m) len fmt rea fill h = Inr (ok, Some m') \<and>
     length m' = length m \<and>
     (ok \<longleftrightarrow> (\<exists>s. text_of fmt 0 v = Some s \<and> int (length s) + 2 \<le> len)) \<and>
     (\<forall>s. ok \<and> text_of fmt 0 v = Some s \<longrightarrow> take (length s + 1) m' = s @ [0])"
proof -
  let ?p = "new_printbuffer (nat len) True fmt rea fill m h"
  have keep: "\<exists>m'. p_buf q = Some m' \<and> length m' = length m" if "same_printer ?p q" for q
    using that by (auto simp: same_printer_def)
  have code: "cJSON_PrintPreallocated (Some v) (Some m) len fmt rea fill h =
      cbind (print_item (Some v) ?p) (\<lambda>(ok, p). Inr (ok, p_buf p))"
    using assms(3) by (simp add: cJSON_PrintPreallocated_def)
  show ?thesis unfolding code
  proof (rule print_item_spec[OF assms(1,2) _ _ refl])
    show "int (nat len) \<le> INT_MAX" using assms(3,4) by simp
  next
    fix s q m' assume d: "print_item (Some v) ?p = Inr (True, q)" "same_printer ?p q"
      "text_of fmt 0 v = Some s" "p_buf q = Some m'" "length s + 2 \<le> length m'" "take (length s + 1) m' = s @ [0]"
    have "length m' = nat len" using keep[OF d(2)] d(4) assms(2) by auto
    then show "\<exists>ok m'. cbind (print_item (Some v) ?p) (\<lambda>(ok, p). Inr (ok, p_buf p)) = Inr (ok, Some m') \<and>
        length m' = length m \<and> (ok \<longleftrightarrow> (\<exists>s. text_of fmt 0 v = Some s \<and> int (length s) + 2 \<le> len)) \<and>
        (\<forall>s. ok \<and> text_of fmt 0 v = Some s \<longrightarrow> take (length s + 1) m' = s @ [0])"
      using d assms(2) by (intro exI[of _ True] exI[of _ m']) auto
  next
    fix q assume f: "print_item (Some v) ?p = Inr (False, q)" "same_printer ?p q"
      "\<forall>s. text_of fmt 0 v = Some s \<longrightarrow> \<not> can_hold ?p (length s + 2)"
    then have no: "\<not> int (length s) + 2 \<le> len" if "text_of fmt 0 v = Some s" for s
      using that by (auto simp: can_hold_def)
    obtain m' where "p_buf q = Some m'" "length m' = length m" using keep[OF f(2)] by blast
    then show "\<exists>ok m'. cbind (print_item (Some v) ?p) (\<lambda>(ok, p). Inr (ok, p_buf p)) = Inr (ok, Some m') \<and>
        length m' = length m \<and> (ok \<longleftrightarrow> (\<exists>s. text_of fmt 0 v = Some s \<and> int (length s) + 2 \<le> len)) \<and>
        (\<forall>s. ok \<and> text_of fmt 0 v = Some s \<longrightarrow> take (length s + 1) m' = s @ [0])"
      using f(1) no by (intro exI[of _ False] exI[of _ m']) auto
  qed simp
qed

text \<open>
  Into a block of its own: the text and its terminator.  On failure nothing stays allocated, and
  with an allocator that does not fail there is a result whenever the text is short enough.
\<close>

lemma cut_to_text:
  assumes "take (length s + 1) m = s @ [0]" and "length s + 2 \<le> length m"
  shows "resize fill (length s + 1) m = s @ [0]"
    and "poke (resize fill (length s + 1) (take (length s + 1) m)) (length s) 0 = Inr (s @ [0])"
  using assms by (simp_all add: resize_def poke_def)

lemma print_spec:
  assumes "item_ok v"
  shows "\<exists>r h'. print (Some v) fmt rea fill h = Inr (r, h') \<and> h_ok h' = h_ok h \<and>
     h_live h' = h_live h + (if r = None then 0 else 1) \<and>
     (\<forall>m. r = Some m \<longrightarrow> (\<exists>s. text_of fmt 0 v = Some s \<and> m = s @ [0])) \<and>
     (\<forall>s. (\<forall>i. h_ok h i) \<and> text_of fmt 0 v = Some s \<and> int (length s) + 2 \<le> INT_MAX \<longrightarrow> r = Some (s @ [0]))"
proof (cases h rule: allocate_cases)
  case 1
  define h1 where "h1 = h\<lparr>h_calls := h_calls h + 1, h_live := h_live h + 1\<rparr>"
  define p where "p = new_printbuffer 256 False fmt rea fill (map fill [0..<256]) h1"
  have sp: "spare p = h_live h" "h_ok (p_heap p) = h_ok h" by (simp_all add: p_def h1_def spare_def)
  have code: "print (Some v) fmt rea fill h = cbind (print_item (Some v) p) (\<lambda>(ok, p).
        if \<not> ok then Inr (None, free_buffer p)
        else cbind (update_offset p) (\<lambda>p1. cbind (deref (p_buf p1)) (\<lambda>m.
          case allocate (p_heap p1) of (ok, h2) \<Rightarrow>
          if \<not> ok then Inr (None, release 1 h2)
          else if rea then Inr (Some (resize fill (p_offset p1 + 1) m), release 1 h2)
          else
            cbind (slice m 0 (min (p_length p1) (p_offset p1 + 1))) (\<lambda>old.
            cbind (poke (resize fill (p_offset p1 + 1) old) (p_offset p1) 0) (\<lambda>printed.
            Inr (Some printed, release 1 h2))))))"
    by (simp add: print_def 1(2) p_def h1_def)
  show ?thesis
  proof (rule print_item_spec[OF assms _ _ _ p_def])
    fix s q m' assume d: "print_item (Some v) p = Inr (True, q)" "same_printer p q"
      "text_of fmt 0 v = Some s" "p_buf q = Some m'" "length s + 2 \<le> length m'"
      "length m' = p_length q" "take (length s + 1) m' = s @ [0]"
      "update_offset q = Inr (q\<lparr>p_offset := length s\<rparr>)"
    have q: "h_ok (p_heap q) = h_ok h" "h_live (p_heap q) = h_live h + 1"
      using d(2,4) sp by (auto simp: same_printer_def spare_def)
    have min: "min (p_length q) (length s + 1) = length s + 1" using d(5,6) by simp
    have sl: "slice m' 0 (length s + 1) = Inr (take (length s + 1) m')" using d(5) by (simp add: slice_def)
    obtain ok h2 where h2: "allocate (p_heap q) = (ok, h2)" by (cases "allocate (p_heap q)")
    have r: "print (Some v) fmt rea fill h = Inr (if ok then Some (s @ [0]) else None, release 1 h2)"
      unfolding code using d(1,4,8) h2
      by (cases rea) (simp_all add: min sl cut_to_text[OF d(7,5)] del: One_nat_def add_Suc_right Nat.add_0_right)
    show ?thesis unfolding r using h2 q d(3)
      by (cases "p_heap q" rule: allocate_cases) (auto simp: release_def)
  next
    fix q assume f: "print_item (Some v) p = Inr (False, q)" "same_printer p q"
      "\<forall>s. text_of fmt 0 v = Some s \<longrightarrow> \<not> can_hold p (length s + 2)"
    have "h_live (free_buffer q) = h_live h" "h_ok (free_buffer q) = h_ok h"
      using f(2) sp by (auto simp: same_printer_def spare_def free_buffer_def release_def)
    moreover have "\<not> p_noalloc p" by (simp add: p_def)
    ultimately show ?thesis using f(1,3) sp(2) by (auto simp: code can_hold_def)
  qed (simp_all add: INT_MAX_def)
qed (auto simp: print_def)

lemma print_buffered_spec:
  assumes "item_ok v" and "0 < n \<or> n = 0 \<and> rea" and "n \<le> INT_MAX"
  shows "\<exists>r h'. cJSON_PrintBuffered (Some v) n fmt rea fill h = Inr (r, h') \<and>
     h_live h' = h_live h + (if r = None then 0 else 1) \<and>
     (\<forall>m. r = Some m \<longrightarrow> (\<exists>s. text_of fmt 0 v = Some s \<and> take (length s + 1) m = s @ [0])) \<and>
     (\<forall>s. (\<forall>i. h_ok h i) \<and> text_of fmt 0 v = Some s \<and> int (length s) + 2 \<le> INT_MAX \<longrightarrow> r \<noteq> None)"
proof (cases h rule: allocate_cases)
  case 1
  define h1 where "h1 = h\<lparr>h_calls := h_calls h + 1, h_live := h_live h + 1\<rparr>"
  define p where "p = new_printbuffer (nat n) False fmt rea fill (map fill [0..<nat n]) h1"
  have sp: "spare p = h_live h" "h_ok (p_heap p) = h_ok h" by (simp_all add: p_def h1_def spare_def)
  have code: "cJSON_PrintBuffered (Some v) n fmt rea fill h = cbind (print_item (Some v) p) (\<lambda>(ok, p).
        if \<not> ok then Inr (None, free_buffer p) else Inr (p_buf p, p_heap p))"
    using assms(2) by (auto simp: cJSON_PrintBuffered_def Let_def 1(2) p_def h1_def)
  show ?thesis
  proof (rule print_item_spec[OF assms(1) _ _ _ p_def])
    fix s q m' assume d: "print_item (Some v) p = Inr (True, q)" "same_printer p q"
      "text_of fmt 0 v = Some s" "p_buf q = Some m'" "take (length s + 1) m' = s @ [0]"
    then show ?thesis using sp by (auto simp: code same_printer_def spare_def)
  next
    fix q assume f: "print_item (Some v) p = Inr (False, q)" "same_printer p q"
      "\<forall>s. text_of fmt 0 v = Some s \<longrightarrow> \<not> can_hold p (length s + 2)"
    have "h_live (free_buffer q) = h_live h"
      using f(2) sp by (auto simp: same_printer_def spare_def free_buffer_def release_def)
    moreover have "\<not> p_noalloc p" by (simp add: p_def)
    ultimately show ?thesis using f(1,3) sp(2) by (auto simp: code can_hold_def)
  qed (use assms in auto)
qed (use assms(2) in \<open>auto simp: cJSON_PrintBuffered_def\<close>)

text \<open>
  A block of no bytes and an allocator without realloc: the first enlargement copies one byte
  from the empty block.
\<close>

lemma ensure_empty_block:
  assumes "p_buf p = Some []" and "p_length p = 0" and "p_offset p = 0" and "\<not> p_noalloc p" and "\<not> p_realloc p"
    and "h_ok (p_heap p) (h_calls (p_heap p))" and "int n + 1 \<le> INT_MAX"
  shows "ensure n p = Inl OOB"
  using assms by (auto simp: ensure_def allocate_def slice_def)

lemma print_value_empty_block:
  assumes "p_buf p = Some []" "p_length p = 0" "p_offset p = 0" "\<not> p_noalloc p" "\<not> p_realloc p"
    "h_ok (p_heap p) (h_calls (p_heap p))"
    and "text_of f d v = Some s" and "int (length s) + 2 \<le> INT_MAX"
  shows "print_value v p = Inl OOB"
proof -
  obtain t vs vi vd n ch where v: "v = Item t vs vi vd n ch" by (cases v)
  note e = ensure_empty_block[OF assms(1-6)]
  have small: "put_out k bs j p = Inl OOB" if "int k + 1 \<le> INT_MAX" for k bs j
    by (simp add: put_out_def pbind_def e[OF that])
  have lits: "int 5 + 1 \<le> INT_MAX" "int 6 + 1 \<le> INT_MAX" "int 1 + 1 \<le> INT_MAX" "int (2 + 1) + 1 \<le> INT_MAX"
    "int (1 + 1) + 1 \<le> INT_MAX"
    by (simp_all add: INT_MAX_def)
  have str: "print_string_ptr vs p = Inl OOB" if "s = quoted vs"
  proof (cases vs)
    case (Some r)
    have "length s = length (cstr r) + sum_list (map escape_extra (cstr r)) + 2"
      using that concat_escaped_length[of "cstr r"] by (simp add: quoted_def Some)
    then have "int (length (cstr r) + sum_list (map escape_extra (cstr r)) + 3) + 1 \<le> INT_MAX"
      using assms(8) by linarith
    from e[OF this] show ?thesis by (simp add: print_string_ptr_def Some Let_def pbind_def)
  qed (simp add: print_string_ptr_def pbind_def e INT_MAX_def)
  have num: "print_number v p = Inl OOB" if "number_text v = Some s"
    using that assms(8) e[of "length s + 1"]
    by (auto simp: number_text_def print_number_def pbind_def split: sum.splits)
  show ?thesis
    using assms(7,8) num str small lits
    by (auto simp: v Let_def pbind_def split: if_splits option.splits)
qed

end
