(* ===== verification/JsonRoundTrip.thy ===== *)
theory JsonRoundTrip
  imports JsonParse JsonRender
begin

text \<open>
  The parser of src/cJSON.c reads what its printer wrote: parse\_value, on the text JsonRender
  gives for an item, formatted or not, rebuilds the item.  The items are the ones the parser can
  build (\<open>parsed\<close>), with strings without NUL and numbers whose text denotes them.
\<close>

section \<open>What is left to read\<close>

definition remaining :: "parse_buffer \<Rightarrow> bytes" where
  "remaining b = drop (offset b) (take (pb_length b) (content b))"

definition skip :: "nat \<Rightarrow> parse_buffer \<Rightarrow> parse_buffer" where
  "skip n b = b\<lparr>offset := offset b + n\<rparr>"

definition fits :: "parse_buffer \<Rightarrow> bool" where
  "fits b \<longleftrightarrow> pb_length b \<le> length (content b)"

lemma skip_simps [simp]:
  "skip 0 b = b" "skip m (skip n b) = skip (n + m) b" "fits (skip n b) = fits b"
  "content (skip n b) = content b" "pb_length (skip n b) = pb_length b" "depth (skip n b) = depth b"
  "pb_heap (skip n b) = pb_heap b" "offset (skip n b) = offset b + n"
  by (simp_all add: skip_def fits_def add.assoc)

lemma offset_Suc: "b\<lparr>offset := offset b + n\<rparr> = skip n b"
  by (simp add: skip_def)

lemma remaining_skip [simp]: "remaining (skip n b) = drop n (remaining b)"
  by (simp add: remaining_def skip_def add.commute)

lemma length_remaining: "fits b \<Longrightarrow> length (remaining b) = pb_length b - offset b"
  by (simp add: remaining_def fits_def)

lemma access_iff: "fits b \<Longrightarrow> can_access_at_index b i \<longleftrightarrow> i < length (remaining b)"
  by (auto simp: can_access_at_index_def length_remaining)

lemma at_offset_remaining: "fits b \<Longrightarrow> i < length (remaining b) \<Longrightarrow> at_offset b i = Inr (remaining b ! i)"
  by (simp add: at_offset_def peek_def remaining_def fits_def)

lemma looking_at_remaining: "fits b \<Longrightarrow> remaining b = x # r \<Longrightarrow> looking_at b c = Inr (x = c)"
  by (simp add: looking_at_def access_iff at_offset_remaining)

lemma starts_with_remaining:
  assumes "fits b" and "remaining b \<noteq> []"
  shows "starts_with b s = Inr (take (length s) (remaining b) = s)"
proof (cases "can_read b (length s)")
  case True
  then show ?thesis using assms
    by (simp add: starts_with_def can_read_def slice_def remaining_def fits_def take_drop min_def add.commute)
next
  case False
  note l = length_remaining[OF assms(1)]
  have "0 < length (remaining b)" using assms(2) by simp
  then have "length (remaining b) < length s"
    using False l unfolding can_read_def by linarith
  then have "take (length s) (remaining b) \<noteq> s" by (auto dest: arg_cong[of _ _ length])
  then show ?thesis using False by (simp add: starts_with_def)
qed

definition blanks :: "bytes \<Rightarrow> bool" where
  "blanks w \<longleftrightarrow> (\<forall>x \<in> set w. x \<le> 32)"

lemma blanks_simps [simp]: "blanks []" "blanks (a @ b) \<longleftrightarrow> blanks a \<and> blanks b" "blanks (x # w) \<longleftrightarrow> x \<le> 32 \<and> blanks w"
  by (auto simp: blanks_def)

lemma blanks_tabs [simp]: "blanks (tabs f d)"
  by (simp add: tabs_def blanks_def)

lemma ws_loop_blanks:
  assumes "fits b" and "remaining b = w @ x # r" and "blanks w" and "x > 32"
  shows "ws_loop b = Inr (skip (length w) b)"
  using assms
proof (induction w arbitrary: b)
  case Nil
  then show ?case by (auto simp: ws_loop.simps[of b] access_iff at_offset_remaining dest: leD)
next
  case (Cons y w)
  have "ws_loop b = ws_loop (skip 1 b)"
    using Cons.prems by (simp add: ws_loop.simps[of b] access_iff at_offset_remaining skip_def)
  then show ?case using Cons.IH[of "skip 1 b"] Cons.prems by simp
qed

lemma skip_blanks:
  assumes "fits b" and "remaining b = w @ x # r" and "blanks w" and "x > 32"
  shows "buffer_skip_whitespace b = Inr (skip (length w) b)"
proof -
  have "length w < pb_length b - offset b" using length_remaining[OF assms(1)] assms(2) by simp
  then show ?thesis
    using ws_loop_blanks[OF assms] access_iff[OF assms(1), of 0] assms(2)
    by (simp add: buffer_skip_whitespace_def)
qed

section \<open>Strings\<close>

definition escapes :: "bytes \<Rightarrow> nat" where
  "escapes cs = length (filter (\<lambda>c. length (escaped c) \<noteq> 1) cs)"

lemma escaped_cases:
  obtains (plain) "escaped c = [c]" "c \<noteq> 34" "c \<noteq> 92" "\<not> c < 32"
  | (short) x where "escaped c = [92, x]" "short_escape c = Some x"
  | (long) "escaped c = 92 # fmt_u04x c" "c < 32"
  by (cases "c < 32 \<or> c = 34 \<or> c = 92"; cases "short_escape c")
    (auto simp: escaped_def plain_char short_escape_def split: if_splits)

lemma hex_char_plain: "n < 16 \<Longrightarrow> hex_char n \<noteq> 34 \<and> hex_char n \<noteq> 92"
proof -
  have "list_all (\<lambda>n. hex_char n \<noteq> 34 \<and> hex_char n \<noteq> 92) [0..<16]" by code_simp
  then show "n < 16 \<Longrightarrow> ?thesis" by (simp add: list_all_iff)
qed

lemma nth_take_drop: "drop p (take e m) = xs \<Longrightarrow> i < length xs \<Longrightarrow> p + i < e \<and> peek m (p + i) = Inr (xs ! i)"
  by (auto simp: peek_def)

lemma drop_step: "drop p (take e m) = xs @ ys \<Longrightarrow> drop (p + length xs) (take e m) = ys"
  by (metis add.commute append_eq_conv_conj drop_drop)

lemma scan_end_plain:
  assumes "drop e (take len m) = cs @ r" and "\<forall>c \<in> set cs. c \<noteq> 34 \<and> c \<noteq> 92"
  shows "scan_end m len e k = scan_end m len (e + length cs) k"
  using assms
proof (induction cs arbitrary: e)
  case (Cons c cs)
  have "e < len \<and> peek m e = Inr c" using nth_take_drop[OF Cons.prems(1), of 0] by simp
  then have "scan_end m len e k = scan_end m len (Suc e) k"
    using Cons.prems(2) by (simp add: scan_end.simps[of m len e])
  then show ?case using Cons.IH[of "Suc e"] Cons.prems drop_step[of e len m "[c]"] by simp
qed simp

lemma scan_end_escaped:
  assumes "drop e (take len m) = escaped c @ x # r"
  shows "scan_end m len e k =
    scan_end m len (e + length (escaped c)) (if length (escaped c) \<noteq> 1 then Suc k else k)"
proof (cases c rule: escaped_cases)
  case plain
  then show ?thesis using scan_end_plain[of e len m "[c]"] assms by simp
next
  case (short y)
  then have "e < len \<and> peek m e = Inr 92" "Suc e < len"
    using nth_take_drop[OF assms, of 0] nth_take_drop[OF assms, of 1] by simp_all
  then show ?thesis using short by (simp add: scan_end.simps[of m len e])
next
  case long
  let ?h = "[48, 48, hex_char (unat c div 16), hex_char (unat c mod 16)]"
  have d: "drop e (take len m) = [92, 117] @ ?h @ x # r" using assms long by (simp add: fmt_u04x_def)
  have "e < len \<and> peek m e = Inr 92" "Suc e < len"
    using nth_take_drop[OF d, of 0] nth_take_drop[OF d, of 1] by simp_all
  then have "scan_end m len e k = scan_end m len (e + 2) (Suc k)" by (simp add: scan_end.simps[of m len e])
  also have "\<dots> = scan_end m len (e + 2 + length ?h) (Suc k)"
  proof (rule scan_end_plain)
    show "drop (e + 2) (take len m) = ?h @ x # r" using drop_step[OF d] by simp
    show "\<forall>c \<in> set ?h. c \<noteq> 34 \<and> c \<noteq> 92"
      using hex_char_plain[of "unat c div 16"] hex_char_plain[of "unat c mod 16"] unsigned_less[of c, where 'a = nat]
      by auto
  qed
  finally show ?thesis using long by (simp add: fmt_u04x_def add.commute)
qed

lemma scan_end_body:
  assumes "drop e (take len m) = concat (map escaped cs) @ 34 # r"
  shows "scan_end m len e k = Inr (Some (e + length (concat (map escaped cs)), k + escapes cs))"
  using assms
proof (induction cs arbitrary: e k)
  case Nil
  then have "e < len \<and> peek m e = Inr 34" using nth_take_drop[OF Nil, of 0] by simp
  then show ?case by (simp add: scan_end.simps[of m len e] escapes_def)
next
  case (Cons c cs)
  obtain x r' where r: "concat (map escaped cs) @ 34 # r = x # r'"
    by (cases "concat (map escaped cs) @ 34 # r") auto
  then have d: "drop e (take len m) = escaped c @ x # r'" using Cons.prems by simp
  show ?case
    using scan_end_escaped[OF d] Cons.IH[of "e + length (escaped c)"] drop_step[OF d] r
    by (simp add: escapes_def add.assoc)
qed

text \<open>The code points the printer writes: the four digits are read back as the character.\<close>

lemma control_chars:
  assumes "c < (32 :: u8)"
  shows "\<exists>d1 d2. hex_digit (hex_char (unat c div 16)) = Some d1 \<and> hex_digit (hex_char (unat c mod 16)) = Some d2 \<and>
      push_bit 4 d1 + d2 = ucast c"
    and "utf8_encode (ucast c) = Some [c]"
    and "\<not> (0xD800 \<le> (ucast c :: u32))" and "\<not> (0xDC00 \<le> (ucast c :: u32))"
proof -
  define P where "P n \<longleftrightarrow> (let c = of_nat n :: u8; a = hex_digit (hex_char (unat c div 16)); b = hex_digit (hex_char (unat c mod 16)) in
      a \<noteq> None \<and> b \<noteq> None \<and> push_bit 4 (the a) + the b = ucast c \<and> utf8_encode (ucast c) = Some [c] \<and>
      \<not> (0xD800 \<le> (ucast c :: u32)) \<and> \<not> (0xDC00 \<le> (ucast c :: u32)))" for n
  have "list_all P [0..<32]" unfolding P_def by code_simp
  moreover have "unat c < 32" using assms by (simp add: word_less_nat_alt)
  ultimately have "P (unat c)" by (simp add: list_all_iff)
  then show "\<exists>d1 d2. hex_digit (hex_char (unat c div 16)) = Some d1 \<and> hex_digit (hex_char (unat c mod 16)) = Some d2 \<and>
      push_bit 4 d1 + d2 = ucast c"
    and "utf8_encode (ucast c) = Some [c]"
    and "\<not> (0xD800 \<le> (ucast c :: u32))" and "\<not> (0xDC00 \<le> (ucast c :: u32))"
    by (auto simp: P_def Let_def)
qed
lemma parse_hex4_read:
  assumes "peek m q = Inr 48" and "peek m (Suc q) = Inr 48" and "peek m (Suc (Suc q)) = Inr a"
    and "peek m (Suc (Suc (Suc q))) = Inr b" and "hex_digit a = Some d1" and "hex_digit b = Some d2"
  shows "parse_hex4 m q = Inr (push_bit 4 d1 + d2)"
proof -
  have z: "hex_digit 48 = Some 0" by code_simp
  note l = parse_hex4_loop.simps[of m q]
  have "parse_hex4_loop m q 0 0 = parse_hex4_loop m q (Suc 0) 0"
    by (subst l) (simp add: assms z)
  also have "\<dots> = parse_hex4_loop m q (Suc (Suc 0)) 0" by (subst l) (simp add: assms z)
  also have "\<dots> = parse_hex4_loop m q (Suc (Suc (Suc 0))) (push_bit 4 d1)" by (subst l) (simp add: assms)
  also have "\<dots> = parse_hex4_loop m q (Suc (Suc (Suc (Suc 0)))) (push_bit 4 d1 + d2)" by (subst l) (simp add: assms)
  also have "\<dots> = Inr (push_bit 4 d1 + d2)" by (subst l) simp
  finally show ?thesis by (simp add: parse_hex4_def)
qed
lemma read_literal:
  assumes "drop p (take e m) = escaped c @ r" and "c < 32" and "escaped c = 92 # fmt_u04x c"
  shows "utf16_literal_to_utf8 m p e = Inr (Some (6, [c]))"
proof -
  note cc = control_chars[OF assms(2)]
  have d: "drop p (take e m) = [92, 117, 48, 48, hex_char (unat c div 16), hex_char (unat c mod 16)] @ r"
    using assms(1,3) by (simp add: fmt_u04x_def)
  obtain d1 d2 where hd: "hex_digit (hex_char (unat c div 16)) = Some d1"
    "hex_digit (hex_char (unat c mod 16)) = Some d2" "push_bit 4 d1 + d2 = ucast c" using cc(1) by blast
  have i: "Suc (p + 2) = p + 3" "Suc (p + 3) = p + 4" "Suc (p + 4) = p + 5" by simp_all
  have "parse_hex4 m (p + 2) = Inr (push_bit 4 d1 + d2)"
  proof (rule parse_hex4_read[OF _ _ _ _ hd(1,2)], unfold i)
    show "peek m (p + 2) = Inr 48" using nth_take_drop[OF d, of 2] by simp
    show "peek m (p + 3) = Inr 48" using nth_take_drop[OF d, of 3] by simp
    show "peek m (p + 4) = Inr (hex_char (unat c div 16))" using nth_take_drop[OF d, of 4] by simp
    show "peek m (p + 5) = Inr (hex_char (unat c mod 16))" using nth_take_drop[OF d, of 5] by simp
  qed
  moreover have "p + 5 < e" using nth_take_drop[OF d, of 5] by simp
  ultimately show ?thesis using cc(2-4) by (simp add: utf16_literal_to_utf8_def hd(3))
qed

lemma simple_escape_short: "short_escape c = Some x \<Longrightarrow> x \<noteq> 117 \<and> simple_escape x = Some c"
  by (auto simp: short_escape_def simple_escape_def split: if_splits)

lemma unescape_step:
  assumes "drop p (take e m) = escaped c @ r" and "length acc < cap"
  shows "unescape m e cap p acc = unescape m e cap (p + length (escaped c)) (acc @ [c])"
proof (cases c rule: escaped_cases)
  case plain
  then show ?thesis using nth_take_drop[OF assms(1), of 0] assms(2)
    by (simp add: unescape.simps[of m e cap p] emit_def)
next
  case (short x)
  have "p < e" "peek m p = Inr 92" "peek m (Suc p) = Inr x"
    using nth_take_drop[OF assms(1), of 0] nth_take_drop[OF assms(1), of 1] short by simp_all
  then show ?thesis using short simple_escape_short[OF short(2)] assms(2)
    by (simp add: unescape.simps[of m e cap p] emit_def)
next
  case long
  have "p < e" "peek m p = Inr 92" "peek m (Suc p) = Inr 117"
    using nth_take_drop[OF assms(1), of 0] nth_take_drop[OF assms(1), of 1] long by (simp_all add: fmt_u04x_def)
  moreover have "length (escaped c) = 6" by (simp add: long(1) fmt_u04x_def)
  ultimately show ?thesis using read_literal[OF assms(1) long(2,1)] assms(2)
    by (simp add: unescape.simps[of m e cap p] emit_def)
qed

lemma unescape_body:
  assumes "drop p (take e m) = concat (map escaped cs)" and "length acc + length cs \<le> cap"
    and "e \<le> length m"
  shows "unescape m e cap p acc = Inr (Inr (acc @ cs))"
  using assms
proof (induction cs arbitrary: p acc)
  case Nil
  then show ?case by (simp add: unescape.simps[of m e cap p])
next
  case (Cons c cs)
  have d: "drop p (take e m) = escaped c @ concat (map escaped cs)" using Cons.prems(1) by simp
  show ?case
    using unescape_step[OF d, of acc cap] Cons.IH[OF drop_step[OF d], of "acc @ [c]"] Cons.prems(2,3) by simp
qed

lemma body_length: "length cs + escapes cs \<le> length (concat (map escaped cs))"
proof (induction cs)
  case (Cons c cs)
  then show ?case using escaped_length[of c] by (simp add: escapes_def)
qed (simp add: escapes_def)

text \<open>parse\_string on a printed string.\<close>

definition reliable :: "parse_buffer \<Rightarrow> bool" where
  "reliable b \<longleftrightarrow> fits b \<and> (\<forall>i. h_ok (pb_heap b) i)"

definition moved_over :: "parse_buffer \<Rightarrow> nat \<Rightarrow> parse_buffer \<Rightarrow> bool" where
  "moved_over b n b' \<longleftrightarrow> reliable b' \<and> (\<exists>h. b' = (skip n b)\<lparr>pb_heap := h\<rparr>)"

lemma parse_string_text:
  assumes "reliable b" and "remaining b = quoted (Some cs) @ r" and "0 \<notin> set cs"
  shows "\<exists>b'. parse_string item b = Inr (Some (Item cJSON_String (Some cs) (valueint item)
      (valuedouble item) (c_string item) (children item)), b') \<and> moved_over b (length (quoted (Some cs))) b'"
proof -
  let ?body = "concat (map escaped cs)" and ?m = "content b" and ?l = "pb_length b" and ?s = "Suc (offset b)"
  have rem: "remaining b = 34 # ?body @ 34 # r" using assms(2,3) by (simp add: quoted_def cstr_id)
  have ok: "fits b" "\<And>i. h_ok (pb_heap b) i" using assms(1) by (auto simp: reliable_def)
  have "drop ?s (take ?l ?m) = ?body @ 34 # r"
    using rem by (simp add: remaining_def drop_Suc flip: tl_drop)
  note d = this drop_step[OF this]
  define e where "e = ?s + length ?body"
  have sc: "scan_end ?m ?l ?s 0 = Inr (Some (e, escapes cs))" using scan_end_body[OF d(1)] by (simp add: e_def)
  have e: "e < ?l \<and> peek ?m e = Inr 34" using nth_take_drop[OF d(2), of 0] by (simp add: e_def)
  have "drop ?s (take e ?m) = take (length ?body) (drop ?s (take ?l ?m))"
    using conjunct1[OF e] by (auto simp: e_def drop_take min_def)
  then have "drop ?s (take e ?m) = ?body" by (simp add: d(1))
  moreover have "e \<le> length ?m" using e ok(1) by (simp add: fits_def)
  ultimately have un: "unescape ?m e (e - offset b - escapes cs + 1) ?s [] = Inr (Inr cs)"
    using unescape_body[of ?s e ?m cs "[]"] body_length[of cs] by (simp add: e_def)
  have fits: "emit (e - offset b - escapes cs + 1) cs [0] = Inr (cs @ [0])"
    using body_length[of cs] by (simp add: emit_def e_def)
  obtain h where h: "allocate (pb_heap b) = (True, h)" "\<forall>i. h_ok h i"
    using ok(2) by (cases "pb_heap b" rule: allocate_cases) auto
  have "at_offset b 0 = Inr 34" using at_offset_remaining[OF ok(1), of 0] rem by simp
  then have "parse_string item b = Inr (Some (Item cJSON_String (Some cs) (valueint item)
      (valuedouble item) (c_string item) (children item)), b\<lparr>offset := Suc e, pb_heap := h\<rparr>)"
    using sc e un fits h by (simp add: parse_string_def)
  moreover have "moved_over b (length (quoted (Some cs))) (b\<lparr>offset := Suc e, pb_heap := h\<rparr>)"
    using ok(1) h(2) assms(3)
    by (auto simp: moved_over_def reliable_def fits_def skip_def e_def quoted_def cstr_id)
  ultimately show ?thesis by blast
qed

section \<open>Numbers\<close>

lemma digit_char: "n < 10 \<Longrightarrow> is_digit (of_nat (48 + n)) \<and> digit_val (of_nat (48 + n)) = n"
proof -
  have "list_all (\<lambda>n. is_digit (of_nat (48 + n)) \<and> digit_val (of_nat (48 + n)) = n) [0..<10]" by code_simp
  then show "n < 10 \<Longrightarrow> ?thesis" by (simp add: list_all_iff)
qed

lemma nat_digits_read: "(\<forall>d \<in> set (nat_digits n). is_digit d) \<and> digits_val (nat_digits n) = n"
proof (induction n rule: nat_digits.induct)
  case (1 n)
  show ?case
  proof (cases "n < 10")
    case True
    then show ?thesis using digit_char[OF True] by (simp add: nat_digits.simps[of n] digits_val_def del: of_nat_add)
  next
    case False
    have "nat_digits n = nat_digits (n div 10) @ [of_nat (48 + n mod 10)]"
      using False by (simp add: nat_digits.simps[of n])
    then show ?thesis using 1[OF False] digit_char[of "n mod 10"]
      by (simp add: digits_val_def del: of_nat_add)
  qed
qed

lemma fmt_d_read:
  assumes "INT_MIN \<le> i" and "i \<le> INT_MAX"
  shows "strtod (fmt_d i) = (Fin (of_int i), length (fmt_d i))" and "\<forall>c \<in> set (fmt_d i). is_number_char c"
    and "fmt_d i \<noteq> []" and "hd (fmt_d i) = 45 \<or> is_digit (hd (fmt_d i))"
proof -
  define n where "n = nat \<bar>i\<bar>"
  have n: "n < 2 ^ 53" using assms by (simp add: n_def INT_MIN_def INT_MAX_def)
  have d: "nat_digits n \<noteq> []" "\<forall>d \<in> set (nat_digits n). is_digit d" "digits_val (nat_digits n) = n"
    using nat_digits_bounds[of n] nat_digits_read[of n] by auto
  have f: "fmt_d i = (if i < 0 then 45 # nat_digits n else nat_digits n)" by (simp add: fmt_d_def n_def)
  have v: "(of_int i :: rat) = (if i < 0 then - of_nat n else of_nat n)" by (simp add: n_def)
  show "strtod (fmt_d i) = (Fin (of_int i), length (fmt_d i))"
    using strtod_digits[OF d(1,2)] d(3) n unfolding f v by simp
  show "\<forall>c \<in> set (fmt_d i). is_number_char c" using d(2) by (simp add: f is_number_char_def)
  show "fmt_d i \<noteq> []" using d(1) by (simp add: f)
  show "hd (fmt_d i) = 45 \<or> is_digit (hd (fmt_d i))" using d(1,2) by (simp add: f)
qed

lemma copy_number_text:
  assumes "fits b" and "drop i (remaining b) = s @ x # r" and "\<forall>c \<in> set s. is_number_char c"
    and "\<not> is_number_char x" and "length s < k"
  shows "copy_number b k i = Inr s"
  using assms
proof (induction s arbitrary: i k)
  case Nil
  then obtain k' where "k = Suc k'" by (cases k) auto
  moreover have "i < length (remaining b)" "remaining b ! i = x"
    using Nil(2) by (metis append_Nil drop_eq_Nil list.simps(3) not_le, metis append_Nil hd_drop_conv_nth drop_eq_Nil list.sel(1) list.simps(3) not_le)
  ultimately show ?case using Nil(1,4) by (simp add: access_iff at_offset_remaining)
next
  case (Cons c s)
  then obtain k' where k: "k = Suc k'" by (cases k) auto
  have i: "i < length (remaining b)" "remaining b ! i = c" "drop (Suc i) (remaining b) = s @ x # r"
    using Cons.prems(2) by (metis append_Cons drop_eq_Nil list.simps(3) not_le,
      metis append_Cons hd_drop_conv_nth drop_eq_Nil list.sel(1) list.simps(3) not_le,
      metis append_Cons drop_Suc list.sel(3) tl_drop)
  then show ?case using Cons.IH[of "Suc i" k'] Cons.prems k by (simp add: access_iff at_offset_remaining)
qed

text \<open>What the two conversions of sprintf give is made of the characters parse\_number takes.\<close>

definition number_like :: "bytes \<Rightarrow> bool" where
  "number_like s \<longleftrightarrow> (\<forall>c \<in> set s. is_number_char c) \<and> s \<noteq> [] \<and> (hd s = 45 \<or> is_digit (hd s))"

lemma number_like_fmt_d: "number_like (fmt_d i)"
  using nat_digits_bounds[of "nat \<bar>i\<bar>"] nat_digits_read[of "nat \<bar>i\<bar>"]
  by (cases "i < 0") (auto simp: number_like_def fmt_d_def is_number_char_def)

lemma digits_number_chars: "\<forall>c \<in> set (nat_digits n). is_number_char c"
  using nat_digits_read[of n] by (simp add: is_number_char_def)

lemma strip0_subset: "set (strip0 ds) \<subseteq> set ds"
  using set_dropWhileD[of _ "\<lambda>d. d = 48" "rev ds"] by (auto simp: strip0_def)

lemma fmt_g_chars: "\<forall>c \<in> set (fmt_g k x). is_number_char c"
proof -
  have part: "\<forall>c \<in> set (take n ds). is_number_char c" "\<forall>c \<in> set (strip0 (drop n ds)). is_number_char c"
      "\<forall>c \<in> set (strip0 ds). is_number_char c"
    if "\<forall>c \<in> set ds. is_number_char c" for n ds
    using that strip0_subset[of "drop n ds"] strip0_subset[of ds] by (auto dest: in_set_takeD in_set_dropD)
  have point: "\<forall>c \<in> set (with_point ds). is_number_char c" if "\<forall>c \<in> set ds. is_number_char c" for ds
    using that by (auto simp: with_point_def is_number_char_def)
  have expo: "\<forall>c \<in> set (fmt_exp e). is_number_char c" for e
    using digits_number_chars[of "nat \<bar>e\<bar>"] by (auto simp: fmt_exp_def Let_def is_number_char_def is_digit_def)
  have lits: "is_number_char 45" "is_number_char 48" "is_number_char 46" by (simp_all add: is_number_char_def is_digit_def)
  show ?thesis
    unfolding fmt_g_def Let_def
    by (auto simp: lits split: prod.splits dest: expo[rule_format] part(1)[OF digits_number_chars, rule_format]
        point[OF part(2)[OF digits_number_chars], rule_format] part(3)[OF digits_number_chars, rule_format])
qed

lemma fmt_g_starts: "fmt_g k x \<noteq> [] \<and> (hd (fmt_g k x) = 45 \<or> is_digit (hd (fmt_g k x)))"
proof -
  have take: "take (Suc i) (nat_digits m) \<noteq> [] \<and> is_digit (hd (take (Suc i) (nat_digits m)))" for i m
    using nat_digits_bounds[of m] nat_digits_read[of m] by (cases "nat_digits m") auto
  have zero: "is_digit 48" by (simp add: is_digit_def)
  have body: "(if c then take (Suc 0) (nat_digits m) @ p else if d then [48, 46] @ q else take (Suc i) (nat_digits m) @ r) \<noteq> []
      \<and> is_digit (hd (if c then take (Suc 0) (nat_digits m) @ p else if d then [48, 46] @ q else take (Suc i) (nat_digits m) @ r))"
    for c d p q r i m
    using take[of 0 m] take[of i m] zero by simp
  have sign: "(if n then [45] else []) @ q \<noteq> [] \<and>
      (hd ((if n then [45] else []) @ q) = 45 \<or> is_digit (hd ((if n then [45] else []) @ q)))"
    if "q \<noteq> [] \<and> is_digit (hd q)" for n and q :: bytes
    using that by simp
  have one: "take 1 ds = take (Suc 0) ds" "take (nat e + 1) ds = take (Suc (nat e)) ds" for ds :: bytes and e by simp_all
  show ?thesis
  proof (cases "x = 0")
    case True
    then show ?thesis by (simp add: fmt_g_def zero)
  next
    case False
    then show ?thesis unfolding fmt_g_def Let_def case_prod_beta one if_not_P[OF False] by (intro sign body)
  qed
qed

lemma number_like_fmt_g: "number_like (fmt_g k x)"
  using fmt_g_chars[of k x] fmt_g_starts[of k x] by (simp add: number_like_def)

lemma strtod_null: "strtod (lit ''null'') = (Fin 0, 0)"
  by (simp add: strtod_def is_digit_def Let_def)

text \<open>
  \<open>number_exact vi vd\<close>: the text that is printed for the number denotes it, so that it can be read
  back.  So it is for every int, and for every double that 15 significant digits determine; a double
  like 0.30000000000000004, for which cJSON's tolerant comparison is content with the text 0.3, is not.
\<close>

definition number_exact :: "int \<Rightarrow> dbl \<Rightarrow> bool" where
  "number_exact vi vd \<longleftrightarrow> double_ok vd \<and> number_to_int vd = Inr vi \<and>
     (case number_text (Item cJSON_Number None vi vd None []) of
        None \<Rightarrow> False
      | Some s \<Rightarrow> strtod s = (vd, length s))"

lemma number_text_cases:
  assumes "number_text v = Some s"
  shows "s = lit ''null'' \<or> s = fmt_d (valueint v) \<or> (\<exists>k x. s = fmt_g k x)"
proof -
  have s: "number_chars v = Inr s" using assms by (simp add: number_text_def split: sum.splits)
  have p: "t = s" if "sprintf_26 t = Inr s" for t using that by (simp add: sprintf_26_def split: if_splits)
  show ?thesis
  proof (cases "valuedouble v")
    case (Fin x)
    then have "sprintf_26 (fmt_d (valueint v)) = Inr s \<or> sprintf_26 (fmt_g 17 x) = Inr s \<or> sprintf_26 (fmt_g 15 x) = Inr s"
      using s by (auto simp: number_chars_def cbind_eq_Inr_iff case_prod_beta split: if_split_asm)
    then show ?thesis using p by blast
  qed (use s p in \<open>auto simp: number_chars_def\<close>)
qed

lemma number_chars_like:
  assumes "number_text v = Some s" and "s \<noteq> lit ''null''"
  shows "number_like s \<and> length s \<le> 25"
proof
  show "number_like s" using number_text_cases[OF assms(1)] assms(2) number_like_fmt_d number_like_fmt_g by auto
  have "number_chars v = Inr s" using assms(1) by (simp add: number_text_def split: sum.splits)
  then show "length s \<le> 25"
    by (auto simp: number_chars_def sprintf_26_def cbind_eq_Inr_iff case_prod_beta split: dbl.split_asm if_split_asm)
qed

lemma number_exact_text:
  assumes "number_exact vi vd"
  obtains s where "number_text (Item t vs vi vd n ch) = Some s" and "strtod s = (vd, length s)"
    and "number_like s" and "length s \<le> 25" and "number_to_int vd = Inr vi"
proof -
  have same: "number_text (Item t vs vi vd n ch) = number_text (Item cJSON_Number None vi vd None [])"
    unfolding number_text_def number_chars_def cJSON.sel ..
  obtain s where s: "number_text (Item cJSON_Number None vi vd None []) = Some s" "strtod s = (vd, length s)"
    and i: "number_to_int vd = Inr vi"
    using assms by (auto simp: number_exact_def split: option.splits)
  have "s \<noteq> lit ''null''" using s(2) strtod_null by auto
  then show ?thesis using that same s i number_chars_like[OF s(1)] by simp
qed

lemma number_text_parsed:
  assumes "valuedouble v = Fin (of_int (valueint v))" and "INT_MIN \<le> valueint v" and "valueint v \<le> INT_MAX"
  shows "number_text v = Some (fmt_d (valueint v))"
  using fmt_d_length[OF assms(2,3)] assms(1) by (simp add: number_text_def number_chars_def sprintf_26_def)

lemma double_ok_int:
  assumes "INT_MIN \<le> i" and "i \<le> INT_MAX"
  shows "double_ok (Fin (of_int i))"
proof (cases "i = 0")
  case False
  then have "(1 :: rat) \<le> of_int \<bar>i\<bar>" by simp
  moreover have "(of_int \<bar>i\<bar> :: rat) \<le> of_int 2147483648"
    using assms by (intro of_int_le_iff[THEN iffD2]) (simp add: INT_MIN_def INT_MAX_def)
  moreover have "of_int 2147483648 \<le> DBL_MAX" by (simp add: DBL_MAX_def)
  moreover have "(1 :: rat) / 2 ^ 1074 \<le> 1" by simp
  ultimately have "1 / 2 ^ 1074 \<le> \<bar>of_int i :: rat\<bar> \<and> \<bar>of_int i :: rat\<bar> \<le> DBL_MAX"
    unfolding of_int_abs by (meson order_trans)
  then show ?thesis unfolding double_ok_def dbl.case by (rule disjI2)
qed (simp add: double_ok_def)

lemma number_exact_int: "INT_MIN \<le> i \<Longrightarrow> i \<le> INT_MAX \<Longrightarrow> number_exact i (Fin (of_int i))"
  using double_ok_int[of i] number_to_int_exact[of i] fmt_d_read(1)[of i]
    number_text_parsed[of "Item cJSON_Number None i (Fin (of_int i)) None []"]
  by (simp add: number_exact_def)

lemma parse_number_text:
  assumes "reliable b" and "remaining b = s @ x # r" and "\<not> is_number_char x"
    and "number_like s" and "length s \<le> 25" and "strtod s = (d, length s)" and "number_to_int d = Inr i"
  shows "\<exists>b'. parse_number item b = Inr (Some (Item cJSON_Number (valuestring item) i d
      (c_string item) (children item)), b') \<and> moved_over b (length s) b'"
proof -
  have ok: "fits b" "\<forall>i. h_ok (pb_heap b) i" using assms(1) by (auto simp: reliable_def)
  have s: "\<forall>c \<in> set s. is_number_char c" "s \<noteq> []" using assms(4) by (simp_all add: number_like_def)
  have "copy_number b 63 0 = Inr s"
    using copy_number_text[OF ok(1) _ s(1) assms(3), of 0 r 63] assms(2,5) by simp
  then have "parse_number item b = Inr (Some (Item cJSON_Number (valuestring item) i d
      (c_string item) (children item)), skip (length s) b)"
    using s(2) assms(6,7) by (simp add: parse_number_def skip_def)
  moreover have "moved_over b (length s) (skip (length s) b)"
    using ok by (auto simp: moved_over_def reliable_def intro!: exI[of _ "pb_heap b"])
  ultimately show ?thesis by blast
qed

section \<open>The items the parser builds\<close>

definition plain_string :: "bytes option \<Rightarrow> bool" where
  "plain_string vs = (case vs of None \<Rightarrow> False | Some c \<Rightarrow> 0 \<notin> set c)"

fun parsed :: "cJSON \<Rightarrow> bool" where
  "parsed (Item t vs vi vd s ch) \<longleftrightarrow>
     (if t = cJSON_NULL \<or> t = cJSON_False then vs = None \<and> vi = 0 \<and> vd = Fin 0 \<and> ch = []
      else if t = cJSON_True then vs = None \<and> vi = 1 \<and> vd = Fin 0 \<and> ch = []
      else if t = cJSON_Number then vs = None \<and> number_exact vi vd \<and> ch = []
      else if t = cJSON_String then plain_string vs \<and> vi = 0 \<and> vd = Fin 0 \<and> ch = []
      else vs = None \<and> vi = 0 \<and> vd = Fin 0 \<and>
        (if t = cJSON_Array then \<forall>c \<in> set ch. c_string c = None \<and> parsed c
         else t = cJSON_Object \<and> (\<forall>c \<in> set ch. plain_string (c_string c) \<and> parsed c)))"

fun nesting :: "cJSON \<Rightarrow> nat" where
  "nesting (Item t vs vi vd s ch) =
     (if t = cJSON_Array \<or> t = cJSON_Object then 1 + foldr max (map nesting ch) 0 else 0)"

lemma nesting_child: "c \<in> set ch \<Longrightarrow> nesting c \<le> foldr max (map nesting ch) 0"
  by (induction ch) auto

lemma parsed_types:
  assumes "parsed (Item t vs vi vd s ch)"
  obtains "t = cJSON_NULL" | "t = cJSON_False" | "t = cJSON_True" | "t = cJSON_Number" | "t = cJSON_String"
    | "t = cJSON_Array" | "t = cJSON_Object"
  using assms by (auto split: if_splits)

text \<open>How texts start.\<close>

definition starts_value :: "bytes \<Rightarrow> bool" where
  "starts_value s \<longleftrightarrow> s \<noteq> [] \<and> hd s > 32 \<and> hd s \<noteq> 93 \<and> hd s < 128"

lemma text_starts:
  assumes "parsed v" and "text_of f d v = Some s"
  shows "starts_value s"
proof -
  obtain t vs vi vd n ch where v: "v = Item t vs vi vd n ch" by (cases v)
  have num: "starts_value s" if "number_like s" for s
  proof -
    have "hd s = 45 \<or> (48 \<le> hd s \<and> hd s \<le> 57)" using that by (simp add: number_like_def is_digit_def)
    then have "32 < hd s \<and> hd s \<noteq> 93 \<and> hd s < 128" by (auto simp: word_less_nat_alt word_le_nat_alt)
    then show ?thesis using that by (simp add: starts_value_def number_like_def)
  qed
  show ?thesis using assms(1)[unfolded v]
  proof (cases rule: parsed_types)
    case 4
    then have "number_exact vi vd" using assms(1) by (simp add: v json_types)
    then show ?thesis using 4 assms(2) num by (elim number_exact_text[of vi vd t vs n ch]) (simp add: v json_types)
  qed (use assms in \<open>auto simp: v json_types starts_value_def quoted_def sep_def split: option.splits if_splits\<close>)
qed

lemma text_exists: "parsed v \<Longrightarrow> \<exists>s. text_of f d v = Some s"
proof (induction v arbitrary: d)
  case (Item t vs vi vd n ch)
  have ex: "(\<exists>s. texts_of f d' xs = Some s) \<and> (\<exists>s. members_of f d' xs = Some s)"
    if "\<forall>c \<in> set xs. \<forall>d. \<exists>s. text_of f d c = Some s" for d' xs
    using that
  proof (induction xs)
    case (Cons x xs)
    have "\<forall>d. \<exists>s. text_of f d x = Some s" using Cons.prems by simp
    then obtain a where "text_of f d' x = Some a" by blast
    moreover obtain b c where "texts_of f d' xs = Some b" "members_of f d' xs = Some c" using Cons by auto
    ultimately show ?case by simp
  qed simp
  have ch: "\<forall>c \<in> set ch. \<forall>d. \<exists>s. text_of f d c = Some s" if "t = cJSON_Array \<or> t = cJSON_Object"
    using Item that by (auto simp: json_types)
  show ?case using Item.prems
  proof (cases rule: parsed_types)
    case 4
    then have "number_exact vi vd" using Item.prems by (simp add: json_types)
    then show ?thesis using 4 by (elim number_exact_text[of vi vd t vs n ch]) (simp add: json_types)
  next
    case 6
    then obtain s where "texts_of f (d + 1) ch = Some s" using ex[OF ch, of "d + 1"] by blast
    then show ?thesis using 6 by (simp add: json_types)
  next
    case 7
    then obtain s where "members_of f (d + 1) ch = Some s" using ex[OF ch, of "d + 1"] by blast
    then show ?thesis using 7 by (simp add: json_types)
  qed (simp_all add: json_types)
qed

section \<open>Reading values back\<close>

lemma moved_over_refl: "reliable b \<Longrightarrow> moved_over b 0 b"
  by (auto simp: moved_over_def intro!: exI[of _ "pb_heap b"])

lemma moved_over_skip: "reliable b \<Longrightarrow> moved_over b n (skip n b)"
  by (auto simp: moved_over_def reliable_def intro!: exI[of _ "pb_heap b"])

lemma moved_over_trans: "moved_over b n b1 \<Longrightarrow> moved_over b1 m b2 \<Longrightarrow> moved_over b (n + m) b2"
  by (auto simp: moved_over_def skip_def add.assoc)

lemma moved_over_sel:
  assumes "moved_over b n b'"
  shows "reliable b'" and "fits b'" and "remaining b' = drop n (remaining b)" and "depth b' = depth b"
  using assms by (auto simp: moved_over_def reliable_def remaining_def skip_def add.commute)

lemma new_item_reliable:
  assumes "reliable b"
  shows "\<exists>b'. new_item b = (Some blank_item, b') \<and> moved_over b 0 b'"
  using assms
  by (cases "pb_heap b" rule: allocate_cases)
    (auto simp: new_item_def cJSON_New_Item_def moved_over_def reliable_def fits_def)

lemma skip_blanks_moved:
  assumes "reliable b" and "remaining b = w @ x # r" and "blanks w" and "x > 32"
  shows "buffer_skip_whitespace b = Inr (skip (length w) b)" and "moved_over b (length w) (skip (length w) b)"
    and "remaining (skip (length w) b) = x # r"
  using assms skip_blanks[of b w x r] moved_over_skip[OF assms(1)] by (simp_all add: reliable_def)

definition follows :: "bytes \<Rightarrow> bool" where
  "follows r \<longleftrightarrow> r \<noteq> [] \<and> \<not> is_number_char (hd r)"

definition blank_like :: "cJSON \<Rightarrow> cJSON \<Rightarrow> bool" where
  "blank_like v it \<longleftrightarrow> valuestring it = None \<and> valueint it = 0 \<and> valuedouble it = Fin 0 \<and>
     c_string it = c_string v \<and> children it = []"

definition reads_back :: "cJSON \<Rightarrow> bool" where
  "reads_back v \<longleftrightarrow> (\<forall>b it fuel f d s r.
     reliable b \<and> remaining b = s @ r \<and> text_of f d v = Some s \<and> follows r \<and>
     depth b + nesting v \<le> CJSON_NESTING_LIMIT \<and> length s \<le> fuel \<and> blank_like v it \<longrightarrow>
     (\<exists>b'. parse_value fuel it b = Inr (Some v, b') \<and> moved_over b (length s) b'))"

text \<open>The literals are not what the other values start with.\<close>

lemma parse_value_other:
  assumes "fits b" and "remaining b = x # r" and "x \<notin> {110, 102, 116}"
  shows "parse_value (Suc fuel) it b =
    (if x = 34 then parse_string it b
     else if x = 45 \<or> is_digit x then parse_number it b
     else if x = 91 then
       cbind (enter 91 93 b) (\<lambda>r.
       case r of
         Inl b' \<Rightarrow> Inr (None, b')
       | Inr (True, b') \<Rightarrow> Inr (leave cJSON_Array it [] b')
       | Inr (False, b') \<Rightarrow>
           cbind (parse_elements fuel [] b') (\<lambda>(ch, b2).
           Inr (case ch of None \<Rightarrow> (None, b2) | Some xs \<Rightarrow> leave cJSON_Array it xs b2)))
     else if x = 123 then
       cbind (enter 123 125 b) (\<lambda>r.
       case r of
         Inl b' \<Rightarrow> Inr (None, b')
       | Inr (True, b') \<Rightarrow> Inr (leave cJSON_Object it [] b')
       | Inr (False, b') \<Rightarrow>
           cbind (parse_members fuel [] b') (\<lambda>(ch, b2).
           Inr (case ch of None \<Rightarrow> (None, b2) | Some xs \<Rightarrow> leave cJSON_Object it xs b2)))
     else Inr (None, b))"
  using assms by (simp add: starts_with_remaining access_iff at_offset_remaining)

definition entered :: "nat \<Rightarrow> parse_buffer \<Rightarrow> parse_buffer" where
  "entered n b = (skip n b)\<lparr>depth := depth b + 1\<rparr>"

lemma entered_sel [simp]:
  "reliable (entered n b) = reliable b" "remaining (entered n b) = drop n (remaining b)"
  "depth (entered n b) = depth b + 1" "offset (entered n b) = offset b + n"
  by (simp_all add: entered_def reliable_def fits_def remaining_def skip_def add.commute)

lemma enter_text:
  assumes "reliable b" and "depth b < CJSON_NESTING_LIMIT" and "remaining b = opn # w @ y # r"
    and "blanks w" and "y > 32"
  shows "enter opn cls b =
    Inr (Inr (y = cls, if y = cls then entered (1 + length w) b else entered (length w) b))"
proof -
  let ?b1 = "b\<lparr>depth := depth b + 1\<rparr>"
  have b1: "fits ?b1" "remaining ?b1 = opn # w @ y # r" "reliable ?b1"
    using assms(1,3) by (simp_all add: reliable_def fits_def remaining_def)
  have s: "buffer_skip_whitespace (skip 1 ?b1) = Inr (skip (1 + length w) ?b1)"
    "remaining (skip (1 + length w) ?b1) = y # r"
    using skip_blanks[of "skip 1 ?b1" w y r] b1(1,2) assms(4,5) by simp_all
  have l: "looking_at ?b1 opn = Inr True" "looking_at (skip (1 + length w) ?b1) cls = Inr (y = cls)"
    using looking_at_remaining[OF b1(1,2)] looking_at_remaining[of "skip (1 + length w) ?b1" y r] b1(1) s(2) by simp_all
  have a: "can_access_at_index (skip (1 + length w) ?b1) 0"
    using access_iff[of "skip (1 + length w) ?b1" 0] b1(1) s(2) by (simp del: remaining_skip)
  have e: "?b1\<lparr>offset := offset b + 1\<rparr> = skip 1 ?b1" by (simp add: skip_def)
  show ?thesis using assms(2) s l a
    by (simp add: enter_def Let_def e del: skip_simps(2)) (simp add: entered_def skip_def)
qed

lemma leave_entered:
  assumes "moved_over (entered n b) m b'" and "blank_like v it" and "v = Item t None 0 (Fin 0) nm ch"
  shows "\<exists>b2. leave t it ch b' = (Some v, b2) \<and> moved_over b (n + m + 1) b2"
proof -
  obtain h where b': "b' = (skip m (entered n b))\<lparr>pb_heap := h\<rparr>" and r: "reliable b'"
    using assms(1) by (auto simp: moved_over_def)
  define b2 where "b2 = b'\<lparr>depth := depth b' - 1, offset := offset b' + 1\<rparr>"
  have "leave t it ch b' = (Some v, b2)"
    using assms(2,3) by (simp add: leave_def set_children_def blank_like_def b2_def)
  moreover have "b2 = (skip (n + m + 1) b)\<lparr>pb_heap := h\<rparr>"
    by (simp add: b2_def b' entered_def skip_def)
  moreover have "reliable b2" using r by (simp add: b2_def reliable_def fits_def)
  ultimately show ?thesis by (auto simp: moved_over_def)
qed

lemma reads_backD:
  assumes "reads_back v" and "reliable b" and "remaining b = s @ r" and "text_of f d v = Some s" and "follows r"
    and "depth b + nesting v \<le> CJSON_NESTING_LIMIT" and "length s \<le> fuel" and "blank_like v it"
  obtains b' where "parse_value fuel it b = Inr (Some v, b')" and "moved_over b (length s) b'"
  using assms unfolding reads_back_def by blast

text \<open>A new item, and the step to the next character that is not white space.\<close>

lemma next_item:
  assumes "reliable b" and "drop 1 (remaining b) = w @ q" and "blanks w" and "q \<noteq> []" and "hd q > 32"
  obtains b1 b2 where "new_item b = (Some blank_item, b1)"
    and "buffer_skip_whitespace (b1\<lparr>offset := offset b1 + 1\<rparr>) = Inr b2"
    and "moved_over b (1 + length w) b2" and "remaining b2 = q"
proof -
  obtain b1 where b1: "new_item b = (Some blank_item, b1)" "moved_over b 0 b1"
    using new_item_reliable[OF assms(1)] by blast
  have r1: "reliable (skip 1 b1)" and m1: "moved_over b (0 + 1) (skip 1 b1)"
    using moved_over_sel(1)[OF moved_over_skip[OF moved_over_sel(1)[OF b1(2)]]]
      moved_over_trans[OF b1(2) moved_over_skip[OF moved_over_sel(1)[OF b1(2)]]] .
  have "remaining (skip 1 b1) = w @ hd q # tl q"
    using moved_over_sel(3)[OF m1] assms(2,4) by simp
  note sk = skip_blanks_moved[OF r1 this assms(3,5)]
  show thesis
  proof (rule that[OF b1(1)])
    show "buffer_skip_whitespace (b1\<lparr>offset := offset b1 + 1\<rparr>) = Inr (skip (length w) (skip 1 b1))"
      unfolding offset_Suc by (rule sk(1))
    show "moved_over b (1 + length w) (skip (length w) (skip 1 b1))"
      using moved_over_trans[OF m1 sk(2)] by (simp only: add_0)
    show "remaining (skip (length w) (skip 1 b1)) = q" using sk(3) list.collapse[OF assms(4)] by (simp only:)
  qed
qed

text \<open>White space that is not there.\<close>

lemma no_blanks:
  assumes "reliable b" and "remaining b \<noteq> []" and "hd (remaining b) > 32"
  shows "buffer_skip_whitespace b = Inr b"
  using skip_blanks_moved(1)[OF assms(1), of "[]" "hd (remaining b)" "tl (remaining b)"] assms(2,3) by simp

text \<open>What follows an element or a member: a comma and the next one, or the closing bracket.\<close>

definition after_item :: "u8 \<Rightarrow> parse_buffer \<Rightarrow> (parse_buffer \<Rightarrow> 'r cres) \<Rightarrow> (parse_buffer \<Rightarrow> 'r cres) \<Rightarrow>
    (parse_buffer \<Rightarrow> 'r cres) \<Rightarrow> 'r cres" where
  "after_item cls b again last_one fail =
     cbind (buffer_skip_whitespace b) (\<lambda>b. cbind (looking_at b 44) (\<lambda>comma.
     if comma then again b else cbind (looking_at b cls) (\<lambda>c. if c then last_one b else fail b)))"

lemma item_continues:
  assumes "reliable b" and "remaining b = 44 # r"
  shows "after_item cls b again last_one fail = again b"
proof -
  have "fits b" using assms(1) by (simp add: reliable_def)
  then show ?thesis
    using no_blanks[OF assms(1)] looking_at_remaining[OF _ assms(2)] assms(2) by (simp add: after_item_def)
qed

lemma item_closes:
  assumes "reliable b" and "remaining b = w @ cls # r" and "blanks w" and "cls > 32" and "cls \<noteq> 44"
  shows "\<exists>b'. after_item cls b again last_one fail = last_one b' \<and> moved_over b (length w) b'"
proof -
  let ?b = "skip (length w) b"
  note sk = skip_blanks_moved[OF assms(1-4)]
  have "fits ?b" by (rule moved_over_sel(2)[OF sk(2)])
  then have "after_item cls b again last_one fail = last_one ?b"
    using sk(1) looking_at_remaining[OF _ sk(3)] assms(5) by (simp add: after_item_def)
  then show ?thesis using sk(2) by blast
qed

text \<open>The rest of an array, from the character in front of an element.\<close>

lemma parse_elements_text:
  assumes "reliable b" and "drop 1 (remaining b) = w @ s @ 93 # r" and "blanks w" and "xs \<noteq> []"
    and "texts_of f d xs = Some s" and "length s + 1 \<le> fuel"
    and "\<forall>x \<in> set xs. reads_back x \<and> parsed x \<and> c_string x = None \<and> depth b + nesting x \<le> CJSON_NESTING_LIMIT"
  shows "\<exists>b'. parse_elements fuel acc b = Inr (Some (acc @ xs), b') \<and> moved_over b (1 + length w + length s) b'"
  using assms
proof (induction xs arbitrary: b w s fuel acc)
  case (Cons x xs)
  have x: "reads_back x" "parsed x" "c_string x = None" "depth b + nesting x \<le> CJSON_NESTING_LIMIT"
    using Cons.prems(7) by simp_all
  obtain a where a: "text_of f d x = Some a" using Cons.prems(5) by (auto split: option.splits)
  obtain t where t: "texts_of f d xs = Some t" "s = a @ (if xs \<noteq> [] then sep f [44] [32] else []) @ t"
    using Cons.prems(5) a by (auto split: option.splits)
  obtain k where k: "fuel = Suc k" using Cons.prems(6) by (cases fuel) auto
  define tail where "tail = (if xs \<noteq> [] then sep f [44] [32] @ t else []) @ 93 # r"
  have tail: "s @ 93 # r = a @ tail" using t by (cases "xs = []") (auto simp: tail_def)
  have start: "a @ tail \<noteq> []" "hd (a @ tail) > 32" using text_starts[OF x(2) a] by (auto simp: starts_value_def)
  obtain b1 b2 where b1: "new_item b = (Some blank_item, b1)"
    "buffer_skip_whitespace (b1\<lparr>offset := offset b1 + 1\<rparr>) = Inr b2" and m2: "moved_over b (1 + length w) b2"
    and rem: "remaining b2 = a @ tail"
    using next_item[OF Cons.prems(1) _ Cons.prems(3) start] Cons.prems(2) tail by auto
  have ft: "follows tail" by (auto simp: follows_def tail_def sep_def is_number_char_def is_digit_def)
  have "blank_like x blank_item" using x(3) by (simp add: blank_like_def blank_item_def)
  moreover have "depth b2 + nesting x \<le> CJSON_NESTING_LIMIT" using x(4) moved_over_sel(4)[OF m2] by simp
  moreover have "length a \<le> k" using Cons.prems(6) k t(2) by simp
  ultimately obtain b3 where b3: "parse_value k blank_item b2 = Inr (Some x, b3)" "moved_over b2 (length a) b3"
    using reads_backD[OF x(1) moved_over_sel(1)[OF m2] rem a ft] by blast
  have m3: "moved_over b (1 + length w + length a) b3" using moved_over_trans[OF m2 b3(2)] .
  have r3: "reliable b3" "fits b3" "remaining b3 = tail" "depth b3 = depth b"
    using moved_over_sel[OF b3(2)] rem moved_over_sel(4)[OF m2] by simp_all
  have step: "parse_elements fuel acc b = after_item 93 b3 (parse_elements k (acc @ [x]))
      (\<lambda>b4. Inr (Some (acc @ [x]), b4)) (\<lambda>b4. Inr (None, delete_items (acc @ [x]) b4))"
    using b1 b3(1) by (simp add: k after_item_def)
  show ?case
  proof (cases "xs = []")
    case True
    then have "remaining b3 = [] @ 93 # r" "s = a" using r3(3) t by (simp_all add: tail_def)
    then obtain b4 where b4: "parse_elements fuel acc b = Inr (Some (acc @ [x]), b4)" "moved_over b3 0 b4"
      using item_closes[OF r3(1), of "[]" 93 r] unfolding step by fastforce
    then show ?thesis using moved_over_trans[OF m3 b4(2)] True \<open>s = a\<close> by simp
  next
    case False
    define w' where "w' = (if f then [32 :: u8] else [])"
    have r: "remaining b3 = 44 # w' @ t @ 93 # r" "s = a @ 44 # w' @ t" "blanks w'"
      using r3(3) t(2) False by (auto simp: tail_def sep_def w'_def)
    have "\<exists>b'. parse_elements k (acc @ [x]) b3 = Inr (Some ((acc @ [x]) @ xs), b') \<and>
        moved_over b3 (1 + length w' + length t) b'"
      by (rule Cons.IH[of b3 w' t]) (use r3(1,2,4) r False t(1) Cons.prems(6,7) k in simp_all)
    then obtain b' where b': "parse_elements k (acc @ [x]) b3 = Inr (Some (acc @ x # xs), b')"
      "moved_over b3 (1 + length w' + length t) b'" by auto
    have "moved_over b (1 + length w + length s) b'"
      using moved_over_trans[OF m3 b'(2)] r(2) by (simp add: add.assoc)
    then show ?thesis using b'(1) unfolding step item_continues[OF r3(1) r(1)] by simp
  qed
qed simp

text \<open>The rest of an object, from the character in front of a name.\<close>

definition member_text :: "bool \<Rightarrow> cJSON \<Rightarrow> bytes \<Rightarrow> bytes" where
  "member_text f x a = quoted (c_string x) @ 58 # (if f then [9] else []) @ a"

lemma follows_blanks: "blanks w \<Longrightarrow> \<not> is_number_char x \<Longrightarrow> follows (w @ x # r)"
proof (cases w)
  case (Cons y w')
  assume "blanks w"
  then have "y \<le> 32" by (simp add: Cons)
  then have "\<not> is_number_char y" by (auto simp: is_number_char_def is_digit_def word_le_nat_alt)
  then show ?thesis by (simp add: follows_def Cons)
qed (simp add: follows_def)

lemma members_tabs: "members_of f d xs = Some t \<Longrightarrow> xs \<noteq> [] \<Longrightarrow> \<exists>s. t = tabs f d @ s"
  by (cases xs) (auto split: option.splits)

lemma parse_member_step:
  assumes "reliable b" and "drop 1 (remaining b) = w @ member_text f x a @ tail" and "blanks w"
    and "reads_back x" and "parsed x" and "depth b + nesting x \<le> CJSON_NESTING_LIMIT"
    and "c_string x = Some key" and "0 \<notin> set key" and "text_of f d x = Some a" and "follows tail" and "length a \<le> k"
  obtains b6 where "moved_over b (1 + length w + length (member_text f x a)) b6" and "remaining b6 = tail"
    and "parse_members (Suc k) acc b = cbind (buffer_skip_whitespace b6) (\<lambda>b7.
      cbind (looking_at b7 44) (\<lambda>comma.
      if comma then parse_members k (acc @ [x]) b7
      else cbind (looking_at b7 125) (\<lambda>closed.
        if closed then Inr (Some (acc @ [x]), b7) else Inr (None, delete_items (acc @ [x]) b7))))"
proof -
  define v where "v = (if f then [9 :: u8] else [])"
  have v: "blanks v" by (simp add: v_def)
  have mt: "member_text f x a @ tail = quoted (Some key) @ 58 # v @ a @ tail"
    by (simp add: member_text_def assms(7) v_def)
  have start: "a \<noteq> []" "hd a > 32" using text_starts[OF assms(5,9)] by (auto simp: starts_value_def)
  have q: "quoted (Some key) \<noteq> []" "hd (quoted (Some key)) = 34" by (simp_all add: quoted_def)
  obtain b1 b2 where b1: "new_item b = (Some blank_item, b1)"
    "buffer_skip_whitespace (b1\<lparr>offset := offset b1 + 1\<rparr>) = Inr b2" and m2: "moved_over b (1 + length w) b2"
    and rem2: "remaining b2 = quoted (Some key) @ 58 # v @ a @ tail"
    using next_item[OF assms(1) _ assms(3), of "quoted (Some key) @ 58 # v @ a @ tail"] assms(2) mt q by auto
  obtain b3 where b3: "parse_string blank_item b2 = Inr (Some (Item cJSON_String (Some key) 0 (Fin 0) None []), b3)"
    "moved_over b2 (length (quoted (Some key))) b3"
    using parse_string_text[OF moved_over_sel(1)[OF m2] rem2 assms(8), of blank_item] by (auto simp: blank_item_def)
  note r3 = moved_over_sel[OF b3(2)]
  have rem3: "remaining b3 = 58 # v @ a @ tail" using r3(3) rem2 by simp
  have ws3: "buffer_skip_whitespace b3 = Inr b3" using no_blanks[OF r3(1)] rem3 by simp
  define b5 where "b5 = skip (length v) (skip 1 b3)"
  have "reliable (skip 1 b3)" "remaining (skip 1 b3) = v @ hd a # tl a @ tail"
    using moved_over_sel(1)[OF moved_over_skip[OF r3(1)]] rem3 start(1) by simp_all
  note s5 = skip_blanks_moved[OF this v start(2), folded b5_def]
  have ws5: "buffer_skip_whitespace (b3\<lparr>offset := offset b3 + 1\<rparr>) = Inr b5" using s5(1) by (simp only: skip_def)
  have m5: "moved_over b3 (1 + length v) b5" using moved_over_trans[OF moved_over_skip[OF r3(1)] s5(2)] .
  have rem5: "remaining b5 = a @ tail" using s5(3) list.collapse[OF start(1)] by (simp flip: append_Cons)
  have d5: "depth b5 + nesting x \<le> CJSON_NESTING_LIMIT" "reliable b5"
    using moved_over_sel[OF m5] r3(4) moved_over_sel(4)[OF m2] assms(6) by simp_all
  have "blank_like x (Item cJSON_String None 0 (Fin 0) (Some key) [])" by (simp add: blank_like_def assms(7))
  then obtain b6 where b6: "parse_value k (Item cJSON_String None 0 (Fin 0) (Some key) []) b5 = Inr (Some x, b6)"
    "moved_over b5 (length a) b6"
    using reads_backD[OF assms(4) d5(2) rem5 assms(9,10) d5(1) assms(11)] by blast
  show thesis
  proof (rule that)
    show "moved_over b (1 + length w + length (member_text f x a)) b6"
      using moved_over_trans[OF moved_over_trans[OF moved_over_trans[OF m2 b3(2)] m5] b6(2)]
      by (simp add: member_text_def assms(7) v_def add.assoc)
    show "remaining b6 = tail" using moved_over_sel(3)[OF b6(2)] rem5 by simp
  qed (use b1 b3(1) ws3 looking_at_remaining[OF r3(2) rem3] ws5 b6(1) in \<open>simp add: name_item_def Let_def\<close>)
qed

lemma parse_members_text:
  assumes "reliable b" and "drop 1 (remaining b) = w @ s @ w1 @ 125 # r" and "blanks w" and "blanks w1"
    and "xs \<noteq> []" and "members_of f d xs = Some (tabs f d @ s)" and "length s + 1 \<le> fuel"
    and "\<forall>x \<in> set xs. reads_back x \<and> parsed x \<and> plain_string (c_string x) \<and>
      depth b + nesting x \<le> CJSON_NESTING_LIMIT"
  shows "\<exists>b'. parse_members fuel acc b = Inr (Some (acc @ xs), b') \<and>
    moved_over b (1 + length w + length s + length w1) b'"
  using assms
proof (induction xs arbitrary: b w s fuel acc)
  case (Cons x xs)
  have x: "reads_back x" "parsed x" "depth b + nesting x \<le> CJSON_NESTING_LIMIT" using Cons.prems(8) by simp_all
  obtain key where key: "c_string x = Some key" "0 \<notin> set key"
    using Cons.prems(8) by (auto simp: plain_string_def split: option.splits)
  obtain a where a: "text_of f d x = Some a" using Cons.prems(6) by (auto split: option.splits)
  obtain t where t: "members_of f d xs = Some t" "s = member_text f x a @ after_member f (xs \<noteq> []) @ t"
    using Cons.prems(6) a by (auto simp: member_text_def sep_def split: option.splits)
  obtain k where k: "fuel = Suc k" using Cons.prems(7) by (cases fuel) auto
  define tail where "tail = after_member f (xs \<noteq> []) @ t @ w1 @ 125 # r"
  define nl where "nl = (if f then [10 :: u8] else [])"
  have nl: "blanks nl" by (simp add: nl_def)
  have tail_cases: "tail = (if xs = [] then (nl @ w1) @ 125 # r else 44 # nl @ t @ w1 @ 125 # r)"
    using t(1) by (auto simp: tail_def after_member_def nl_def)
  have ft: "follows tail"
    using follows_blanks[of "nl @ w1" 125 r] follows_blanks[of "[]" 44 "nl @ t @ w1 @ 125 # r"] nl Cons.prems(4)
    by (simp add: tail_cases is_number_char_def is_digit_def)
  have "drop 1 (remaining b) = w @ member_text f x a @ tail" "length a \<le> k"
    using Cons.prems(2,7) k by (simp_all add: t(2) tail_def member_text_def)
  then obtain b6 where m6: "moved_over b (1 + length w + length (member_text f x a)) b6" and rem6: "remaining b6 = tail"
    and step: "parse_members fuel acc b = after_item 125 b6 (parse_members k (acc @ [x]))
      (\<lambda>b7. Inr (Some (acc @ [x]), b7)) (\<lambda>b7. Inr (None, delete_items (acc @ [x]) b7))"
    using parse_member_step[OF Cons.prems(1) _ Cons.prems(3) x key a ft, of k acc] k
    unfolding after_item_def by blast
  have r6: "reliable b6" "fits b6" "remaining b6 = tail" "depth b6 = depth b"
    using moved_over_sel[OF m6] rem6 by simp_all
  show ?case
  proof (cases "xs = []")
    case True
    then have r: "remaining b6 = (nl @ w1) @ 125 # r" "blanks (nl @ w1)"
      using r6(3) nl Cons.prems(4) by (simp_all add: tail_cases)
    obtain b7 where b7: "parse_members fuel acc b = Inr (Some (acc @ [x]), b7)" "moved_over b6 (length (nl @ w1)) b7"
      using item_closes[OF r6(1) r] unfolding step by fastforce
    have "length s + length w1 = length (member_text f x a) + length (nl @ w1)"
      using t True by (simp add: after_member_def nl_def)
    then have "moved_over b (1 + length w + length s + length w1) b7"
      using moved_over_trans[OF m6 b7(2)] by (simp add: add.assoc)
    then show ?thesis using True b7(1) by simp
  next
    case False
    obtain s' where s': "t = tabs f d @ s'" using members_tabs[OF t(1) False] by blast
    have r7: "remaining b6 = 44 # (nl @ tabs f d) @ s' @ w1 @ 125 # r"
      using r6(3) False by (simp add: tail_cases s')
    have len: "length s = length (member_text f x a) + 1 + length (nl @ tabs f d) + length s'"
      using t(2) False s' by (simp add: after_member_def nl_def)
    have "\<exists>b'. parse_members k (acc @ [x]) b6 = Inr (Some ((acc @ [x]) @ xs), b') \<and>
        moved_over b6 (1 + length (nl @ tabs f d) + length s' + length w1) b'"
    proof (rule Cons.IH[OF r6(1) _ _ Cons.prems(4) False])
      show "drop 1 (remaining b6) = (nl @ tabs f d) @ s' @ w1 @ 125 # r" using r7 by simp
      show "length s' + 1 \<le> k" using Cons.prems(7) k len by simp
    qed (use nl t(1) s' Cons.prems(8) r6(4) in simp_all)
    then obtain b' where b': "parse_members k (acc @ [x]) b6 = Inr (Some (acc @ x # xs), b')"
      "moved_over b6 (1 + length (nl @ tabs f d) + length s' + length w1) b'" by auto
    have "moved_over b (1 + length w + length s + length w1) b'"
      using moved_over_trans[OF m6 b'(2)] len by (simp add: add.assoc)
    then show ?thesis using b'(1) unfolding step item_continues[OF r6(1) r7] by simp
  qed
qed simp

lemma moved_over_depth: "moved_over b n b' \<Longrightarrow> reliable b' \<and> depth b' = depth b"
  by (simp add: moved_over_sel)

lemma parse_array_text:
  assumes b: "reliable b" "remaining b = ([91] @ s @ [93]) @ r" "depth b < CJSON_NESTING_LIMIT"
    and v: "v = Item cJSON_Array None 0 (Fin 0) nm ch" "blank_like v it" and s: "texts_of f d ch = Some s"
    and fuel: "length s + 1 \<le> fuel"
    and ch: "\<forall>x \<in> set ch. reads_back x \<and> parsed x \<and> c_string x = None \<and>
      Suc (depth b) + nesting x \<le> CJSON_NESTING_LIMIT"
  shows "\<exists>b'. parse_value (Suc fuel) it b = Inr (Some v, b') \<and> moved_over b (length ([91] @ s @ [93])) b'"
proof -
  have fits: "fits b" using b(1) by (simp add: reliable_def)
  have rem: "remaining b = 91 # s @ 93 # r" using b(2) by simp
  have other: "(91 :: u8) \<notin> {110, 102, 116}" "\<not> is_digit 91" by (simp_all add: is_digit_def)
  show ?thesis
  proof (cases "ch = []")
    case True
    then have "remaining b = 91 # [] @ 93 # r" using rem s by simp
    then have e: "enter 91 93 b = Inr (Inr (True, entered 1 b))" using enter_text[OF b(1,3), of 91 "[]" 93 r 93] by simp
    have "moved_over (entered 1 b) 0 (entered 1 b)" using moved_over_refl b(1) by simp
    then obtain b2 where "leave cJSON_Array it [] (entered 1 b) = (Some v, b2)" "moved_over b (1 + 0 + 1) b2"
      using leave_entered[OF _ v(2), of 1 b 0 _ cJSON_Array nm "[]"] v(1) True by blast
    then show ?thesis using parse_value_other[OF fits rem other(1), of fuel it] e other(2) s True by (simp del: parse_value.simps)
  next
    case False
    then obtain x xs where xs: "ch = x # xs" by (cases ch) auto
    then obtain a q where "text_of f d x = Some a" "s = a @ q" using s by (auto split: option.splits)
    then have s': "s \<noteq> []" "hd s > 32" "hd s \<noteq> 93"
      using text_starts[of x f d a] ch xs by (auto simp: starts_value_def)
    then have "remaining b = 91 # [] @ hd s # tl s @ 93 # r" using rem by simp
    then have e: "enter 91 93 b = Inr (Inr (False, entered 0 b))"
      using enter_text[OF b(1,3), of 91 "[]" "hd s" "tl s @ 93 # r" 93] s'(2,3) by simp
    obtain b' where b': "parse_elements fuel [] (entered 0 b) = Inr (Some ch, b')"
      "moved_over (entered 0 b) (1 + length s) b'"
      using parse_elements_text[of "entered 0 b" "[]" s r ch f d fuel "[]"] b(1) rem False s fuel ch by auto
    then obtain b2 where "leave cJSON_Array it ch b' = (Some v, b2)" "moved_over b (0 + (1 + length s) + 1) b2"
      using leave_entered[OF b'(2) v(2)] v(1) by blast
    then show ?thesis using parse_value_other[OF fits rem other(1), of fuel it] e other(2) b'(1) by (simp del: parse_value.simps)
  qed
qed

lemma parse_object_text:
  assumes b: "reliable b" "remaining b = (sep f [123] [10] @ s @ tabs f d @ [125]) @ r" "depth b < CJSON_NESTING_LIMIT"
    and v: "v = Item cJSON_Object None 0 (Fin 0) nm ch" "blank_like v it" and s: "members_of f (d + 1) ch = Some s"
    and fuel: "length s + 1 \<le> fuel"
    and ch: "\<forall>x \<in> set ch. reads_back x \<and> parsed x \<and> plain_string (c_string x) \<and>
      Suc (depth b) + nesting x \<le> CJSON_NESTING_LIMIT"
  shows "\<exists>b'. parse_value (Suc fuel) it b = Inr (Some v, b') \<and>
    moved_over b (length (sep f [123] [10] @ s @ tabs f d @ [125])) b'"
proof -
  define nl where "nl = (if f then [10 :: u8] else [])"
  have opn: "sep f [123] [10] = 123 # nl" by (simp add: sep_def nl_def)
  have nl: "blanks nl" by (simp add: nl_def)
  have fits: "fits b" using b(1) by (simp add: reliable_def)
  have rem: "remaining b = 123 # nl @ s @ tabs f d @ 125 # r" using b(2) by (simp add: opn)
  have other: "(123 :: u8) \<notin> {110, 102, 116}" "\<not> is_digit 123" by (simp_all add: is_digit_def)
  note val = parse_value_other[OF fits rem other(1), of fuel it]
  show ?thesis unfolding opn
  proof (cases "ch = []")
    case True
    define n where "n = 1 + length (nl @ tabs f d)"
    have "remaining b = 123 # (nl @ tabs f d) @ 125 # r" using rem s True by simp
    then have e: "enter 123 125 b = Inr (Inr (True, entered n b))"
      using enter_text[OF b(1,3), of 123 "nl @ tabs f d" 125 r 125] nl by (simp add: n_def)
    have "moved_over (entered n b) 0 (entered n b)" using moved_over_refl b(1) by simp
    then obtain b2 where "leave cJSON_Object it [] (entered n b) = (Some v, b2)" "moved_over b (n + 0 + 1) b2"
      using leave_entered[OF _ v(2), of n b 0 _ cJSON_Object nm "[]"] v(1) True by blast
    then show "\<exists>b'. parse_value (Suc fuel) it b = Inr (Some v, b') \<and>
        moved_over b (length ((123 # nl) @ s @ tabs f d @ [125])) b'"
      using val e other(2) s True by (simp add: n_def del: parse_value.simps)
  next
    case False
    then obtain s' where s': "s = tabs f (d + 1) @ s'" using members_tabs[OF s] by blast
    obtain x xs where xs: "ch = x # xs" using False by (cases ch) auto
    then obtain q where q: "s' = 34 # q"
      using s ch s' by (auto simp: quoted_def plain_string_def split: option.splits)
    define w where "w = nl @ tabs f (d + 1)"
    have w: "blanks w" using nl by (simp add: w_def)
    have remw: "remaining b = 123 # w @ 34 # q @ tabs f d @ 125 # r" using rem by (simp add: s' q w_def)
    have e: "enter 123 125 b = Inr (Inr (False, entered (length w) b))"
      using enter_text[OF b(1,3) remw w] by simp
    have "drop 1 (remaining (entered (length w) b)) = [] @ s' @ tabs f d @ 125 # r"
      using remw by (simp add: q add.commute flip: drop_Suc)
    then obtain b' where b': "parse_members fuel [] (entered (length w) b) = Inr (Some ch, b')"
      "moved_over (entered (length w) b) (1 + length s' + length (tabs f d)) b'"
      using parse_members_text[of "entered (length w) b" "[]" s' "tabs f d" r ch f "d + 1" fuel "[]"] b(1) False s s' fuel ch
      by auto
    then obtain b2 where "leave cJSON_Object it ch b' = (Some v, b2)"
      "moved_over b (length w + (1 + length s' + length (tabs f d)) + 1) b2"
      using leave_entered[OF b'(2) v(2)] v(1) by blast
    then show "\<exists>b'. parse_value (Suc fuel) it b = Inr (Some v, b') \<and>
        moved_over b (length ((123 # nl) @ s @ tabs f d @ [125])) b'"
      using val e other(2) b'(1) by (simp add: s' w_def add.assoc del: parse_value.simps)
  qed
qed

lemma parse_literal_text:
  assumes "reliable b" and "remaining b = s @ r" and "text_of f d v = Some s" and "parsed v" and "blank_like v it"
    and "c_type v = cJSON_NULL \<or> c_type v = cJSON_False \<or> c_type v = cJSON_True"
  shows "parse_value (Suc fuel) it b = Inr (Some v, skip (length s) b)"
proof -
  obtain t vs vi vd nm ch where v: "v = Item t vs vi vd nm ch" by (cases v)
  have fits: "fits b" using assms(1) by (simp add: reliable_def)
  have l: "length s = 4" if "s = lit ''null'' \<or> s = lit ''true''" using that by auto
  have l': "length s = 5" if "s = lit ''false''" using that by simp
  consider "t = cJSON_NULL" "s = lit ''null''" | "t = cJSON_False" "s = lit ''false''" | "t = cJSON_True" "s = lit ''true''"
    using assms(3,6) by (auto simp: v json_types)
  then show ?thesis
  proof cases
    case 1
    then show ?thesis using assms l by (simp add: v starts_with_remaining[OF fits] with_type_def blank_like_def json_types skip_def)
  next
    case 2
    then show ?thesis using assms l' by (simp add: v starts_with_remaining[OF fits] with_type_def blank_like_def json_types skip_def)
  next
    case 3
    then show ?thesis using assms l by (simp add: v starts_with_remaining[OF fits] with_type_def blank_like_def json_types skip_def)
  qed
qed

text \<open>parse\_value reads back what the printer wrote.\<close>

lemma number_item_text:
  assumes b: "reliable b" "remaining b = s @ r" and v: "v = Item cJSON_Number vs vi vd nm ch" "parsed v"
    and s: "text_of f d v = Some s" and r: "follows r" and it: "blank_like v it"
  shows "\<exists>b'. parse_value (Suc k) it b = Inr (Some v, b') \<and> moved_over b (length s) b'"
proof -
  have fits: "fits b" using b(1) by (simp add: reliable_def)
  have v': "vs = None" "number_exact vi vd" "ch = []" using v by (simp_all add: json_types)
  have sd: "number_text v = Some s" using s by (simp add: v(1) json_types)
  have num: "strtod s = (vd, length s)" "number_like s" "length s \<le> 25" "number_to_int vd = Inr vi"
    using number_exact_text[OF v'(2), of cJSON_Number vs nm ch] sd v(1) by (metis option.inject)+
  obtain x r' where x: "r = x # r'" "\<not> is_number_char x" using r by (cases r) (auto simp: follows_def)
  have "s \<noteq> []" using num(2) by (simp add: number_like_def)
  then have rem: "remaining b = hd s # tl s @ r" using b(2) by simp
  have h: "hd s = 45 \<or> is_digit (hd s)" using num(2) by (simp add: number_like_def)
  then have "hd s \<notin> {110, 102, 116}" "hd s \<noteq> 34" by (auto simp: is_digit_def)
  then have "parse_value (Suc k) it b = parse_number it b"
    using parse_value_other[OF fits rem, of k it] h by (simp del: parse_value.simps)
  then show ?thesis
    using parse_number_text[OF b(1) _ x(2) num(2,3,1,4), of r' it] b(2) x(1) it v(1) v' by (simp add: blank_like_def)
qed

lemma string_item_text:
  assumes b: "reliable b" "remaining b = s @ r" and v: "v = Item cJSON_String vs vi vd nm ch" "parsed v"
    and s: "text_of f d v = Some s" and it: "blank_like v it"
  shows "\<exists>b'. parse_value (Suc k) it b = Inr (Some v, b') \<and> moved_over b (length s) b'"
proof -
  have fits: "fits b" using b(1) by (simp add: reliable_def)
  obtain c where c: "vs = Some c" "0 \<notin> set c" "vi = 0" "vd = Fin 0" "ch = []"
    using v by (auto simp: json_types plain_string_def split: option.splits)
  have sq: "s = quoted (Some c)" using s v(1) c by (simp add: json_types)
  then have "remaining b = 34 # tl s @ r" using b(2) by (simp add: quoted_def)
  then have "parse_value (Suc k) it b = parse_string it b"
    using parse_value_other[OF fits, of 34 "tl s @ r" k it] by (simp del: parse_value.simps)
  then show ?thesis
    using parse_string_text[OF b(1) _ c(2), of r it] b(2) it v(1) c by (simp add: sq blank_like_def)
qed

lemma parsed_reads_back: "parsed v \<Longrightarrow> reads_back v"
proof (induction v)
  case (Item t vs vi vd nm ch)
  let ?v = "Item t vs vi vd nm ch"
  show ?case unfolding reads_back_def
  proof (intro allI impI, elim conjE)
    fix b it fuel f d s r
    assume b: "reliable b" "remaining b = s @ r" and s: "text_of f d ?v = Some s" and r: "follows r"
      and depth: "depth b + nesting ?v \<le> CJSON_NESTING_LIMIT" and len: "length s \<le> fuel" and it: "blank_like ?v it"
    have s0: "s \<noteq> []" using text_starts[OF Item.prems s] by (simp add: starts_value_def)
    then obtain k where k: "fuel = Suc k" using len by (cases fuel) auto
    have nest: "depth b < CJSON_NESTING_LIMIT \<and> (\<forall>x \<in> set ch. Suc (depth b) + nesting x \<le> CJSON_NESTING_LIMIT)"
      if "t = cJSON_Array \<or> t = cJSON_Object"
      using depth that nesting_child[of _ ch] by fastforce
    consider (lit) "t = cJSON_NULL \<or> t = cJSON_False \<or> t = cJSON_True" | (num) "t = cJSON_Number"
      | (str) "t = cJSON_String" | (arr) "t = cJSON_Array" | (obj) "t = cJSON_Object"
      by (rule parsed_types[OF Item.prems]) blast+
    then show "\<exists>b'. parse_value fuel it b = Inr (Some ?v, b') \<and> moved_over b (length s) b'"
    proof cases
      case lit
      then show ?thesis using parse_literal_text[OF b s Item.prems it, of k] moved_over_skip[OF b(1)] k by auto
    next
      case num
      show ?thesis unfolding k
        by (rule number_item_text[OF b _ Item.prems s r it]) (simp add: num)
    next
      case str
      show ?thesis unfolding k
        by (rule string_item_text[OF b _ Item.prems s it]) (simp add: str)
    next
      case arr
      then obtain s' where s': "texts_of f (d + 1) ch = Some s'" "s = [91] @ s' @ [93]"
        using s by (auto simp: json_types)
      have ch: "\<forall>x \<in> set ch. reads_back x \<and> parsed x \<and> c_string x = None \<and>
          Suc (depth b) + nesting x \<le> CJSON_NESTING_LIMIT"
        using Item arr nest by (auto simp: json_types)
      have v: "?v = Item cJSON_Array None 0 (Fin 0) nm ch" using Item.prems arr by (simp add: json_types)
      show ?thesis unfolding k s'(2)
        by (rule parse_array_text[OF b(1) _ _ v it s'(1) _ ch]) (use b(2) s' nest arr len k in simp_all)
    next
      case obj
      then obtain s' where s': "members_of f (d + 1) ch = Some s'" "s = sep f [123] [10] @ s' @ tabs f d @ [125]"
        using s by (auto simp: json_types)
      have ch: "\<forall>x \<in> set ch. reads_back x \<and> parsed x \<and> plain_string (c_string x) \<and>
          Suc (depth b) + nesting x \<le> CJSON_NESTING_LIMIT"
        using Item obj nest by (auto simp: json_types)
      have v: "?v = Item cJSON_Object None 0 (Fin 0) nm ch" using Item.prems obj by (simp add: json_types)
      have "length s' + 1 \<le> k" using len k s'(2) by (cases f) (simp_all add: sep_def)
      then show ?thesis unfolding k s'(2)
        using b nest obj by (intro parse_object_text[OF b(1) _ _ v it s'(1) _ ch]) (simp_all add: s'(2))
    qed
  qed
qed

section \<open>From text to item\<close>

lemma fmt_d_no_NUL: "0 \<notin> set (fmt_d i)"
  by (simp add: fmt_d_def nat_digits_no_NUL)

lemma text_no_NUL: "parsed v \<Longrightarrow> text_of f d v = Some s \<Longrightarrow> 0 \<notin> set s"
proof (induction v arbitrary: d s)
  case (Item t vs vi vd nm ch)
  have sep: "0 \<notin> set (sep f a b)" if "0 \<notin> set a" "0 \<notin> set b" for a b
    using that by (simp add: sep_def)
  have lists: "(\<forall>y. texts_of f d' xs = Some y \<longrightarrow> 0 \<notin> set y) \<and> (\<forall>y. members_of f d' xs = Some y \<longrightarrow> 0 \<notin> set y)"
    if "\<forall>c \<in> set xs. \<forall>d s. text_of f d c = Some s \<longrightarrow> 0 \<notin> set s" for d' xs
    using that
  proof (induction xs)
    case (Cons x xs)
    then have x: "0 \<notin> set a" if "text_of f d' x = Some a" for a using that by simp
    have xs: "0 \<notin> set a" if "texts_of f d' xs = Some a \<or> members_of f d' xs = Some a" for a using Cons that by auto
    have c: "0 \<notin> set (sep f [44] [32])" "0 \<notin> set (sep f [58] [9])" "0 \<notin> set (tabs f d')"
      "0 \<notin> set (after_member f g)" for g
      by (simp_all add: sep tabs_def after_member_def)
    show ?case
    proof (intro conjI allI impI)
      fix y assume "texts_of f d' (x # xs) = Some y"
      then obtain a b where "text_of f d' x = Some a" "texts_of f d' xs = Some b"
        "y = a @ (if xs \<noteq> [] then sep f [44] [32] else []) @ b" by (auto split: option.splits)
      then show "0 \<notin> set y" using x[of a] xs[of b] c(1) by simp
    next
      fix y assume "members_of f d' (x # xs) = Some y"
      then obtain a b where "text_of f d' x = Some a" "members_of f d' xs = Some b"
        "y = tabs f d' @ quoted (c_string x) @ sep f [58] [9] @ a @ after_member f (xs \<noteq> []) @ b"
        by (auto split: option.splits)
      then show "0 \<notin> set y" using x[of a] xs[of b] c quoted_no_NUL[of "c_string x"] by simp
    qed
  qed simp
  have ch: "\<forall>c \<in> set ch. \<forall>d s. text_of f d c = Some s \<longrightarrow> 0 \<notin> set s" if "t = cJSON_Array \<or> t = cJSON_Object"
    using Item that by (auto simp: json_types)
  show ?case using Item.prems(1)
  proof (cases rule: parsed_types)
    case 4
    have n0: "0 \<notin> set y" if "number_like y" for y using that by (auto simp: number_like_def is_number_char_def is_digit_def)
    have "number_exact vi vd" using 4 Item.prems by (simp add: json_types)
    then show ?thesis using 4 Item.prems(2) n0 by (elim number_exact_text[of vi vd t vs nm ch]) (simp add: json_types)
  next
    case 6
    then obtain y where y: "texts_of f (d + 1) ch = Some y" "s = [91] @ y @ [93]"
      using Item.prems by (auto simp: json_types)
    then show ?thesis using lists[OF ch, of "d + 1"] 6 by simp
  next
    case 7
    then obtain y where y: "members_of f (d + 1) ch = Some y" "s = sep f [123] [10] @ y @ tabs f d @ [125]"
      using Item.prems by (auto simp: json_types)
    then show ?thesis using lists[OF ch, of "d + 1"] 7 sep[of "[123]" "[10]"] by (simp add: tabs_def)
  qed (use Item.prems quoted_no_NUL[of vs] in \<open>auto simp: json_types\<close>)
qed

lemma parsed_ok: "parsed v \<Longrightarrow> item_ok v"
proof (induction v)
  case (Item t vs vi vd nm ch)
  have zero: "double_ok (Fin 0)" "INT_MIN \<le> 0" "0 \<le> INT_MAX" "INT_MIN \<le> 1" "1 \<le> INT_MAX"
    by (simp_all add: double_ok_def INT_MIN_def INT_MAX_def)
  have num: "double_ok vd \<and> INT_MIN \<le> vi \<and> vi \<le> INT_MAX" if "number_exact vi vd"
    using that number_to_int_range[of vd vi] by (simp add: number_exact_def)
  show ?case using Item num zero by (auto split: if_splits)
qed

text \<open>White space before the end: the parser steps back to the terminator.\<close>

lemma blanks_to_the_end:
  assumes "reliable b" and "remaining b = [0]"
  shows "buffer_skip_whitespace b = Inr b"
proof -
  have f: "fits b" "fits (skip 1 b)" using assms(1) by (simp_all add: reliable_def)
  have l: "pb_length b - offset b = 1" using length_remaining[OF f(1)] assms(2) by simp
  have a: "can_access_at_index b 0" "at_offset b 0 = Inr 0" "\<not> can_access_at_index (skip 1 b) 0"
    using access_iff[OF f(1)] access_iff[OF f(2)] at_offset_remaining[OF f(1), of 0] assms(2) by simp_all
  have "ws_loop b = ws_loop (skip 1 b)" using a by (simp add: ws_loop.simps[of b] skip_def)
  also have "\<dots> = Inr (skip 1 b)" using a(3) by (subst ws_loop.simps) simp
  finally show ?thesis using a(1) l by (simp add: buffer_skip_whitespace_def skip_def)
qed

lemma parse_with_opts_text:
  assumes "parsed v" and "c_string v = None" and "nesting v \<le> CJSON_NESTING_LIMIT"
    and "text_of f d v = Some s" and "\<forall>i. h_ok h i"
  shows "\<exists>e h'. cJSON_ParseWithOpts (Some (s @ [0])) rq h = Inr (Some v, e, h')"
proof -
  let ?b0 = "\<lparr>content = s @ [0], pb_length = length s + 1, offset = 0, depth = 0, pb_heap = h\<rparr>"
  have st: "s \<noteq> []" "hd s > 32" "hd s < 128" using text_starts[OF assms(1,4)] by (simp_all add: starts_value_def)
  have n: "c_strlen (s @ [0]) = Inr (length s)" using text_no_NUL[OF assms(1,4)] by (simp add: c_strlen_def)
  have b0: "reliable ?b0" "remaining ?b0 = s @ [0]" using assms(5) by (simp_all add: reliable_def fits_def remaining_def)
  obtain b1 where b1: "new_item ?b0 = (Some blank_item, b1)" "moved_over ?b0 0 b1"
    using new_item_reliable[OF b0(1)] by blast
  note r1 = moved_over_sel[OF b1(2)]
  have rem: "remaining b1 = s @ [0]" "offset b1 = 0" "content b1 = s @ [0]" "depth b1 = 0"
    using r1(3,4) b0(2) b1(2) by (auto simp: moved_over_def)
  have "take 3 s \<noteq> [0xEF, 0xBB, 0xBF]"
    using st by (cases s) auto
  then have bom: "skip_utf8_bom b1 = Inr (Some b1)"
    using access_iff[OF r1(2), of 4] rem by (simp add: skip_utf8_bom_def slice_def)
  have ws: "buffer_skip_whitespace b1 = Inr b1" using no_blanks[OF r1(1)] rem(1) st by simp
  have "blank_like v blank_item" using assms(2) by (simp add: blank_like_def blank_item_def)
  moreover have "follows [0]" by (simp add: follows_def is_number_char_def is_digit_def)
  moreover have "length s \<le> parse_fuel (length s + 1)" by (simp add: parse_fuel_def)
  moreover have "depth b1 + nesting v \<le> CJSON_NESTING_LIMIT" using assms(3) rem(4) by simp
  ultimately obtain b2 where b2: "parse_value (parse_fuel (length s + 1)) blank_item b1 = Inr (Some v, b2)"
    "moved_over b1 (length s) b2"
    using reads_backD[OF parsed_reads_back[OF assms(1)] r1(1) rem(1) assms(4)] by blast
  have r2: "remaining b2 = [0]" using moved_over_sel(3)[OF b2(2)] rem(1) by simp
  note e = blanks_to_the_end[OF moved_over_sel(1)[OF b2(2)] r2] looking_at_remaining[OF moved_over_sel(2)[OF b2(2)] r2]
  show ?thesis using n b1(1) bom ws b2(1) e
    by (simp add: cJSON_ParseWithOpts_def cJSON_ParseWithLengthOpts_def del: parse_value.simps)
qed

end
