(* ===== verification/JsonMinify.thy ===== *)
theory JsonMinify
  imports JsonRoundTrip
begin

text \<open>
  cJSON\_Minify of src/cJSON.c: white space and comments are removed from a text in place, with a
  reading position \<open>j\<close> and a writing position \<open>i\<close> in the same block.  \<open>minified\<close> is what is written,
  as a function of the text; the lemmas show that the code computes it inside the block, and that
  the formatted text of an item becomes the unformatted one.
\<close>

section \<open>The code\<close>

function oneline_loop :: "bytes \<Rightarrow> nat \<Rightarrow> nat cres" where
  "oneline_loop m j =
     cbind (peek m j) (\<lambda>c.
     if c = 0 then Inr j else if c = 10 then Inr (j + 1) else oneline_loop m (j + 1))"
  by pat_completeness auto
termination by (relation "measure (\<lambda>(m, j). length m - j)") (auto simp: peek_eq_Inr_iff)

definition skip_oneline_comment :: "bytes \<Rightarrow> nat \<Rightarrow> nat cres" where
  "skip_oneline_comment m j = oneline_loop m (j + 2)"

function multiline_loop :: "bytes \<Rightarrow> nat \<Rightarrow> nat cres" where
  "multiline_loop m j =
     cbind (peek m j) (\<lambda>c.
     if c = 0 then Inr j
     else if c = 42 then
       cbind (peek m (j + 1)) (\<lambda>c1. if c1 = 47 then Inr (j + 2) else multiline_loop m (j + 1))
     else multiline_loop m (j + 1))"
  by pat_completeness auto
termination by (relation "measure (\<lambda>(m, j). length m - j)") (auto simp: peek_eq_Inr_iff)

definition skip_multiline_comment :: "bytes \<Rightarrow> nat \<Rightarrow> nat cres" where
  "skip_multiline_comment m j = multiline_loop m (j + 2)"

lemma poke_length: "poke m i b = Inr m' \<Longrightarrow> length m' = length m"
  by (auto simp: poke_eq_Inr_iff)

text \<open>The loop of minify\_string: the block and the two positions behind the string.\<close>

function string_loop :: "bytes \<Rightarrow> nat \<Rightarrow> nat \<Rightarrow> (bytes \<times> nat \<times> nat) cres" where
  "string_loop m j i =
     cbind (peek m j) (\<lambda>c.
     if c = 0 then Inr (m, j, i)
     else cbind (poke m i c) (\<lambda>m1.
       if c = 34 then Inr (m1, j + 1, i + 1)
       else if c = 92 then
         cbind (peek m1 (j + 1)) (\<lambda>c1.
         if c1 = 34 then cbind (poke m1 (i + 1) c1) (\<lambda>m2. string_loop m2 (j + 2) (i + 2))
         else string_loop m1 (j + 1) (i + 1))
       else string_loop m1 (j + 1) (i + 1)))"
  by pat_completeness auto
termination
  by (relation "measure (\<lambda>(m, j, i). length m - j)") (auto simp: peek_eq_Inr_iff dest!: poke_length)

definition minify_string :: "bytes \<Rightarrow> nat \<Rightarrow> nat \<Rightarrow> (bytes \<times> nat \<times> nat) cres" where
  "minify_string m j i =
     cbind (peek m j) (\<lambda>c. cbind (poke m i c) (\<lambda>m1. string_loop m1 (j + 1) (i + 1)))"

text \<open>
  The loop of cJSON\_Minify.  Its recursion is by fuel, because that the helpers move forward is
  only proved below; \<open>minify_loop_spec\<close> shows that the length of the block is enough.
\<close>

fun minify_loop :: "nat \<Rightarrow> bytes \<Rightarrow> nat \<Rightarrow> nat \<Rightarrow> bytes cres" where
  "minify_loop 0 m j i = Inl OutOfFuel"
| "minify_loop (Suc fuel) m j i =
     cbind (peek m j) (\<lambda>c.
     if c = 0 then poke m i 0
     else if c = 32 \<or> c = 9 \<or> c = 13 \<or> c = 10 then minify_loop fuel m (j + 1) i
     else if c = 47 then
       cbind (peek m (j + 1)) (\<lambda>c1.
       if c1 = 47 then cbind (skip_oneline_comment m j) (\<lambda>j'. minify_loop fuel m j' i)
       else if c1 = 42 then cbind (skip_multiline_comment m j) (\<lambda>j'. minify_loop fuel m j' i)
       else minify_loop fuel m (j + 1) i)
     else if c = 34 then cbind (minify_string m j i) (\<lambda>(m', j', i'). minify_loop fuel m' j' i')
     else cbind (poke m i c) (\<lambda>m'. minify_loop fuel m' (j + 1) (i + 1)))"

definition cJSON_Minify :: "bytes option \<Rightarrow> bytes option cres" where
  "cJSON_Minify json =
     (case json of None \<Rightarrow> Inr None | Some m \<Rightarrow> cbind (minify_loop (length m + 1) m 0 0) (\<lambda>m'. Inr (Some m')))"

section \<open>What is written\<close>

fun drop_line :: "bytes \<Rightarrow> bytes" where
  "drop_line [] = []"
| "drop_line (c # cs) = (if c = 10 then cs else drop_line cs)"

fun drop_comment :: "bytes \<Rightarrow> bytes" where
  "drop_comment [] = []"
| "drop_comment [c] = []"
| "drop_comment (c # d # cs) = (if c = 42 \<and> d = 47 then cs else drop_comment (d # cs))"

lemma drop_line_length: "length (drop_line cs) \<le> length cs"
  by (induction cs) auto

lemma drop_comment_length: "length (drop_comment cs) \<le> length cs"
  by (induction cs rule: drop_comment.induct) auto

function (sequential) minified :: "bytes \<Rightarrow> bytes" and in_string :: "bytes \<Rightarrow> bytes" where
  "minified [] = []"
| "minified (c # cs) =
     (if c = 32 \<or> c = 9 \<or> c = 13 \<or> c = 10 then minified cs
      else if c = 47 then
        (case cs of
           [] \<Rightarrow> []
         | d # ds \<Rightarrow> if d = 47 then minified (drop_line ds) else if d = 42 then minified (drop_comment ds)
                     else minified cs)
      else if c = 34 then 34 # in_string cs
      else c # minified cs)"
| "in_string [] = []"
| "in_string (c # cs) =
     (if c = 34 then 34 # minified cs
      else if c = 92 \<and> cs \<noteq> [] \<and> hd cs = 34 then 92 # 34 # in_string (tl cs)
      else c # in_string cs)"
  by pat_completeness auto
termination
  by (relation "measure (\<lambda>x. case x of Inl cs \<Rightarrow> length cs | Inr cs \<Rightarrow> length cs)")
    (auto simp: le_imp_less_Suc drop_line_length drop_comment_length le_SucI)

section \<open>The code writes it\<close>

declare oneline_loop.simps [simp del] multiline_loop.simps [simp del] string_loop.simps [simp del]

text \<open>The text from position \<open>j\<close> on, and one step along it.\<close>

definition from_pos :: "bytes \<Rightarrow> nat \<Rightarrow> bytes" where
  "from_pos m j = cstr (drop j m)"

definition terminated_from :: "bytes \<Rightarrow> nat \<Rightarrow> bool" where
  "terminated_from m j \<longleftrightarrow> 0 \<in> set (drop j m)"

lemma at_pos:
  assumes "terminated_from m j"
  shows "j < length m" and "peek m j = Inr (m ! j)"
    and "from_pos m j = (if m ! j = 0 then [] else m ! j # from_pos m (j + 1))"
    and "m ! j \<noteq> 0 \<Longrightarrow> terminated_from m (j + 1)"
proof -
  show j: "j < length m" using assms by (cases "j < length m") (auto simp: terminated_from_def)
  then have d: "drop j m = m ! j # drop (Suc j) m" by (simp add: Cons_nth_drop_Suc)
  show "peek m j = Inr (m ! j)" using j by (simp add: peek_def)
  show "from_pos m j = (if m ! j = 0 then [] else m ! j # from_pos m (j + 1))"
    by (simp add: from_pos_def cstr_def d)
  show "m ! j \<noteq> 0 \<Longrightarrow> terminated_from m (j + 1)" using assms by (simp add: terminated_from_def d)
qed

lemma write_behind:
  assumes "i \<le> j" and "j < length m"
  shows "poke m i c = Inr (m[i := c])" and "length (m[i := c]) = length m"
    and "take (i + 1) (m[i := c]) = take i m @ [c]" and "drop (j + 1) (m[i := c]) = drop (j + 1) m"
  using assms by (simp_all add: poke_def take_Suc_conv_app_nth)

lemma same_tail:
  assumes "drop j m' = drop j m"
  shows "from_pos m' j = from_pos m j" and "terminated_from m' j = terminated_from m j"
  using assms by (simp_all add: from_pos_def terminated_from_def)

lemma drop_mono: "drop j m' = drop j m \<Longrightarrow> j \<le> k \<Longrightarrow> drop k m' = drop k m"
  by (metis drop_drop le_add_diff_inverse2)

lemma oneline_loop_spec:
  assumes "terminated_from m j"
  shows "\<exists>j'. oneline_loop m j = Inr j' \<and> j \<le> j' \<and> terminated_from m j' \<and> from_pos m j' = drop_line (from_pos m j)"
  using assms
proof (induction "length m - j" arbitrary: j rule: less_induct)
  case less
  note a = at_pos[OF less.prems]
  show ?case
  proof (cases "m ! j = 0 \<or> m ! j = 10")
    case True
    then show ?thesis using a less.prems by (auto simp: oneline_loop.simps[of m j])
  next
    case False
    then have "terminated_from m (j + 1)" "length m - (j + 1) < length m - j" using a by auto
    then obtain j' where "oneline_loop m (j + 1) = Inr j'" "j + 1 \<le> j'" "terminated_from m j'"
      "from_pos m j' = drop_line (from_pos m (j + 1))" using less.hyps by blast
    then show ?thesis using False a(2,3) by (auto simp: oneline_loop.simps[of m j])
  qed
qed

lemma multiline_loop_spec:
  assumes "terminated_from m j"
  shows "\<exists>j'. multiline_loop m j = Inr j' \<and> j \<le> j' \<and> terminated_from m j' \<and>
    from_pos m j' = drop_comment (from_pos m j)"
  using assms
proof (induction "length m - j" arbitrary: j rule: less_induct)
  case less
  note a = at_pos[OF less.prems]
  show ?case
  proof (cases "m ! j = 0")
    case True
    then show ?thesis using a less.prems by (auto simp: multiline_loop.simps[of m j])
  next
    case False
    then have t: "terminated_from m (j + 1)" and l: "length m - (j + 1) < length m - j" using a by auto
    note b = at_pos[OF t]
    obtain j' where j': "multiline_loop m (j + 1) = Inr j'" "j + 1 \<le> j'" "terminated_from m j'"
      "from_pos m j' = drop_comment (from_pos m (j + 1))" using less.hyps[OF l t] by blast
    show ?thesis
    proof (cases "m ! j = 42 \<and> m ! (j + 1) = 47")
      case True
      then have "terminated_from m (j + 2)" using b(4) by simp
      then show ?thesis using True False a(2,3) b(2,3) by (auto simp: multiline_loop.simps[of m j])
    next
      case no: False
      then have "drop_comment (from_pos m j) = drop_comment (from_pos m (j + 1))"
        using False a(3) b(3) by auto
      then show ?thesis using no False j' a(2) b(2) by (auto simp: multiline_loop.simps[of m j])
    qed
  qed
qed

definition string_done :: "bytes \<Rightarrow> nat \<Rightarrow> nat \<Rightarrow> bytes \<Rightarrow> (bytes \<times> nat \<times> nat) cres \<Rightarrow> bool" where
  "string_done m j i target r \<longleftrightarrow>
     (\<exists>m' j' i' w. r = Inr (m', j', i') \<and> length m' = length m \<and> drop j' m' = drop j' m \<and> j \<le> j' \<and>
       i' \<le> j' \<and> terminated_from m j' \<and> take i' m' = take i m @ w \<and> target = w @ minified (from_pos m j') \<and>
       i' = i + length w)"

lemma string_done_step:
  assumes "string_done m1 (j + length w) (i + length w) t r" and "length m1 = length m"
    and "drop (j + length w) m1 = drop (j + length w) m" and "take (i + length w) m1 = take i m @ w"
  shows "string_done m j i (w @ t) r"
proof -
  obtain m' j' i' v where r: "r = Inr (m', j', i')" "length m' = length m1" "drop j' m' = drop j' m1"
    "j + length w \<le> j'" "i' \<le> j'" "terminated_from m1 j'" "take i' m' = take (i + length w) m1 @ v"
    "t = v @ minified (from_pos m1 j')" "i' = i + length w + length v"
    using assms(1) by (auto simp: string_done_def)
  have d: "drop j' m1 = drop j' m" using drop_mono[OF assms(3) r(4)] .
  show ?thesis unfolding string_done_def
    using r assms(2,4) same_tail[OF d] d by (intro exI[of _ m'] exI[of _ j'] exI[of _ i'] exI[of _ "w @ v"]) simp
qed

lemma string_loop_spec:
  assumes "terminated_from m j" and "i \<le> j"
  shows "string_done m j i (in_string (from_pos m j)) (string_loop m j i)"
  using assms
proof (induction "length m - j" arbitrary: m j i rule: less_induct)
  case less
  note a = at_pos[OF less.prems(1)]
  let ?c = "m ! j"
  show ?case
  proof (cases "?c = 0")
    case True
    then show ?thesis using a less.prems
      by (auto simp: string_loop.simps[of m j] string_done_def intro!: exI[of _ j])
  next
    case False
    define m1 where "m1 = m[i := ?c]"
    note w = write_behind[OF less.prems(2) a(1), of ?c, folded m1_def]
    have t1: "terminated_from m (j + 1)" using a(4)[OF False] .
    have same: "from_pos m1 (j + 1) = from_pos m (j + 1)" "terminated_from m1 (j + 1)"
      using same_tail[OF w(4)] t1 by simp_all
    note b = at_pos[OF same(2)]
    have more: "string_done m j i (?c # in_string (from_pos m (j + 1))) (string_loop m1 (j + 1) (i + 1))"
      using string_done_step[of m1 j "[?c]" i _ _ m] less.hyps[of m1 "j + 1" "i + 1"] same w a(1) less.prems(2)
      by simp
    show ?thesis
    proof (cases "?c = 34")
      case True
      have "string_done m1 (j + 1) (i + 1) (minified (from_pos m (j + 1))) (Inr (m1, j + 1, i + 1))"
        using same less.prems(2) by (auto simp: string_done_def)
      then have "string_done m j i ([34] @ minified (from_pos m (j + 1))) (Inr (m1, j + 1, i + 1))"
        using string_done_step[of m1 j "[34]" i _ _ m] w True by simp
      then show ?thesis using True a(2,3) w(1) by (simp add: string_loop.simps[of m j])
    next
      case no: False
      show ?thesis
      proof (cases "?c = 92 \<and> m1 ! (j + 1) = 34")
        case True
        define m2 where "m2 = m1[i + 1 := 34]"
        have "i + 1 \<le> j + 1" using less.prems(2) by simp
        note w2 = write_behind[OF this b(1), of 34, folded m2_def]
        have t2: "terminated_from m1 (j + 2)" using b(4) True by simp
        have same2: "from_pos m2 (j + 2) = from_pos m1 (j + 2)" "terminated_from m2 (j + 2)"
          using same_tail[of "j + 2" m2 m1] w2(4) t2 by simp_all
        have "string_done m2 (j + 2) (i + 2) (in_string (from_pos m2 (j + 2))) (string_loop m2 (j + 2) (i + 2))"
          using less.hyps[of m2 "j + 2" "i + 2"] same2(2) w(2) w2(2) a(1) less.prems(2) by simp
        then have "string_done m j i ([92, 34] @ in_string (from_pos m1 (j + 2))) (string_loop m2 (j + 2) (i + 2))"
          using string_done_step[of m2 j "[92, 34]" i _ _ m] same2(1) w w2 True drop_mono[OF w(4), of "j + 2"] by simp
        moreover have "from_pos m (j + 1) = 34 # from_pos m1 (j + 2)" using True b(3) same(1) by simp
        then have "in_string (from_pos m j) = [92, 34] @ in_string (from_pos m1 (j + 2))"
          using True a(3) by simp
        ultimately show ?thesis using True a(2) w(1) b(2) w2(1) by (simp add: string_loop.simps[of m j])
      next
        case plain: False
        have "from_pos m (j + 1) \<noteq> [] \<longrightarrow> hd (from_pos m (j + 1)) = m1 ! (j + 1)"
          using b(3) same(1) by (metis list.sel(1))
        then have "in_string (from_pos m j) = ?c # in_string (from_pos m (j + 1))"
          using False no plain a(3) by auto
        then show ?thesis using False no plain more a(2) w(1) b(2) by (auto simp: string_loop.simps[of m j])
      qed
    qed
  qed
qed

lemma minify_string_spec:
  assumes t: "terminated_from m j" and i: "i \<le> j" and quote: "m ! j = 34"
  shows "\<exists>m' j' i' v. minify_string m j i = Inr (m', j', i') \<and> length m' = length m \<and>
    terminated_from m' j' \<and> j < j' \<and> i' \<le> j' \<and> take i' m' = take i m @ 34 # v \<and> i' = i + 1 + length v \<and>
    minified (from_pos m j) = 34 # v @ minified (from_pos m' j')"
proof -
  note a = at_pos[OF t]
  have t1: "terminated_from m (j + 1)" using a(4) quote by simp
  define m1 where "m1 = m[i := 34]"
  note w = write_behind[OF i a(1), of 34, folded m1_def]
  have same: "from_pos m1 (j + 1) = from_pos m (j + 1)" "terminated_from m1 (j + 1)"
    using same_tail[OF w(4)] t1 by simp_all
  have "string_done m1 (j + 1) (i + 1) (in_string (from_pos m1 (j + 1))) (string_loop m1 (j + 1) (i + 1))"
    using string_loop_spec[OF same(2)] i by simp
  then obtain m' j' i' v where s: "string_loop m1 (j + 1) (i + 1) = Inr (m', j', i')" "length m' = length m"
    "drop j' m' = drop j' m1" "j + 1 \<le> j'" "i' \<le> j'" "terminated_from m1 j'" "take i' m' = take (i + 1) m1 @ v"
    "in_string (from_pos m (j + 1)) = v @ minified (from_pos m1 j')" "i' = i + 1 + length v"
    using same(1) w(2) by (auto simp: string_done_def)
  have tail: "from_pos m' j' = from_pos m1 j'" "terminated_from m' j'" using same_tail[OF s(3)] s(6) by simp_all
  have "from_pos m j = 34 # from_pos m (j + 1)" using a(3) quote by simp
  moreover have "minify_string m j i = Inr (m', j', i')" using a(2) w(1) s(1) quote by (simp add: minify_string_def)
  ultimately show ?thesis
    using s tail w(3)
    by (intro exI[of _ m'] exI[of _ j'] exI[of _ i'] exI[of _ v]) simp
qed

lemma minify_slash:
  assumes t: "terminated_from m j" and slash: "m ! j = 47"
  shows "\<exists>j'. minify_loop (Suc fuel) m j i = minify_loop fuel m j' i \<and> terminated_from m j' \<and> j < j' \<and>
    minified (from_pos m j') = minified (from_pos m j)"
proof -
  note a = at_pos[OF t]
  have t1: "terminated_from m (j + 1)" using a(4) slash by simp
  note b = at_pos[OF t1]
  have pos: "from_pos m j = 47 # from_pos m (j + 1)" using a(3) slash by simp
  consider (line) "m ! (j + 1) = 47" | (block) "m ! (j + 1) = 42" | (none) "m ! (j + 1) \<notin> {47, 42}" by blast
  then show ?thesis
  proof cases
    case line
    then have p: "from_pos m (j + 1) = 47 # from_pos m (j + 2)" "terminated_from m (j + 2)" using b(3,4) by simp_all
    obtain j' where j': "oneline_loop m (j + 2) = Inr j'" "j + 2 \<le> j'" "terminated_from m j'"
      "from_pos m j' = drop_line (from_pos m (j + 2))" using oneline_loop_spec[OF p(2)] by blast
    then show ?thesis
      using slash line a(2) b(2) p(1) by (intro exI[of _ j']) (simp add: pos skip_oneline_comment_def)
  next
    case block
    then have p: "from_pos m (j + 1) = 42 # from_pos m (j + 2)" "terminated_from m (j + 2)" using b(3,4) by simp_all
    obtain j' where j': "multiline_loop m (j + 2) = Inr j'" "j + 2 \<le> j'" "terminated_from m j'"
      "from_pos m j' = drop_comment (from_pos m (j + 2))" using multiline_loop_spec[OF p(2)] by blast
    then show ?thesis
      using slash block a(2) b(2) p(1) by (intro exI[of _ j']) (simp add: pos skip_multiline_comment_def)
  next
    case none
    then show ?thesis
      using slash a(2) b(2,3) t1 by (intro exI[of _ "j + 1"]) (simp add: pos)
  qed
qed

lemma minify_loop_spec:
  assumes "terminated_from m j" and "i \<le> j" and "length m - j < fuel"
  shows "\<exists>m'. minify_loop fuel m j i = Inr m' \<and> length m' = length m \<and>
    take (i + length (minified (from_pos m j)) + 1) m' = take i m @ minified (from_pos m j) @ [0]"
  using assms
proof (induction fuel arbitrary: m j i)
  case (Suc fuel)
  note a = at_pos[OF Suc.prems(1)]
  let ?c = "m ! j"
  have skip: "\<exists>m'. minify_loop fuel m j' i = Inr m' \<and> length m' = length m \<and>
      take (i + length t + 1) m' = take i m @ t @ [0]"
    if "terminated_from m j'" "j < j'" "minified (from_pos m j') = t" for j' t
    using Suc.IH[of m j' i] that Suc.prems(2,3) a(1) by simp
  show ?case
  proof (cases "?c = 0")
    case True
    then show ?thesis using a write_behind[OF Suc.prems(2) a(1), of 0] by simp
  next
    case False
    note t1 = a(4)[OF False]
    note b = at_pos[OF t1]
    have pos: "from_pos m j = ?c # from_pos m (j + 1)" using a(3) False by simp
    consider (ws) "?c = 32 \<or> ?c = 9 \<or> ?c = 13 \<or> ?c = 10" | (slash) "?c = 47" | (quote) "?c = 34"
      | (other) "?c \<notin> {32, 9, 13, 10, 47, 34}" by blast
    then show ?thesis
    proof cases
      case ws
      then show ?thesis using skip[OF t1 _ refl] a(2) False by (auto simp: pos)
    next
      case slash
      obtain j' where st: "minify_loop (Suc fuel) m j i = minify_loop fuel m j' i" "terminated_from m j'"
        "j < j'" "minified (from_pos m j') = minified (from_pos m j)"
        using minify_slash[OF Suc.prems(1) slash] by blast
      from skip[OF st(2-4)] show ?thesis unfolding st(1) .
    next
      case quote
      obtain m' j' i' v where st: "minify_string m j i = Inr (m', j', i')" "length m' = length m"
        "terminated_from m' j'" "j < j'" "i' \<le> j'" "take i' m' = take i m @ 34 # v" "i' = i + 1 + length v"
        "minified (from_pos m j) = 34 # v @ minified (from_pos m' j')"
        using minify_string_spec[OF Suc.prems(1,2) quote] by blast
      have "length m' - j' < fuel" using st(2,4) Suc.prems(3) a(1) by linarith
      then obtain m'' where "minify_loop fuel m' j' i' = Inr m''" "length m'' = length m"
        "take (i' + length (minified (from_pos m' j')) + 1) m'' = take i' m' @ minified (from_pos m' j') @ [0]"
        using Suc.IH[OF st(3,5)] st(2) by auto
      then show ?thesis using quote a(2) st(1,6-8) by (simp add: add.assoc)
    next
      case other
      define m1 where "m1 = m[i := ?c]"
      note w = write_behind[OF Suc.prems(2) a(1), of ?c, folded m1_def]
      have same: "from_pos m1 (j + 1) = from_pos m (j + 1)" "terminated_from m1 (j + 1)"
        using same_tail[OF w(4)] t1 by simp_all
      have "minified (from_pos m j) = ?c # minified (from_pos m1 (j + 1))"
        using other same(1) by (simp add: pos)
      then show ?thesis
        using Suc.IH[of m1 "j + 1" "i + 1"] same(2) w Suc.prems(2,3) a(1,2) other False by simp
    qed
  qed
qed simp

lemma cJSON_Minify_spec:
  assumes "0 \<in> set m"
  shows "\<exists>m'. cJSON_Minify (Some m) = Inr (Some m') \<and> length m' = length m \<and>
    take (length (minified (cstr m)) + 1) m' = minified (cstr m) @ [0]"
proof -
  have "terminated_from m 0" using assms by (simp add: terminated_from_def)
  from minify_loop_spec[OF this, of 0 "length m + 1"] show ?thesis
    by (auto simp: cJSON_Minify_def from_pos_def)
qed

section \<open>Formatted text becomes unformatted text\<close>

definition kept_char :: "u8 \<Rightarrow> bool" where
  "kept_char c \<longleftrightarrow> c \<notin> {32, 9, 13, 10, 47, 34}"

lemma minified_kept: "\<forall>c \<in> set s. kept_char c \<Longrightarrow> minified (s @ r) = s @ minified r"
  by (induction s) (auto simp: kept_char_def)

lemma minified_tabs: "minified (replicate d 9 @ r) = minified r"
  by (induction d) auto

lemma in_string_char:
  assumes "c = 92 \<longrightarrow> r \<noteq> [] \<and> hd r \<noteq> 34"
  shows "in_string (escaped c @ r) = escaped c @ in_string r"
proof (cases c rule: escaped_cases)
  case (short x)
  have "x = 34 \<or> (x = 92 \<and> c = 92) \<or> (x \<noteq> 34 \<and> x \<noteq> 92)" using short(2) by (auto simp: short_escape_def split: if_splits)
  then show ?thesis using short(1) assms by auto
next
  case long
  have "hex_char (unat c div 16) \<noteq> 34 \<and> hex_char (unat c div 16) \<noteq> 92"
    "hex_char (unat c mod 16) \<noteq> 34 \<and> hex_char (unat c mod 16) \<noteq> 92"
    using hex_char_plain[of "unat c div 16"] hex_char_plain[of "unat c mod 16"] unsigned_less[of c, where 'a = nat]
    by auto
  then show ?thesis using long(1) by (simp add: fmt_u04x_def)
qed simp

lemma hd_escaped: "escaped c \<noteq> [] \<and> hd (escaped c) \<noteq> 34"
  by (cases c rule: escaped_cases) auto

lemma in_string_body:
  "cs = [] \<or> last cs \<noteq> 92 \<Longrightarrow>
   in_string (concat (map escaped cs) @ 34 # r) = concat (map escaped cs) @ 34 # minified r"
proof (induction cs)
  case (Cons c cs)
  let ?r = "concat (map escaped cs) @ 34 # r"
  have "c = 92 \<longrightarrow> ?r \<noteq> [] \<and> hd ?r \<noteq> 34" using Cons.prems hd_escaped by (cases cs) auto
  moreover have "in_string ?r = concat (map escaped cs) @ 34 # minified r" using Cons by (cases "cs = []") auto
  ultimately show ?case using in_string_char[of c ?r] by simp
qed simp

text \<open>
  A string whose last character is a backslash is printed with two of them before the closing quote,
  and minify\_string takes the second one and the quote for an escaped quote.
\<close>

definition no_final_backslash :: "bytes option \<Rightarrow> bool" where
  "no_final_backslash vs = (case vs of None \<Rightarrow> True | Some s \<Rightarrow> cstr s = [] \<or> last (cstr s) \<noteq> 92)"

lemma minified_quoted: "no_final_backslash vs \<Longrightarrow> minified (quoted vs @ r) = quoted vs @ minified r"
  by (cases vs) (simp_all add: quoted_def no_final_backslash_def in_string_body)

text \<open>The items: no raw text, and no string or name whose last character is a backslash.\<close>

fun minifiable :: "cJSON \<Rightarrow> bool" where
  "minifiable (Item t vs vi vd s ch) \<longleftrightarrow>
     t AND 0xFF \<noteq> cJSON_Raw \<and> no_final_backslash vs \<and> no_final_backslash s \<and> (\<forall>c \<in> set ch. minifiable c)"

lemma number_char_kept: "is_number_char c \<Longrightarrow> kept_char c"
  by (auto simp: is_number_char_def kept_char_def is_digit_def)

lemma number_text_kept:
  assumes "number_text v = Some s"
  shows "\<forall>c \<in> set s. kept_char c"
proof (cases "s = lit ''null''")
  case False
  then show ?thesis using number_chars_like[OF assms] number_char_kept by (simp add: number_like_def)
qed (simp add: kept_char_def)

text \<open>\<open>shrinks x\<close>: minifying the formatted text of \<open>x\<close> gives its unformatted text, whatever follows.\<close>

definition shrinks :: "bytes option \<Rightarrow> bytes option \<Rightarrow> bool" where
  "shrinks t u \<longleftrightarrow> (\<forall>s. t = Some s \<longrightarrow> (\<exists>s'. u = Some s' \<and> (\<forall>r. minified (s @ r) = s' @ minified r)))"

lemma shrinks_kept: "\<forall>c \<in> set s. kept_char c \<Longrightarrow> shrinks (Some s) (Some s)"
  by (simp add: shrinks_def minified_kept)

lemma kept_marks: "kept_char 91" "kept_char 93" "kept_char 123" "kept_char 125" "kept_char 44" "kept_char 58"
  by (simp_all add: kept_char_def)

lemma minified_mark: "kept_char c \<Longrightarrow> minified (c # r) = c # minified r"
  using minified_kept[of "[c]" r] by simp

lemma minified_blank: "c = 9 \<or> c = 10 \<or> c = 32 \<Longrightarrow> minified (c # r) = minified r"
  by auto

lemma shrinks_lists:
  assumes "\<forall>x \<in> set xs. no_final_backslash (c_string x) \<and> (\<forall>d d'. shrinks (text_of True d x) (text_of False d' x))"
  shows "shrinks (texts_of True d xs) (texts_of False d' xs) \<and> shrinks (members_of True d xs) (members_of False d' xs)"
  using assms
proof (induction xs)
  case Nil
  then show ?case by (simp add: shrinks_def)
next
  case (Cons x xs)
  have x: "no_final_backslash (c_string x)" "shrinks (text_of True d x) (text_of False d' x)" using Cons.prems by simp_all
  have xs: "shrinks (texts_of True d xs) (texts_of False d' xs)" "shrinks (members_of True d xs) (members_of False d' xs)"
    using Cons by simp_all
  note m = minified_mark kept_marks minified_blank minified_quoted[OF x(1)] minified_tabs tabs_def
  show ?case
  proof
    show "shrinks (texts_of True d (x # xs)) (texts_of False d' (x # xs))"
      using x(2) xs(1) by (auto simp: shrinks_def sep_def m simp del: minified.simps split: option.splits)
    show "shrinks (members_of True d (x # xs)) (members_of False d' (x # xs))"
      using x(2) xs(2) by (auto simp: shrinks_def sep_def after_member_def m simp del: minified.simps split: option.splits)
  qed
qed

lemma minifiable_name: "minifiable x \<Longrightarrow> no_final_backslash (c_string x)"
  by (cases x) simp

lemma text_shrinks: "minifiable v \<Longrightarrow> shrinks (text_of True d v) (text_of False d' v)"
proof (induction v arbitrary: d d')
  case (Item t vs vi vd nm ch)
  let ?v = "Item t vs vi vd nm ch" and ?ty = "t AND 0xFF"
  have ch: "\<forall>x \<in> set ch. no_final_backslash (c_string x) \<and> (\<forall>d d'. shrinks (text_of True d x) (text_of False d' x))"
  proof
    fix x assume "x \<in> set ch"
    then show "no_final_backslash (c_string x) \<and> (\<forall>d d'. shrinks (text_of True d x) (text_of False d' x))"
      using Item minifiable_name[of x] by auto
  qed
  note l = shrinks_lists[OF ch, of "d + 1" "d' + 1"]
  note m = minified_mark kept_marks minified_blank minified_tabs
  have num: "shrinks (number_text ?v) (number_text ?v)"
    using number_text_kept[of ?v] by (cases "number_text ?v") (simp_all add: shrinks_kept, simp add: shrinks_def)
  have str: "shrinks (Some (quoted vs)) (Some (quoted vs))"
    using Item.prems minified_quoted by (simp add: shrinks_def)
  have lits: "shrinks (Some (lit ''null'')) (Some (lit ''null''))" "shrinks (Some (lit ''true'')) (Some (lit ''true''))"
    "shrinks (Some (lit ''false'')) (Some (lit ''false''))"
    by (rule shrinks_kept, simp add: kept_char_def)+
  have arr: "shrinks (map_option (\<lambda>x. [91] @ x @ [93]) (texts_of True (d + 1) ch))
      (map_option (\<lambda>x. [91] @ x @ [93]) (texts_of False (d' + 1) ch))"
    using l by (auto simp: shrinks_def m simp del: minified.simps)
  have obj: "shrinks (map_option (\<lambda>x. sep True [123] [10] @ x @ tabs True d @ [125]) (members_of True (d + 1) ch))
      (map_option (\<lambda>x. sep False [123] [10] @ x @ tabs False d' @ [125]) (members_of False (d' + 1) ch))"
    using l by (auto simp: shrinks_def sep_def tabs_def m simp del: minified.simps)
  have if': "shrinks (if c then a else b) (if c then a' else b')" if "shrinks a a'" "shrinks b b'" for c a b a' b'
    using that by simp
  have none: "shrinks None None" by (simp add: shrinks_def)
  have raw: "shrinks (if ?ty = cJSON_Raw then a else b) (if ?ty = cJSON_Raw then a' else b')" if "shrinks b b'" for a b a' b'
    using that Item.prems by simp
  show ?case unfolding text_of.simps Let_def by (intro if' raw lits num str arr obj none)
qed

end
