(* ===== verification/JsonEdit.thy ===== *)
theory JsonEdit
  imports JsonTree
begin

text \<open>
  Creating and editing items in src/cJSON.c, on an explicit store: an item is an address, and each
  field of the C structure is a map from addresses (NULL is \<open>None\<close>).  An access to NULL or to an
  address that is not allocated faults.  The address of a new item is the number of the allocation
  that made it.  The strings of an item are values; the allocator's count includes their blocks.
  What the operations do to the list of children is proved in JsonLinks.
\<close>

section \<open>The store\<close>

record jstore =
  st_live :: "nat set"
  st_next :: "nat \<Rightarrow> nat option"
  st_prev :: "nat \<Rightarrow> nat option"
  st_child :: "nat \<Rightarrow> nat option"
  st_type :: "nat \<Rightarrow> int"
  st_valuestring :: "nat \<Rightarrow> bytes option"
  st_valueint :: "nat \<Rightarrow> int"
  st_valuedouble :: "nat \<Rightarrow> dbl"
  st_string :: "nat \<Rightarrow> bytes option"
  st_heap :: heap

type_synonym 'a edit = "jstore \<Rightarrow> ('a \<times> jstore) cres"

definition yields :: "'a \<Rightarrow> 'a edit" where
  "yields x s = Inr (x, s)"

definition andthen :: "'a edit \<Rightarrow> ('a \<Rightarrow> 'b edit) \<Rightarrow> 'b edit" where
  "andthen m f s = cbind (m s) (\<lambda>(x, s'). f x s')"

definition rd :: "(jstore \<Rightarrow> nat \<Rightarrow> 'a) \<Rightarrow> nat option \<Rightarrow> 'a edit" where
  "rd fld p s =
     (case p of None \<Rightarrow> Inl NullDeref | Some a \<Rightarrow> if a \<in> st_live s then Inr (fld s a, s) else Inl OOB)"

definition wr :: "(((nat \<Rightarrow> 'a) \<Rightarrow> nat \<Rightarrow> 'a) \<Rightarrow> jstore \<Rightarrow> jstore) \<Rightarrow> nat option \<Rightarrow> 'a \<Rightarrow> unit edit" where
  "wr upd p v s =
     (case p of None \<Rightarrow> Inl NullDeref
      | Some a \<Rightarrow> if a \<in> st_live s then Inr ((), upd (\<lambda>f. f(a := v)) s) else Inl OOB)"

text \<open>Statements in sequence, for those whose value is not used.\<close>

definition semi :: "unit edit \<Rightarrow> 'b edit \<Rightarrow> 'b edit" where
  "semi m n = andthen m (\<lambda>_. n)"

section \<open>Memory\<close>

definition new_node :: "nat option edit" where
  "new_node s =
     (case allocate (st_heap s) of (ok, h) \<Rightarrow>
      if ok then
        let a = h_calls (st_heap s) in
        Inr (Some a, s\<lparr>st_live := insert a (st_live s), st_next := (st_next s)(a := None),
          st_prev := (st_prev s)(a := None), st_child := (st_child s)(a := None), st_type := (st_type s)(a := 0),
          st_valuestring := (st_valuestring s)(a := None), st_valueint := (st_valueint s)(a := 0),
          st_valuedouble := (st_valuedouble s)(a := Fin 0), st_string := (st_string s)(a := None), st_heap := h\<rparr>)
      else Inr (None, s\<lparr>st_heap := h\<rparr>))"

definition cJSON_strdup :: "bytes option \<Rightarrow> bytes option edit" where
  "cJSON_strdup str s =
     (case str of None \<Rightarrow> Inr (None, s)
      | Some m \<Rightarrow> (case allocate (st_heap s) of (ok, h) \<Rightarrow> Inr (if ok then Some (cstr m) else None, s\<lparr>st_heap := h\<rparr>)))"

definition free_string :: "unit edit" where
  "free_string s = Inr ((), s\<lparr>st_heap := release 1 (st_heap s)\<rparr>)"

text \<open>cJSON\_Delete; \<open>JsonLinks\<close> shows that the number of items is enough fuel.\<close>

fun delete_from :: "nat \<Rightarrow> nat option \<Rightarrow> jstore \<Rightarrow> (unit \<times> jstore) cres" where
  "delete_from 0 p s = Inl OutOfFuel"
| "delete_from (Suc fuel) p s =
     (case p of
        None \<Rightarrow> Inr ((), s)
      | Some a \<Rightarrow>
          cbind (rd st_next p s) (\<lambda>(next_item, s0).
          let is_ref = (st_type s0 a AND cJSON_IsReference \<noteq> 0) in
          cbind (if \<not> is_ref \<and> st_child s0 a \<noteq> None then delete_from fuel (st_child s0 a) s0 else Inr ((), s0)) (\<lambda>(_, s1).
          cbind (rd st_type p s1) (\<lambda>(t, s1).
          let n = 1 + (if \<not> is_ref \<and> st_valuestring s1 a \<noteq> None then 1 else 0) +
                (if t AND cJSON_StringIsConst = 0 \<and> st_string s1 a \<noteq> None then 1 else 0) in
          delete_from fuel next_item (s1\<lparr>st_live := st_live s1 - {a}, st_heap := release n (st_heap s1)\<rparr>)))))"

definition delete_item :: "nat option \<Rightarrow> unit edit" where
  "delete_item p s = delete_from (2 * card (st_live s) + 2) p s"

section \<open>Lists of children\<close>

text \<open>The loops of get\_array\_item and get\_object\_item; the latter takes fuel.\<close>

fun walk_to :: "nat option \<Rightarrow> nat \<Rightarrow> nat option edit" where
  "walk_to None i s = Inr (None, s)"
| "walk_to (Some a) 0 s = Inr (Some a, s)"
| "walk_to (Some a) (Suc i) s = cbind (rd st_next (Some a) s) (\<lambda>(n, s). walk_to n i s)"

definition item_at :: "nat option \<Rightarrow> nat \<Rightarrow> nat option edit" where
  "item_at array i =
     (case array of None \<Rightarrow> yields None | Some _ \<Rightarrow> andthen (rd st_child array) (\<lambda>c. walk_to c i))"

fun find_named :: "nat \<Rightarrow> bool \<Rightarrow> bytes \<Rightarrow> nat option \<Rightarrow> nat option edit" where
  "find_named 0 case_sensitive name p s = Inl OutOfFuel"
| "find_named (Suc fuel) case_sensitive name p s =
     (case p of
        None \<Rightarrow> Inr (None, s)
      | Some a \<Rightarrow>
          cbind (rd st_string p s) (\<lambda>(str, s).
          if (if case_sensitive then str = None \<or> cstr name = cstr (the str)
              else case_insensitive_strcmp (Some name) str = 0)
          then Inr (p, s)
          else cbind (rd st_next p s) (\<lambda>(n, s). find_named fuel case_sensitive name n s)))"

definition item_named :: "nat option \<Rightarrow> bytes option \<Rightarrow> bool \<Rightarrow> nat option edit" where
  "item_named object name case_sensitive s =
     (case (object, name) of
        (Some _, Some nm) \<Rightarrow>
          cbind (rd st_child object s) (\<lambda>(c, s).
          cbind (find_named (card (st_live s) + 1) case_sensitive nm c s) (\<lambda>(r, s).
          case r of None \<Rightarrow> Inr (None, s) | Some a \<Rightarrow> Inr (if st_string s a = None then None else r, s)))
      | _ \<Rightarrow> Inr (None, s))"

definition suffix_object :: "nat option \<Rightarrow> nat option \<Rightarrow> unit edit" where
  "suffix_object prev item = semi (wr st_next_update prev item) (wr st_prev_update item prev)"

definition add_item_to_array :: "nat option \<Rightarrow> nat option \<Rightarrow> bool edit" where
  "add_item_to_array array item =
     (if item = None \<or> array = None \<or> array = item then yields False
      else andthen (rd st_child array) (\<lambda>child.
        if child = None then
          semi (wr st_child_update array item) (semi (wr st_prev_update item item)
          (semi (wr st_next_update item None) (yields True)))
        else andthen (rd st_prev child) (\<lambda>last_item.
          if last_item \<noteq> None then
            semi (suffix_object last_item item)
            (andthen (rd st_child array) (\<lambda>c. semi (wr st_prev_update c item) (yields True)))
          else yields True)))"

definition cJSON_AddItemToArray :: "nat option \<Rightarrow> nat option \<Rightarrow> bool edit" where
  "cJSON_AddItemToArray = add_item_to_array"

definition cJSON_DetachItemViaPointer :: "nat option \<Rightarrow> nat option \<Rightarrow> nat option edit" where
  "cJSON_DetachItemViaPointer parent item =
     (if parent = None \<or> item = None then yields None
      else
        andthen (rd st_child parent) (\<lambda>first_item.
        semi (if item \<noteq> first_item then
                andthen (rd st_prev item) (\<lambda>p. andthen (rd st_next item) (\<lambda>n. wr st_next_update p n))
              else yields ())
        (andthen (rd st_next item) (\<lambda>n.
        semi (if n \<noteq> None then andthen (rd st_prev item) (\<lambda>p. wr st_prev_update n p) else yields ())
        (semi (if item = first_item then wr st_child_update parent n
               else if n = None then
                 andthen (rd st_child parent) (\<lambda>c. andthen (rd st_prev item) (\<lambda>p. wr st_prev_update c p))
               else yields ())
        (semi (wr st_prev_update item None) (semi (wr st_next_update item None) (yields item))))))))"

definition cJSON_DetachItemFromArray :: "nat option \<Rightarrow> int \<Rightarrow> nat option edit" where
  "cJSON_DetachItemFromArray array which =
     (if which < 0 then yields None
      else andthen (item_at array (nat which)) (\<lambda>i. cJSON_DetachItemViaPointer array i))"

definition cJSON_DeleteItemFromArray :: "nat option \<Rightarrow> int \<Rightarrow> unit edit" where
  "cJSON_DeleteItemFromArray array which = andthen (cJSON_DetachItemFromArray array which) delete_item"

definition cJSON_DetachItemFromObject :: "nat option \<Rightarrow> bytes option \<Rightarrow> nat option edit" where
  "cJSON_DetachItemFromObject object str =
     andthen (item_named object str False) (\<lambda>i. cJSON_DetachItemViaPointer object i)"

definition cJSON_DetachItemFromObjectCaseSensitive :: "nat option \<Rightarrow> bytes option \<Rightarrow> nat option edit" where
  "cJSON_DetachItemFromObjectCaseSensitive object str =
     andthen (item_named object str True) (\<lambda>i. cJSON_DetachItemViaPointer object i)"

definition cJSON_DeleteItemFromObject :: "nat option \<Rightarrow> bytes option \<Rightarrow> unit edit" where
  "cJSON_DeleteItemFromObject object str = andthen (cJSON_DetachItemFromObject object str) delete_item"

definition cJSON_DeleteItemFromObjectCaseSensitive :: "nat option \<Rightarrow> bytes option \<Rightarrow> unit edit" where
  "cJSON_DeleteItemFromObjectCaseSensitive object str =
     andthen (cJSON_DetachItemFromObjectCaseSensitive object str) delete_item"

definition cJSON_InsertItemInArray :: "nat option \<Rightarrow> int \<Rightarrow> nat option \<Rightarrow> bool edit" where
  "cJSON_InsertItemInArray array which newitem =
     (if which < 0 then yields False
      else andthen (item_at array (nat which)) (\<lambda>after_inserted.
        if after_inserted = None then add_item_to_array array newitem
        else
          semi (wr st_next_update newitem after_inserted)
          (andthen (rd st_prev after_inserted) (\<lambda>p.
          semi (wr st_prev_update newitem p)
          (semi (wr st_prev_update after_inserted newitem)
          (andthen (rd st_child array) (\<lambda>c.
           if after_inserted = c then semi (wr st_child_update array newitem) (yields True)
           else andthen (rd st_prev newitem) (\<lambda>q. semi (wr st_next_update q newitem) (yields True)))))))))"

definition cJSON_ReplaceItemViaPointer :: "nat option \<Rightarrow> nat option \<Rightarrow> nat option \<Rightarrow> bool edit" where
  "cJSON_ReplaceItemViaPointer parent item replacement =
     (if parent = None \<or> replacement = None \<or> item = None then yields False
      else if replacement = item then yields True
      else
        andthen (rd st_next item) (\<lambda>n. semi (wr st_next_update replacement n)
        (andthen (rd st_prev item) (\<lambda>p. semi (wr st_prev_update replacement p)
        (semi (if n \<noteq> None then wr st_prev_update n replacement else yields ())
        (andthen (rd st_child parent) (\<lambda>c.
         semi
           (if c = item then
              andthen (rd st_prev c) (\<lambda>cp.
              semi (if cp = c then wr st_prev_update replacement replacement else yields ())
              (wr st_child_update parent replacement))
            else
              andthen (rd st_prev replacement) (\<lambda>q.
              semi (if q \<noteq> None then wr st_next_update q replacement else yields ())
              (andthen (rd st_next replacement) (\<lambda>m.
               if m = None then wr st_prev_update c replacement else yields ()))))
         (semi (wr st_next_update item None) (semi (wr st_prev_update item None)
         (semi (delete_item item) (yields True)))))))))))"

definition cJSON_ReplaceItemInArray :: "nat option \<Rightarrow> int \<Rightarrow> nat option \<Rightarrow> bool edit" where
  "cJSON_ReplaceItemInArray array which newitem =
     (if which < 0 then yields False
      else andthen (item_at array (nat which)) (\<lambda>i. cJSON_ReplaceItemViaPointer array i newitem))"

end
