(* ===== verification/JsonCreate.thy ===== *)
theory JsonCreate
  imports JsonEdit
begin

text \<open>
  The constructors of src/cJSON.c on the store of JsonEdit: single items, references, items added
  to objects under a name, arrays made from C arrays, the duplication of a tree, and the two
  setters.
\<close>

section \<open>Names and references\<close>

definition create_reference :: "nat option \<Rightarrow> nat option edit" where
  "create_reference item =
     (if item = None then yields None
      else andthen new_node (\<lambda>r.
        if r = None then yields None
        else
          andthen (rd st_type item) (\<lambda>t. semi (wr st_type_update r t)
          (andthen (rd st_child item) (\<lambda>c. semi (wr st_child_update r c)
          (andthen (rd st_valuestring item) (\<lambda>v. semi (wr st_valuestring_update r v)
          (andthen (rd st_valueint item) (\<lambda>i. semi (wr st_valueint_update r i)
          (andthen (rd st_valuedouble item) (\<lambda>d. semi (wr st_valuedouble_update r d)
          (semi (wr st_string_update r None)
          (semi (wr st_type_update r (t OR cJSON_IsReference))
          (semi (wr st_next_update r None) (semi (wr st_prev_update r None) (yields r))))))))))))))))"

definition add_item_to_object :: "nat option \<Rightarrow> bytes option \<Rightarrow> nat option \<Rightarrow> bool \<Rightarrow> bool edit" where
  "add_item_to_object object str item constant_key =
     (if object = None \<or> str = None \<or> item = None \<or> object = item then yields False
      else andthen (if constant_key then yields str else cJSON_strdup str) (\<lambda>new_key.
        if new_key = None then yields False
        else
          andthen (rd st_type item) (\<lambda>t. andthen (rd st_string item) (\<lambda>old.
          semi (if t AND cJSON_StringIsConst = 0 \<and> old \<noteq> None then free_string else yields ())
          (semi (wr st_string_update item new_key)
          (semi (wr st_type_update item
                   (if constant_key then t OR cJSON_StringIsConst else t AND NOT cJSON_StringIsConst))
          (add_item_to_array object item)))))))"

definition cJSON_AddItemToObject :: "nat option \<Rightarrow> bytes option \<Rightarrow> nat option \<Rightarrow> bool edit" where
  "cJSON_AddItemToObject object str item = add_item_to_object object str item False"

definition cJSON_AddItemToObjectCS :: "nat option \<Rightarrow> bytes option \<Rightarrow> nat option \<Rightarrow> bool edit" where
  "cJSON_AddItemToObjectCS object str item = add_item_to_object object str item True"

definition cJSON_AddItemReferenceToArray :: "nat option \<Rightarrow> nat option \<Rightarrow> bool edit" where
  "cJSON_AddItemReferenceToArray array item =
     (if array = None then yields False else andthen (create_reference item) (add_item_to_array array))"

definition cJSON_AddItemReferenceToObject :: "nat option \<Rightarrow> bytes option \<Rightarrow> nat option \<Rightarrow> bool edit" where
  "cJSON_AddItemReferenceToObject object str item =
     (if object = None \<or> str = None then yields False
      else andthen (create_reference item) (\<lambda>r. add_item_to_object object str r False))"

text \<open>The name of the replacement is set before the item to replace is looked up.\<close>

definition replace_item_in_object :: "nat option \<Rightarrow> bytes option \<Rightarrow> nat option \<Rightarrow> bool \<Rightarrow> bool edit" where
  "replace_item_in_object object str replacement case_sensitive =
     (if replacement = None \<or> str = None then yields False
      else
        andthen (rd st_type replacement) (\<lambda>t. andthen (rd st_string replacement) (\<lambda>old.
        semi (if t AND cJSON_StringIsConst = 0 \<and> old \<noteq> None then free_string else yields ())
        (andthen (cJSON_strdup str) (\<lambda>new_key.
        semi (wr st_string_update replacement new_key)
        (if new_key = None then yields False
         else
           semi (wr st_type_update replacement (t AND NOT cJSON_StringIsConst))
           (andthen (item_named object str case_sensitive) (\<lambda>i.
            cJSON_ReplaceItemViaPointer object i replacement))))))))"

definition cJSON_ReplaceItemInObject :: "nat option \<Rightarrow> bytes option \<Rightarrow> nat option \<Rightarrow> bool edit" where
  "cJSON_ReplaceItemInObject object str newitem = replace_item_in_object object str newitem False"

definition cJSON_ReplaceItemInObjectCaseSensitive :: "nat option \<Rightarrow> bytes option \<Rightarrow> nat option \<Rightarrow> bool edit" where
  "cJSON_ReplaceItemInObjectCaseSensitive object str newitem = replace_item_in_object object str newitem True"

section \<open>Single items\<close>

definition typed_item :: "int \<Rightarrow> nat option edit" where
  "typed_item t = andthen new_node (\<lambda>i. if i = None then yields None else semi (wr st_type_update i t) (yields i))"

definition cJSON_CreateNull :: "nat option edit" where "cJSON_CreateNull = typed_item cJSON_NULL"
definition cJSON_CreateTrue :: "nat option edit" where "cJSON_CreateTrue = typed_item cJSON_True"
definition cJSON_CreateFalse :: "nat option edit" where "cJSON_CreateFalse = typed_item cJSON_False"
definition cJSON_CreateArray :: "nat option edit" where "cJSON_CreateArray = typed_item cJSON_Array"
definition cJSON_CreateObject :: "nat option edit" where "cJSON_CreateObject = typed_item cJSON_Object"

definition cJSON_CreateBool :: "bool \<Rightarrow> nat option edit" where
  "cJSON_CreateBool b = typed_item (if b then cJSON_True else cJSON_False)"

text \<open>The conversion of a NaN to int is undefined.\<close>

definition saturated :: "dbl \<Rightarrow> int edit" where
  "saturated num s = cbind (number_to_int num) (\<lambda>i. Inr (i, s))"

definition cJSON_CreateNumber :: "dbl \<Rightarrow> nat option edit" where
  "cJSON_CreateNumber num =
     andthen (typed_item cJSON_Number) (\<lambda>item.
     if item = None then yields None
     else semi (wr st_valuedouble_update item num)
       (andthen (saturated num) (\<lambda>i. semi (wr st_valueint_update item i) (yields item))))"

definition owned_string_item :: "int \<Rightarrow> bytes option \<Rightarrow> nat option edit" where
  "owned_string_item t str =
     andthen (typed_item t) (\<lambda>item.
     if item = None then yields None
     else andthen (cJSON_strdup str) (\<lambda>copy.
       semi (wr st_valuestring_update item copy)
       (if copy = None then semi (delete_item item) (yields None) else yields item)))"

definition cJSON_CreateString :: "bytes option \<Rightarrow> nat option edit" where
  "cJSON_CreateString str = owned_string_item cJSON_String str"

definition cJSON_CreateRaw :: "bytes option \<Rightarrow> nat option edit" where
  "cJSON_CreateRaw raw = owned_string_item cJSON_Raw raw"

definition cJSON_CreateStringReference :: "bytes option \<Rightarrow> nat option edit" where
  "cJSON_CreateStringReference str =
     andthen (typed_item (cJSON_String OR cJSON_IsReference)) (\<lambda>item.
     if item = None then yields None else semi (wr st_valuestring_update item str) (yields item))"

definition cJSON_CreateObjectReference :: "nat option \<Rightarrow> nat option edit" where
  "cJSON_CreateObjectReference child =
     andthen (typed_item (cJSON_Object OR cJSON_IsReference)) (\<lambda>item.
     if item = None then yields None else semi (wr st_child_update item child) (yields item))"

definition cJSON_CreateArrayReference :: "nat option \<Rightarrow> nat option edit" where
  "cJSON_CreateArrayReference child =
     andthen (typed_item (cJSON_Array OR cJSON_IsReference)) (\<lambda>item.
     if item = None then yields None else semi (wr st_child_update item child) (yields item))"

text \<open>A new item added to an object, deleted again when that fails.\<close>

definition add_new :: "nat option edit \<Rightarrow> nat option \<Rightarrow> bytes option \<Rightarrow> nat option edit" where
  "add_new create object name =
     andthen create (\<lambda>item. andthen (add_item_to_object object name item False) (\<lambda>ok.
     if ok then yields item else semi (delete_item item) (yields None)))"

definition cJSON_AddNullToObject :: "nat option \<Rightarrow> bytes option \<Rightarrow> nat option edit" where
  "cJSON_AddNullToObject object name = add_new cJSON_CreateNull object name"

definition cJSON_AddTrueToObject :: "nat option \<Rightarrow> bytes option \<Rightarrow> nat option edit" where
  "cJSON_AddTrueToObject object name = add_new cJSON_CreateTrue object name"

definition cJSON_AddFalseToObject :: "nat option \<Rightarrow> bytes option \<Rightarrow> nat option edit" where
  "cJSON_AddFalseToObject object name = add_new cJSON_CreateFalse object name"

definition cJSON_AddBoolToObject :: "nat option \<Rightarrow> bytes option \<Rightarrow> bool \<Rightarrow> nat option edit" where
  "cJSON_AddBoolToObject object name b = add_new (cJSON_CreateBool b) object name"

definition cJSON_AddNumberToObject :: "nat option \<Rightarrow> bytes option \<Rightarrow> dbl \<Rightarrow> nat option edit" where
  "cJSON_AddNumberToObject object name number = add_new (cJSON_CreateNumber number) object name"

definition cJSON_AddStringToObject :: "nat option \<Rightarrow> bytes option \<Rightarrow> bytes option \<Rightarrow> nat option edit" where
  "cJSON_AddStringToObject object name str = add_new (cJSON_CreateString str) object name"

definition cJSON_AddRawToObject :: "nat option \<Rightarrow> bytes option \<Rightarrow> bytes option \<Rightarrow> nat option edit" where
  "cJSON_AddRawToObject object name raw = add_new (cJSON_CreateRaw raw) object name"

definition cJSON_AddObjectToObject :: "nat option \<Rightarrow> bytes option \<Rightarrow> nat option edit" where
  "cJSON_AddObjectToObject object name = add_new cJSON_CreateObject object name"

definition cJSON_AddArrayToObject :: "nat option \<Rightarrow> bytes option \<Rightarrow> nat option edit" where
  "cJSON_AddArrayToObject object name = add_new cJSON_CreateArray object name"

section \<open>Arrays from C arrays\<close>

text \<open>
  The loop, with the number of values still to convert (\<open>create\<close> creates an item from one), the rest
  of the C array, and the last item linked; \<open>None\<close> when an allocation failed, the array deleted.
  Reading behind the C array faults.
\<close>

fun fill_array :: "('v \<Rightarrow> nat option edit) \<Rightarrow> nat \<Rightarrow> 'v list \<Rightarrow> nat option \<Rightarrow> nat option \<Rightarrow> nat option edit" where
  "fill_array create 0 vs a p =
     andthen (rd st_child a) (\<lambda>c. if c \<noteq> None then semi (wr st_prev_update c p) (yields a) else yields a)"
| "fill_array create (Suc k) [] a p = (\<lambda>_. Inl OOB)"
| "fill_array create (Suc k) (v # vs) a p =
     andthen (create v) (\<lambda>n.
     if n = None then semi (delete_item a) (yields None)
     else semi (if p = None then wr st_child_update a n else suffix_object p n) (fill_array create k vs a n))"

definition create_array :: "('v \<Rightarrow> nat option edit) \<Rightarrow> 'v list option \<Rightarrow> int \<Rightarrow> nat option edit" where
  "create_array create values count =
     (if count < 0 \<or> values = None then yields None
      else andthen cJSON_CreateArray (\<lambda>a.
        if a = None then yields None else fill_array create (nat count) (the values) a None))"

definition cJSON_CreateIntArray :: "int list option \<Rightarrow> int \<Rightarrow> nat option edit" where
  "cJSON_CreateIntArray numbers count = create_array (\<lambda>i. cJSON_CreateNumber (Fin (of_int i))) numbers count"

text \<open>A float is exact as a double.\<close>

definition cJSON_CreateFloatArray :: "dbl list option \<Rightarrow> int \<Rightarrow> nat option edit" where
  "cJSON_CreateFloatArray numbers count = create_array cJSON_CreateNumber numbers count"

definition cJSON_CreateDoubleArray :: "dbl list option \<Rightarrow> int \<Rightarrow> nat option edit" where
  "cJSON_CreateDoubleArray numbers count = create_array cJSON_CreateNumber numbers count"

definition cJSON_CreateStringArray :: "bytes option list option \<Rightarrow> int \<Rightarrow> nat option edit" where
  "cJSON_CreateStringArray strings count = create_array cJSON_CreateString strings count"

section \<open>Duplication\<close>

text \<open>A copied string, or nothing to copy; the flag says that the copy failed.\<close>

definition copy_string :: "bool \<Rightarrow> bytes option \<Rightarrow> (bytes option \<times> bool) edit" where
  "copy_string shared str =
     (if str = None \<or> shared then yields (str, False)
      else andthen (cJSON_strdup str) (\<lambda>c. yields (c, c = None)))"

text \<open>The fields of the copy; the result says whether no copy of a string failed.\<close>

definition copy_fields :: "nat option \<Rightarrow> nat option \<Rightarrow> bool edit" where
  "copy_fields item newitem =
     andthen (rd st_type item) (\<lambda>t.
     semi (wr st_type_update newitem (t AND NOT cJSON_IsReference))
     (andthen (rd st_valueint item) (\<lambda>i. semi (wr st_valueint_update newitem i)
     (andthen (rd st_valuedouble item) (\<lambda>d. semi (wr st_valuedouble_update newitem d)
     (andthen (rd st_valuestring item) (\<lambda>v. andthen (copy_string False v) (\<lambda>(v', failed).
     semi (wr st_valuestring_update newitem v')
     (if failed then yields False
      else
        andthen (rd st_string item) (\<lambda>str.
        andthen (copy_string (t AND cJSON_StringIsConst \<noteq> 0) str) (\<lambda>(str', failed).
        semi (wr st_string_update newitem str') (yields (\<not> failed)))))))))))))"

text \<open>
  \<open>duplicate_children\<close> is the loop over the children, with the item being made and the last child
  linked; the result says whether it reached the end.
\<close>

fun duplicate :: "nat \<Rightarrow> nat option \<Rightarrow> bool \<Rightarrow> jstore \<Rightarrow> (nat option \<times> jstore) cres"
  and duplicate_children :: "nat \<Rightarrow> nat option \<Rightarrow> nat option \<Rightarrow> nat option \<Rightarrow> jstore \<Rightarrow> (bool \<times> jstore) cres"
where
  "duplicate 0 item recurse s = Inl OutOfFuel"
| "duplicate (Suc fuel) item recurse s =
     (if item = None then yields None
      else andthen new_node (\<lambda>newitem.
        if newitem = None then yields None
        else andthen (copy_fields item newitem) (\<lambda>ok.
          if \<not> ok then semi (delete_item newitem) (yields None)
          else if \<not> recurse then yields newitem
          else
            andthen (rd st_child item) (\<lambda>c.
            andthen (duplicate_children fuel c newitem None) (\<lambda>ok.
            if ok then yields newitem else semi (delete_item newitem) (yields None)))))) s"
| "duplicate_children 0 child newitem last_copy s = Inl OutOfFuel"
| "duplicate_children (Suc fuel) child newitem last_copy s =
     (if child = None then
        andthen (rd st_child newitem) (\<lambda>c.
          if c \<noteq> None then semi (wr st_prev_update c last_copy) (yields True) else yields True) s
      else andthen (duplicate fuel child True) (\<lambda>newchild.
        if newchild = None then yields False
        else
          semi (if last_copy \<noteq> None then suffix_object last_copy newchild else wr st_child_update newitem newchild)
          (andthen (rd st_next child) (\<lambda>n. duplicate_children fuel n newitem newchild))) s)"

definition cJSON_Duplicate :: "nat option \<Rightarrow> bool \<Rightarrow> nat option edit" where
  "cJSON_Duplicate item recurse s = duplicate (2 * card (st_live s) + 2) item recurse s"

section \<open>Setters\<close>

definition cJSON_SetNumberHelper :: "nat option \<Rightarrow> dbl \<Rightarrow> dbl edit" where
  "cJSON_SetNumberHelper object number =
     andthen (saturated number) (\<lambda>i.
     semi (wr st_valueint_update object i) (semi (wr st_valuedouble_update object number) (yields number)))"

text \<open>
  The length of the stored string is taken without looking whether there is one; a string that is
  not longer is copied over the old one, in its block.
\<close>

definition cJSON_SetValuestring :: "nat option \<Rightarrow> bytes option \<Rightarrow> bytes option edit" where
  "cJSON_SetValuestring object str =
     andthen (rd st_type object) (\<lambda>t.
     if t AND cJSON_String = 0 \<or> t AND cJSON_IsReference \<noteq> 0 then yields None
     else
       andthen (\<lambda>s. cbind (deref str) (\<lambda>m. Inr (m, s))) (\<lambda>new_string.
       andthen (rd st_valuestring object) (\<lambda>v.
       andthen (\<lambda>s. cbind (deref v) (\<lambda>m. Inr (m, s))) (\<lambda>old_string.
       if length (cstr new_string) \<le> length (cstr old_string) then
         semi (wr st_valuestring_update object (Some (cstr new_string))) (yields (Some (cstr new_string)))
       else
         andthen (cJSON_strdup str) (\<lambda>copy.
         if copy = None then yields None
         else semi free_string (semi (wr st_valuestring_update object copy) (yields copy)))))))"

end
