(* ===== verification/JsonLinks.thy ===== *)
theory JsonLinks
  imports JsonCreate
begin

text \<open>
  The list of children of an item, seen as a list: \<open>has_children s a xs\<close> says that the links of the
  store make \<open>xs\<close> the children of \<open>a\<close> (next ends in NULL, prev is circular).  The lemmas show that
  the array operations of JsonEdit are the operations on lists they stand for, and that cJSON\_Delete
  frees exactly the tree it is given.
\<close>

section \<open>Linked lists\<close>

fun chain :: "(nat \<Rightarrow> nat option) \<Rightarrow> (nat \<Rightarrow> nat option) \<Rightarrow> nat option \<Rightarrow> nat list \<Rightarrow> nat option \<Rightarrow> bool" where
  "chain nx pv p [] q \<longleftrightarrow> True"
| "chain nx pv p (x # xs) q \<longleftrightarrow>
     pv x = p \<and> nx x = (case xs of [] \<Rightarrow> q | y # _ \<Rightarrow> Some y) \<and> chain nx pv (Some x) xs q"

definition first_of :: "nat list \<Rightarrow> nat option" where
  "first_of xs = (case xs of [] \<Rightarrow> None | x # _ \<Rightarrow> Some x)"

definition has_children :: "jstore \<Rightarrow> nat \<Rightarrow> nat list \<Rightarrow> bool" where
  "has_children s a xs \<longleftrightarrow>
     set (a # xs) \<subseteq> st_live s \<and> distinct (a # xs) \<and> st_child s a = first_of xs \<and>
     (xs \<noteq> [] \<longrightarrow> chain (st_next s) (st_prev s) (Some (last xs)) xs None)"

lemma first_of_simps [simp]: "first_of [] = None" "first_of (x # xs) = Some x"
  by (simp_all add: first_of_def)

lemma first_of_append [simp]: "xs \<noteq> [] \<Longrightarrow> first_of (xs @ ys) = first_of xs"
  by (cases xs) simp_all

lemma first_of_hd: "xs \<noteq> [] \<Longrightarrow> first_of xs = Some (hd xs)"
  by (cases xs) simp_all

lemma chain_append:
  "chain nx pv p (xs @ y # ys) q \<longleftrightarrow>
     chain nx pv p xs (Some y) \<and> chain nx pv (if xs = [] then p else Some (last xs)) (y # ys) q"
  by (induction xs arbitrary: p) (auto split: list.splits)

lemma chain_other [simp]:
  "z \<notin> set xs \<Longrightarrow> chain (nx(z := v)) pv p xs q = chain nx pv p xs q"
  "z \<notin> set xs \<Longrightarrow> chain nx (pv(z := v)) p xs q = chain nx pv p xs q"
  by (induction xs arbitrary: p) auto

lemma chain_first:
  "xs \<noteq> [] \<Longrightarrow> distinct xs \<Longrightarrow> chain nx pv p xs q \<Longrightarrow> chain nx (pv(hd xs := p')) p' xs q"
  by (cases xs) auto

lemma chain_last:
  "xs \<noteq> [] \<Longrightarrow> distinct xs \<Longrightarrow> chain nx pv p xs q \<Longrightarrow> chain (nx(last xs := q')) pv p xs q'"
  by (cases xs rule: rev_cases) (auto simp: chain_append)

lemma chain_ends: "xs \<noteq> [] \<Longrightarrow> chain nx pv p xs q \<Longrightarrow> pv (hd xs) = p \<and> nx (last xs) = q"
  by (induction xs arbitrary: p) (auto split: list.splits)

text \<open>The same list with other ends.\<close>

lemma chain_relink:
  assumes "chain nx pv p xs q" and "xs \<noteq> []" and "distinct xs" and "pv' (hd xs) = p'" and "nx' (last xs) = q'"
    and "\<And>x. x \<in> set xs \<Longrightarrow> x \<noteq> hd xs \<Longrightarrow> pv' x = pv x" and "\<And>x. x \<in> set xs \<Longrightarrow> x \<noteq> last xs \<Longrightarrow> nx' x = nx x"
  shows "chain nx' pv' p' xs q'"
proof -
  have cong: "(\<forall>x\<in>set xs. f' x = f x \<and> g' x = g x) \<Longrightarrow> chain f' g' r xs t = chain f g r xs t" for f f' g g' r t
    by (induction xs arbitrary: r) auto
  have "chain (nx(last xs := q')) (pv(hd xs := p')) p' xs q'"
    using chain_first[OF assms(2,3)] chain_last[OF assms(2,3)] assms(1) by blast
  then show ?thesis by (subst cong[of _ "nx(last xs := q')" _ "pv(hd xs := p')"]) (use assms in auto)
qed

section \<open>Reading and writing\<close>

lemma rd_Some [simp]: "a \<in> st_live s \<Longrightarrow> rd fld (Some a) s = Inr (fld s a, s)"
  by (simp add: rd_def)

lemma rd_None [simp]: "rd fld None s = Inl NullDeref"
  by (simp add: rd_def)

lemma wr_Some [simp]: "a \<in> st_live s \<Longrightarrow> wr upd (Some a) v s = Inr ((), upd (\<lambda>f. f(a := v)) s)"
  by (simp add: wr_def)

lemma wr_None [simp]: "wr upd None v s = Inl NullDeref"
  by (simp add: wr_def)

lemma wr_fields:
  "a \<in> st_live s \<Longrightarrow> wr st_next_update (Some a) v s = Inr ((), s\<lparr>st_next := (st_next s)(a := v)\<rparr>)"
  "a \<in> st_live s \<Longrightarrow> wr st_prev_update (Some a) v s = Inr ((), s\<lparr>st_prev := (st_prev s)(a := v)\<rparr>)"
  "a \<in> st_live s \<Longrightarrow> wr st_child_update (Some a) v s = Inr ((), s\<lparr>st_child := (st_child s)(a := v)\<rparr>)"
  by (cases s; simp add: wr_def)+

lemmas edit_simps = andthen_def semi_def yields_def cbind_Inr prod.case

lemma item_at_children:
  assumes "has_children s a xs"
  shows "item_at (Some a) k s = Inr (if k < length xs then Some (xs ! k) else None, s)"
proof -
  have walk: "walk_to (first_of ys) i s = Inr (if i < length ys then Some (ys ! i) else None, s)"
    if "set ys \<subseteq> st_live s" "chain (st_next s) (st_prev s) p ys None" for ys i p
    using that
  proof (induction ys arbitrary: p i)
    case (Cons y ys)
    then show ?case
      by (cases i) (auto simp: first_of_def split: list.splits)
  qed simp
  show ?thesis
    using assms walk[of xs "Some (last xs)" k]
    by (cases "xs = []") (auto simp: item_at_def has_children_def edit_simps)
qed

section \<open>Adding, detaching, inserting\<close>

lemma add_item_children:
  assumes "has_children s a xs" and "i \<in> st_live s" and "i \<notin> set (a # xs)" and "st_next s i = None"
  shows "\<exists>s'. add_item_to_array (Some a) (Some i) s = Inr (True, s') \<and> has_children s' a (xs @ [i]) \<and>
    st_live s' = st_live s \<and> st_heap s' = st_heap s"
proof (cases "xs = []")
  case True
  then show ?thesis using assms by (auto simp: add_item_to_array_def has_children_def edit_simps)
next
  case False
  define x l where "x = hd xs" and "l = last xs"
  have mem: "x \<in> set xs" "l \<in> set xs" using False by (simp_all add: x_def l_def)
  have live: "a \<in> st_live s" "set xs \<subseteq> st_live s" "distinct xs" "a \<notin> set xs" "st_child s a = Some x"
    and c: "chain (st_next s) (st_prev s) (Some l) xs None"
    using assms(1) False by (simp_all add: has_children_def first_of_hd x_def l_def)
  have px: "st_prev s x = Some l" using chain_ends[OF False c] by (simp add: x_def)
  have ends: "x \<in> st_live s" "l \<in> st_live s" using live(2) mem by auto
  define s' where "s' = s\<lparr>st_next := (st_next s)(l := Some i), st_prev := (st_prev s)(i := Some l, x := Some i)\<rparr>"
  have "add_item_to_array (Some a) (Some i) s = Inr (True, s')"
    using live(1,5) ends px assms(2,3) by (simp add: add_item_to_array_def suffix_object_def edit_simps s'_def)
  moreover have "chain (st_next s') (st_prev s') (Some i) (xs @ [i]) None"
  proof -
    have "chain ((st_next s)(l := Some i)) (st_prev s) (Some l) xs (Some i)"
      using chain_last[OF False live(3) c] by (simp add: l_def)
    then have "chain ((st_next s)(l := Some i)) ((st_prev s)(i := Some l)) (Some l) xs (Some i)"
      using assms(3) by simp
    then have "chain (st_next s') (st_prev s') (Some i) xs (Some i)"
      using chain_first[OF False live(3), of _ _ "Some l" "Some i" "Some i"] by (simp add: s'_def x_def)
    then show ?thesis using assms(3,4) mem False by (auto simp: chain_append s'_def l_def)
  qed
  moreover have "st_live s' = st_live s" "st_child s' = st_child s" "st_heap s' = st_heap s" by (simp_all add: s'_def)
  ultimately show ?thesis
    using assms(2,3) live False by (intro exI[of _ s']) (simp add: has_children_def first_of_hd x_def)
qed

text \<open>The neighbours of an item of the list, and the list without them.\<close>

lemma children_split:
  assumes "has_children s a (ys @ x # zs)"
  shows "{a, x} \<union> set ys \<union> set zs \<subseteq> st_live s" and "distinct (a # x # ys @ zs)"
    and "st_child s a = Some (hd (ys @ [x]))" and "st_next s x = first_of zs"
    and "st_prev s x = Some (if ys = [] then last (x # zs) else last ys)"
    and "ys \<noteq> [] \<Longrightarrow> chain (st_next s) (st_prev s) (Some (last (x # zs))) ys (Some x)"
    and "zs \<noteq> [] \<Longrightarrow> chain (st_next s) (st_prev s) (Some x) zs None"
proof -
  have ch: "set (a # ys @ x # zs) \<subseteq> st_live s" "distinct (a # ys @ x # zs)" "st_child s a = first_of (ys @ x # zs)"
    "chain (st_next s) (st_prev s) (Some (last (x # zs))) (ys @ x # zs) None"
    using assms by (simp_all add: has_children_def)
  show "{a, x} \<union> set ys \<union> set zs \<subseteq> st_live s" "distinct (a # x # ys @ zs)" using ch(1,2) by auto
  show "st_child s a = Some (hd (ys @ [x]))" using ch(3) by (cases ys) simp_all
  have c: "chain (st_next s) (st_prev s) (Some (last (x # zs))) ys (Some x)"
    "chain (st_next s) (st_prev s) (if ys = [] then Some (last (x # zs)) else Some (last ys)) (x # zs) None"
    using ch(4) by (simp_all only: chain_append)
  then show "st_next s x = first_of zs" "st_prev s x = Some (if ys = [] then last (x # zs) else last ys)"
    "ys \<noteq> [] \<Longrightarrow> chain (st_next s) (st_prev s) (Some (last (x # zs))) ys (Some x)"
    "zs \<noteq> [] \<Longrightarrow> chain (st_next s) (st_prev s) (Some x) zs None"
    by (simp_all add: first_of_def)
qed

lemma detach_children:
  assumes "has_children s a (ys @ x # zs)"
  shows "\<exists>s'. cJSON_DetachItemViaPointer (Some a) (Some x) s = Inr (Some x, s') \<and> has_children s' a (ys @ zs) \<and>
    st_next s' x = None \<and> st_prev s' x = None \<and> st_live s' = st_live s \<and> st_heap s' = st_heap s"
proof -
  note c = children_split[OF assms]
  have live: "a \<in> st_live s" "x \<in> st_live s" "set ys \<subseteq> st_live s" "set zs \<subseteq> st_live s" using c(1) by auto
  have dist: "x \<notin> set ys" "x \<notin> set zs" "a \<noteq> x" "a \<notin> set ys" "a \<notin> set zs" "distinct ys" "distinct zs"
    "set ys \<inter> set zs = {}" using c(2) by auto
  show ?thesis
  proof (cases "ys = []")
    case True
    define s' where "s' = s\<lparr>st_child := (st_child s)(a := first_of zs),
      st_prev := (if zs = [] then st_prev s else (st_prev s)(hd zs := Some (last zs)))(x := None),
      st_next := (st_next s)(x := None)\<rparr>"
    have z: "hd zs \<in> st_live s" if "zs \<noteq> []" using that live(4) by auto
    have "cJSON_DetachItemViaPointer (Some a) (Some x) s = Inr (Some x, s')"
      using True c(3,4,5) live z dist
      by (cases zs) (auto simp: cJSON_DetachItemViaPointer_def edit_simps s'_def)
    moreover have "zs \<noteq> [] \<Longrightarrow> chain (st_next s') (st_prev s') (Some (last zs)) zs None"
      using chain_first[of zs "st_next s" "st_prev s" "Some x" None "Some (last zs)"] c(7) dist by (simp add: s'_def)
    moreover have "st_live s' = st_live s" "st_child s' a = first_of zs" "st_heap s' = st_heap s"
      "st_next s' x = None" "st_prev s' x = None" by (simp_all add: s'_def)
    ultimately show ?thesis using True live dist by (intro exI[of _ s']) (simp add: has_children_def)
  next
    case False
    define y where "y = last ys"
    have y: "y \<in> set ys" "y \<in> st_live s" "hd ys \<in> st_live s" "hd ys \<in> set ys" using False live(3) by (auto simp: y_def)
    define s' where "s' = s\<lparr>st_next := (st_next s)(y := first_of zs, x := None),
      st_prev := (if zs = [] then (st_prev s)(hd ys := Some y) else (st_prev s)(hd zs := Some y))(x := None)\<rparr>"
    have z: "hd zs \<in> st_live s" if "zs \<noteq> []" using that live(4) by auto
    have "Some x \<noteq> Some (hd ys)" "x \<noteq> y" using y dist by auto
    then have "cJSON_DetachItemViaPointer (Some a) (Some x) s = Inr (Some x, s')"
      using False c(3,4,5) live z dist y
      by (cases zs) (auto simp: cJSON_DetachItemViaPointer_def edit_simps s'_def y_def)
    moreover have "chain (st_next s') (st_prev s') (Some (last (ys @ zs))) (ys @ zs) None"
    proof (cases zs)
      case Nil
      have "chain (st_next s) (st_prev s) (Some x) ys (Some x)" using c(6) False Nil by simp
      from chain_first[OF False dist(6) chain_last[OF False dist(6) this]] show ?thesis
        using Nil dist y by (simp add: s'_def y_def)
    next
      case (Cons z zs')
      have "chain ((st_next s)(y := Some z)) (st_prev s) (Some (last zs)) ys (Some z)"
        using chain_last[OF False dist(6) c(6)[OF False], of "Some z"] Cons by (simp add: y_def)
      moreover have "chain (st_next s) ((st_prev s)(z := Some y)) (Some y) zs None"
        using chain_first[of zs "st_next s" "st_prev s" "Some x" None "Some y"] c(7) dist Cons by simp
      moreover have "y \<notin> set zs" "z \<notin> set ys" using dist(8) y(1) Cons by auto
      ultimately show ?thesis
        using Cons dist(1,2) y False by (auto simp: s'_def chain_append y_def)
    qed
    moreover have "st_live s' = st_live s" "st_child s' = st_child s" "st_heap s' = st_heap s"
      "st_next s' x = None" "st_prev s' x = None" by (simp_all add: s'_def)
    ultimately show ?thesis using False live dist c(3) by (intro exI[of _ s']) (simp add: has_children_def first_of_hd)
  qed
qed

lemma insert_children:
  assumes "has_children s a (ys @ x # zs)" and "n \<in> st_live s" and "n \<notin> set (a # ys @ x # zs)"
  shows "\<exists>s'. cJSON_InsertItemInArray (Some a) (int (length ys)) (Some n) s = Inr (True, s') \<and>
    has_children s' a (ys @ n # x # zs) \<and> st_live s' = st_live s \<and> st_heap s' = st_heap s"
proof -
  note c = children_split[OF assms(1)]
  have live: "a \<in> st_live s" "x \<in> st_live s" "set ys \<subseteq> st_live s" "set zs \<subseteq> st_live s" using c(1) by auto
  have dist: "x \<notin> set ys" "x \<notin> set zs" "a \<noteq> x" "a \<notin> set ys" "a \<notin> set zs" "distinct ys" "distinct zs"
    "set ys \<inter> set zs = {}" using c(2) by auto
  have n: "n \<noteq> a" "n \<noteq> x" "n \<notin> set ys" "n \<notin> set zs" using assms(3) by auto
  have at: "item_at (Some a) (length ys) s = Inr (Some x, s)" using item_at_children[OF assms(1), of "length ys"] by simp
  define s' where "s' = s\<lparr>st_next := (if ys = [] then (st_next s)(n := Some x) else (st_next s)(n := Some x, last ys := Some n)),
    st_prev := (st_prev s)(n := st_prev s x, x := Some n),
    st_child := (if ys = [] then (st_child s)(a := Some n) else st_child s)\<rparr>"
  have y: "last ys \<in> set ys" "last ys \<in> st_live s" "hd ys \<noteq> x" "last ys \<noteq> x" "last ys \<noteq> n" if "ys \<noteq> []"
    using that live(3) dist(1) n(3) by auto
  have "cJSON_InsertItemInArray (Some a) (int (length ys)) (Some n) s = Inr (True, s')"
    using c(3,5) live(1,2) assms(2) y n at
    by (cases "ys = []") (simp_all add: cJSON_InsertItemInArray_def edit_simps s'_def)
  moreover have "chain (st_next s') (st_prev s') (Some (last (x # zs))) (ys @ n # x # zs) None"
  proof (cases "ys = []")
    case True
    then show ?thesis using c(4,5,7) n dist by (cases zs) (auto simp: s'_def)
  next
    case False
    have "chain ((st_next s)(last ys := Some n)) (st_prev s) (Some (last (x # zs))) ys (Some n)"
      using chain_last[OF False dist(6) c(6)[OF False], of "Some n"] .
    then have "chain (st_next s') (st_prev s') (Some (last (x # zs))) ys (Some n)"
      using False n dist y(5)[OF False] by (simp add: s'_def fun_upd_twist[of n "last ys"])
    moreover have "last ys \<notin> set zs" using y(1)[OF False] dist(8) by auto
    then have "chain (st_next s') (st_prev s') (Some x) zs None"
      using c(7) n dist False by (cases "zs = []") (simp_all add: s'_def)
    ultimately show ?thesis using c(4,5) n dist y False
      by (cases zs) (auto simp: chain_append s'_def)
  qed
  moreover have "st_live s' = st_live s" "st_child s' a = Some (hd (ys @ [n]))" "st_heap s' = st_heap s"
    using c(3) by (simp_all add: s'_def)
  ultimately show ?thesis using live dist n assms(2) by (intro exI[of _ s']) (cases ys; auto simp: has_children_def)
qed

text \<open>The same on the functions that take an index.\<close>

lemma array_add:
  assumes "has_children s a (ys @ zs)" and "n \<in> st_live s" and "n \<notin> set (a # ys @ zs)" and "st_next s n = None"
  shows "\<exists>s'. cJSON_AddItemToArray (Some a) (Some n) s = Inr (True, s') \<and> has_children s' a (ys @ zs @ [n]) \<and>
    st_live s' = st_live s"
  using add_item_children[OF assms] by (auto simp: cJSON_AddItemToArray_def)

lemma array_insert:
  assumes "has_children s a (ys @ zs)" and "n \<in> st_live s" and "n \<notin> set (a # ys @ zs)" and "st_next s n = None"
  shows "\<exists>s'. cJSON_InsertItemInArray (Some a) (int (length ys)) (Some n) s = Inr (True, s') \<and>
    has_children s' a (ys @ n # zs) \<and> st_live s' = st_live s"
proof (cases zs)
  case Nil
  then have "cJSON_InsertItemInArray (Some a) (int (length ys)) (Some n) s = add_item_to_array (Some a) (Some n) s"
    using item_at_children[OF assms(1), of "length ys"] by (simp add: cJSON_InsertItemInArray_def edit_simps)
  then show ?thesis using array_add[OF assms] Nil by (auto simp: cJSON_AddItemToArray_def)
next
  case (Cons x xs)
  then show ?thesis using insert_children[of s a ys x xs n] assms(1-3) by auto
qed

lemma array_detach:
  assumes "has_children s a (ys @ zs)"
  shows "\<exists>s'. cJSON_DetachItemFromArray (Some a) (int (length ys)) s = Inr (first_of zs, s') \<and>
    has_children s' a (ys @ tl zs) \<and> st_live s' = st_live s \<and>
    (zs \<noteq> [] \<longrightarrow> st_next s' (hd zs) = None \<and> st_prev s' (hd zs) = None)"
proof (cases zs)
  case Nil
  then show ?thesis using item_at_children[OF assms, of "length ys"] assms
    by (simp add: cJSON_DetachItemFromArray_def cJSON_DetachItemViaPointer_def edit_simps)
next
  case (Cons x xs)
  then show ?thesis using item_at_children[OF assms, of "length ys"] detach_children[of s a ys x xs] assms
    by (auto simp: cJSON_DetachItemFromArray_def edit_simps)
qed

section \<open>Deleting a tree\<close>

datatype item_tree = Branch (root: nat) (subtrees: "item_tree list")

fun addresses :: "item_tree \<Rightarrow> nat list" where
  "addresses (Branch a ts) = a # concat (map addresses ts)"

definition is_ref :: "jstore \<Rightarrow> nat \<Rightarrow> bool" where
  "is_ref s a \<longleftrightarrow> st_type s a AND cJSON_IsReference \<noteq> 0"

text \<open>The blocks an item owns besides those of its children.\<close>

definition own_blocks :: "jstore \<Rightarrow> nat \<Rightarrow> int" where
  "own_blocks s a = 1 + (if \<not> is_ref s a \<and> st_valuestring s a \<noteq> None then 1 else 0) +
     (if st_type s a AND cJSON_StringIsConst = 0 \<and> st_string s a \<noteq> None then 1 else 0)"

text \<open>\<open>owns_all s ts\<close>: the items \<open>ts\<close>, linked by next, with the trees they own; a reference owns no child.\<close>

fun owns :: "jstore \<Rightarrow> item_tree \<Rightarrow> bool" and owns_all :: "jstore \<Rightarrow> item_tree list \<Rightarrow> bool" where
  "owns s (Branch a ts) \<longleftrightarrow>
     a \<in> st_live s \<and>
     (if is_ref s a \<or> st_child s a = None then ts = []
      else ts \<noteq> [] \<and> st_child s a = first_of (map root ts) \<and> owns_all s ts)"
| "owns_all s [] \<longleftrightarrow> True"
| "owns_all s (t # ts) \<longleftrightarrow> owns s t \<and> st_next s (root t) = first_of (map root ts) \<and> owns_all s ts"

lemma trees_live:
  "owns s t \<Longrightarrow> set (addresses t) \<subseteq> st_live s"
  "owns_all s ts \<Longrightarrow> set (concat (map addresses ts)) \<subseteq> st_live s"
  by (induction s t and s ts rule: owns_owns_all.induct) (auto split: if_splits)

lemma trees_kept:
  "owns s t \<Longrightarrow> set (addresses t) \<subseteq> L \<Longrightarrow> owns (s\<lparr>st_live := L, st_heap := h\<rparr>) t"
  "owns_all s ts \<Longrightarrow> set (concat (map addresses ts)) \<subseteq> L \<Longrightarrow> owns_all (s\<lparr>st_live := L, st_heap := h\<rparr>) ts"
  by (induction s t and s ts rule: owns_owns_all.induct) (auto simp: is_ref_def)

lemma delete_from_trees:
  assumes "owns_all s ts" and "distinct (concat (map addresses ts))" and "length (concat (map addresses ts)) < fuel"
  shows "delete_from fuel (first_of (map root ts)) s =
    Inr ((), s\<lparr>st_live := st_live s - set (concat (map addresses ts)),
      st_heap := release (\<Sum>a\<leftarrow>concat (map addresses ts). own_blocks s a) (st_heap s)\<rparr>)"
  using assms
proof (induction fuel arbitrary: s ts)
  case (Suc fuel)
  show ?case
  proof (cases ts)
    case Nil
    then show ?thesis by (simp add: release_def)
  next
    case (Cons t us)
    obtain a cs where t: "t = Branch a cs" by (cases t)
    let ?A = "concat (map addresses cs)" and ?B = "concat (map addresses us)"
    have a: "a \<in> st_live s" "st_next s a = first_of (map root us)" "owns_all s us"
      using Suc.prems(1) by (simp_all add: Cons t)
    have d: "distinct ?A" "distinct ?B" "a \<notin> set ?A" "a \<notin> set ?B" "set ?A \<inter> set ?B = {}"
      and len: "length ?A < fuel" "length ?B < fuel"
      using Suc.prems(2,3) by (auto simp: Cons t)
    define s1 where "s1 = s\<lparr>st_live := st_live s - set ?A, st_heap := release (\<Sum>x\<leftarrow>?A. own_blocks s x) (st_heap s)\<rparr>"
    have sub: "(if \<not> is_ref s a \<and> st_child s a \<noteq> None then delete_from fuel (st_child s a) s else Inr ((), s)) = Inr ((), s1)"
    proof (cases "\<not> is_ref s a \<and> st_child s a \<noteq> None")
      case True
      then have "st_child s a = first_of (map root cs)" "owns_all s cs" using Suc.prems(1) by (auto simp: Cons t)
      then show ?thesis using Suc.IH[OF _ d(1) len(1)] True by (simp add: s1_def)
    next
      case False
      then have "cs = []" using Suc.prems(1) by (auto simp: Cons t split: if_splits)
      then show ?thesis using False by (auto simp: s1_def release_def)
    qed
    define s2 where "s2 = s1\<lparr>st_live := st_live s1 - {a}, st_heap := release (own_blocks s a) (st_heap s1)\<rparr>"
    have own: "own_blocks s2 = own_blocks s" by (simp add: fun_eq_iff s2_def s1_def own_blocks_def is_ref_def)
    have s2: "s2 = s\<lparr>st_live := st_live s - set ?A - {a}, st_heap := st_heap s2\<rparr>" by (simp add: s2_def s1_def)
    have "set ?B \<subseteq> st_live s - set ?A - {a}" using trees_live(2)[OF a(3)] d by auto
    then have "owns_all s2 us" by (subst s2) (rule trees_kept(2)[OF a(3)])
    note rest = Suc.IH[OF this d(2) len(2)]
    have freed: "st_live s2 - set ?B = st_live s - set (concat (map addresses ts))"
      by (auto simp: s2_def s1_def Cons t)
    have "delete_from (Suc fuel) (Some a) s = delete_from fuel (first_of (map root us)) s2"
      using a(1,2) sub d(3) by (simp add: s1_def s2_def own_blocks_def is_ref_def Let_def)
    also have "\<dots> = Inr ((), s\<lparr>st_live := st_live s - set (concat (map addresses ts)),
        st_heap := release (\<Sum>x\<leftarrow>concat (map addresses ts). own_blocks s x) (st_heap s)\<rparr>)"
      unfolding rest own unfolding freed by (simp add: s2_def s1_def Cons t release_def)
    finally show ?thesis by (simp add: Cons t)
  qed
qed simp

lemma trees_agree:
  "owns s t \<Longrightarrow> set (addresses t) \<subseteq> st_live s' \<Longrightarrow>
     \<forall>x\<in>set (addresses t). st_child s' x = st_child s x \<and> st_type s' x = st_type s x \<Longrightarrow>
     \<forall>x\<in>set (concat (map addresses (subtrees t))). st_next s' x = st_next s x \<Longrightarrow> owns s' t"
  "owns_all s ts \<Longrightarrow> set (concat (map addresses ts)) \<subseteq> st_live s' \<Longrightarrow>
     \<forall>x\<in>set (concat (map addresses ts)). st_child s' x = st_child s x \<and> st_type s' x = st_type s x \<Longrightarrow>
     \<forall>x\<in>set (concat (map addresses ts)). st_next s' x = st_next s x \<Longrightarrow> owns_all s' ts"
proof (induction s t and s ts rule: owns_owns_all.induct)
  case (3 s t ts)
  have "root t \<in> set (addresses t)" "set (concat (map addresses (subtrees t))) \<subseteq> set (addresses t)" by (cases t; auto)+
  then show ?case using 3 by auto
qed (auto simp: is_ref_def split: if_splits)

lemma delete_item_tree:
  assumes "owns s t" and "st_next s (root t) = None" and "distinct (addresses t)" and "finite (st_live s)"
  shows "delete_item (Some (root t)) s =
    Inr ((), s\<lparr>st_live := st_live s - set (addresses t), st_heap := release (\<Sum>a\<leftarrow>addresses t. own_blocks s a) (st_heap s)\<rparr>)"
proof -
  have "length (addresses t) \<le> card (st_live s)"
    using card_mono[OF assms(4) trees_live(1)[OF assms(1)]] distinct_card[OF assms(3)] by simp
  then show ?thesis using delete_from_trees[of s "[t]" "2 * card (st_live s) + 2"] assms by (simp add: delete_item_def)
qed

section \<open>Replacing an item\<close>

text \<open>The links after the replacement, before the old item is deleted.\<close>

lemma replace_links:
  assumes "has_children s a (ys @ x # zs)" and "r \<in> st_live s" and "r \<notin> set (a # ys @ x # zs)"
  shows "\<exists>nx pv ch. cJSON_ReplaceItemViaPointer (Some a) (Some x) (Some r) s =
      semi (delete_item (Some x)) (yields True) (s\<lparr>st_child := ch, st_next := nx, st_prev := pv\<rparr>) \<and>
    has_children (s\<lparr>st_child := ch, st_next := nx, st_prev := pv\<rparr>) a (ys @ r # zs) \<and> nx x = None \<and>
    (\<forall>b. b \<notin> set (r # x # ys) \<longrightarrow> nx b = st_next s b) \<and> (\<forall>b. b \<noteq> a \<longrightarrow> ch b = st_child s b)"
proof -
  note c = children_split[OF assms(1)]
  have live: "a \<in> st_live s" "x \<in> st_live s" "set ys \<subseteq> st_live s" "set zs \<subseteq> st_live s" using c(1) by auto
  have dist: "x \<notin> set ys" "x \<notin> set zs" "a \<noteq> x" "a \<notin> set ys" "a \<notin> set zs" "distinct ys" "distinct zs"
    "set ys \<inter> set zs = {}" using c(2) by auto
  have r: "r \<noteq> a" "r \<noteq> x" "r \<notin> set ys" "r \<notin> set zs" using assms(3) by auto
  have z: "hd zs \<in> st_live s" "hd zs \<noteq> x" "hd zs \<noteq> r" "first_of zs = Some (hd zs)" "last zs \<noteq> x" if "zs \<noteq> []"
    using that live(4) dist(2) r(4) by (auto simp: first_of_hd)
  have y: "last ys \<in> set ys" "last ys \<in> st_live s" "hd ys \<in> st_live s" "hd ys \<noteq> x" "last ys \<noteq> x" "last ys \<noteq> r" "hd ys \<noteq> r"
    if "ys \<noteq> []" using that live(3) dist(1) r(3) by auto
  define nx where "nx = (if ys = [] then (st_next s)(r := first_of zs) else (st_next s)(r := first_of zs, last ys := Some r))(x := None)"
  define pv where "pv = (let p = (st_prev s)(r := st_prev s x);
     p = (if zs \<noteq> [] then p(hd zs := Some r) else if ys = [] then p(r := Some r) else p(hd ys := Some r)) in p(x := None))"
  define ch where "ch = (if ys = [] then (st_child s)(a := Some r) else st_child s)"
  define s' where "s' = s\<lparr>st_child := ch, st_next := nx, st_prev := pv\<rparr>"
  have calc: "cJSON_ReplaceItemViaPointer (Some a) (Some x) (Some r) s = semi (delete_item (Some x)) (yields True) s'"
    using c(3,4,5) live(1,2) assms(2) r(2) y z
    by (cases "ys = []"; cases "zs = []")
      (simp_all del: wr_Some add: wr_fields cJSON_ReplaceItemViaPointer_def edit_simps s'_def nx_def pv_def ch_def Let_def)
  have "chain nx pv (Some (last (r # zs))) (ys @ r # zs) None"
  proof -
    have pv: "pv r = Some (if ys = [] then last (r # zs) else last ys)"
      "zs \<noteq> [] \<Longrightarrow> pv (hd zs) = Some r" "ys \<noteq> [] \<Longrightarrow> zs = [] \<Longrightarrow> pv (hd ys) = Some r"
      using c(5) z(2,3) y(4,7) r(2) by (cases "zs = []"; cases "ys = []"; force simp: pv_def Let_def)+
    have other: "b \<notin> {r, x} \<Longrightarrow> zs \<noteq> [] \<longrightarrow> b \<noteq> hd zs \<Longrightarrow> zs = [] \<and> ys \<noteq> [] \<longrightarrow> b \<noteq> hd ys \<Longrightarrow> pv b = st_prev s b" for b
      by (simp add: pv_def Let_def)
    have nx: "nx r = first_of zs" "ys \<noteq> [] \<Longrightarrow> nx (last ys) = Some r"
      "b \<notin> {r, x} \<Longrightarrow> ys \<noteq> [] \<longrightarrow> b \<noteq> last ys \<Longrightarrow> nx b = st_next s b" for b
      using y r(2) by (auto simp: nx_def)
    have apart: "b \<in> set zs \<Longrightarrow> ys \<noteq> [] \<longrightarrow> b \<noteq> last ys" for b using dist(8) y(1) by blast
    have tail: "chain nx pv (Some r) zs None" if "zs \<noteq> []"
    proof (rule chain_relink[OF c(7)[OF that] that dist(7)])
      show "pv (hd zs) = Some r" using pv(2)[OF that] .
      note ne = that
      have "last zs \<in> set zs" using that by simp
      then show "nx (last zs) = None"
        using nx(3)[of "last zs"] chain_ends[OF that c(7)[OF that]] r(4) dist(2) apart by auto
      show "pv b = st_prev s b" if "b \<in> set zs" "b \<noteq> hd zs" for b using other[of b] ne that r(4) dist(2) by auto
      show "nx b = st_next s b" if "b \<in> set zs" for b using nx(3)[of b] that r(4) dist(2) apart by auto
    qed
    have front: "chain nx pv (Some (last (r # zs))) ys (Some r)" if ne: "ys \<noteq> []"
    proof (rule chain_relink[OF c(6)[OF ne] ne dist(6)])
      have heads: "hd zs \<notin> set ys" if "zs \<noteq> []" using hd_in_set[OF that] dist(8) by blast
      then have "zs \<noteq> [] \<Longrightarrow> hd zs \<noteq> hd ys" using hd_in_set[OF ne] by auto
      then show "pv (hd ys) = Some (last (r # zs))"
        using pv(3)[OF ne] other[of "hd ys"] chain_ends[OF ne c(6)[OF ne]] y(4,7)[OF ne] by (cases "zs = []") auto
      show "nx (last ys) = Some r" using nx(2)[OF ne] .
      show "pv b = st_prev s b" if "b \<in> set ys" "b \<noteq> hd ys" for b
        using other[of b] that r(3) dist(1) heads by auto
      show "nx b = st_next s b" if "b \<in> set ys" "b \<noteq> last ys" for b using nx(3)[of b] that r(3) dist(1) by auto
    qed
    have "chain nx pv (if ys = [] then Some (last (r # zs)) else Some (last ys)) (r # zs) None"
      using tail pv(1) nx(1) by (cases zs) auto
    then show ?thesis using front by (cases "ys = []") (simp_all add: chain_append)
  qed
  moreover have "ch a = first_of (ys @ r # zs)" using c(3) by (cases ys) (simp_all add: ch_def)
  moreover have links: "nx x = None" "\<forall>b. b \<notin> set (r # x # ys) \<longrightarrow> nx b = st_next s b" "\<forall>b. b \<noteq> a \<longrightarrow> ch b = st_child s b"
    using y(1) by (auto simp: nx_def ch_def)
  moreover have "set (a # ys @ r # zs) \<subseteq> st_live s" "distinct (a # ys @ r # zs)" using live dist r assms(2) by auto
  ultimately have "has_children s' a (ys @ r # zs)" by (simp add: has_children_def s'_def)
  with calc links show ?thesis by (intro exI[of _ nx] exI[of _ pv] exI[of _ ch]) (simp add: s'_def)
qed


text \<open>The replacement takes the place of the old item, and exactly the old item's tree is freed.\<close>

lemma replace_children:
  assumes "has_children s a (ys @ x # zs)" and "r \<in> st_live s" and "r \<notin> set (a # ys @ x # zs)"
    and "owns s t" and "root t = x" and "distinct (addresses t)" and "finite (st_live s)"
    and "set (addresses t) \<inter> set (a # r # ys @ zs) = {}"
  shows "\<exists>s'. cJSON_ReplaceItemInArray (Some a) (int (length ys)) (Some r) s = Inr (True, s') \<and>
    has_children s' a (ys @ r # zs) \<and> st_live s' = st_live s - set (addresses t) \<and>
    st_heap s' = release (\<Sum>b\<leftarrow>addresses t. own_blocks s b) (st_heap s)"
proof -
  let ?A = "set (addresses t)"
  obtain nx pv ch where
    replace: "cJSON_ReplaceItemViaPointer (Some a) (Some x) (Some r) s =
      semi (delete_item (Some x)) (yields True) (s\<lparr>st_child := ch, st_next := nx, st_prev := pv\<rparr>)" and
    list: "has_children (s\<lparr>st_child := ch, st_next := nx, st_prev := pv\<rparr>) a (ys @ r # zs)" and
    links: "nx x = None" "\<forall>b. b \<notin> set (r # x # ys) \<longrightarrow> nx b = st_next s b" "\<forall>b. b \<noteq> a \<longrightarrow> ch b = st_child s b"
    using replace_links[OF assms(1-3)] by blast
  define s1 where "s1 = s\<lparr>st_child := ch, st_next := nx, st_prev := pv\<rparr>"
  obtain cs where t: "t = Branch x cs" using assms(5) by (cases t) simp
  have disj: "b \<noteq> a" "b \<noteq> r" "b \<notin> set ys" "b \<notin> set zs" if "b \<in> ?A" for b using assms(8) that by auto
  have "\<forall>b\<in>?A. st_child s1 b = st_child s b \<and> st_type s1 b = st_type s b"
    using links(3) disj(1) by (simp add: s1_def)
  moreover have "\<forall>b\<in>set (concat (map addresses (subtrees t))). st_next s1 b = st_next s b"
  proof
    fix b assume b: "b \<in> set (concat (map addresses (subtrees t)))"
    then have "b \<in> ?A" "b \<noteq> x" using assms(6) by (auto simp: t)
    then show "st_next s1 b = st_next s b" using links(2) disj(2,3) by (simp add: s1_def)
  qed
  moreover have "?A \<subseteq> st_live s1" using trees_live(1)[OF assms(4)] by (simp add: s1_def)
  ultimately have own: "owns s1 t" using trees_agree(1)[OF assms(4)] by blast
  have blocks: "own_blocks s1 = own_blocks s" by (simp add: fun_eq_iff s1_def own_blocks_def is_ref_def)
  define s' where "s' = s1\<lparr>st_live := st_live s1 - ?A, st_heap := release (\<Sum>b\<leftarrow>addresses t. own_blocks s b) (st_heap s1)\<rparr>"
  have "delete_item (Some x) s1 = Inr ((), s')"
    using delete_item_tree[OF own, unfolded blocks] assms(5,6,7) links(1) by (simp add: s1_def s'_def)
  then have "cJSON_ReplaceItemInArray (Some a) (int (length ys)) (Some r) s = Inr (True, s')"
    using item_at_children[OF assms(1), of "length ys"] replace
    by (simp add: cJSON_ReplaceItemInArray_def edit_simps s1_def)
  moreover have "has_children s' a (ys @ r # zs)"
    using list disj unfolding has_children_def s'_def s1_def by auto
  moreover have "st_live s' = st_live s - ?A" "st_heap s' = release (\<Sum>b\<leftarrow>addresses t. own_blocks s b) (st_heap s)"
    by (simp_all add: s'_def s1_def)
  ultimately show ?thesis by blast
qed

end
