(* ===== verification/JsonCompare.thy ===== *)
theory JsonCompare
  imports JsonLinks JsonPrint
begin

text \<open>
  cJSON\_Compare of src/cJSON.c, on the store of JsonEdit, and the relation on values it decides
  (\<open>json_equal\<close>).  \<open>holds s t v\<close> says that the items \<open>t\<close> of the store hold the value \<open>v\<close>; on two
  separate trees the comparison returns whether their values are related.  The relation is
  symmetric, and it is reflexive on values with ordinary numbers and distinct names.
\<close>

section \<open>The comparison\<close>

text \<open>The code before the two loops: the result, or the type of two different containers.\<close>

definition compare_heads :: "nat option \<Rightarrow> nat option \<Rightarrow> (bool + int) edit" where
  "compare_heads a b s =
     (if a = None \<or> b = None then Inr (Inl False, s)
      else
        cbind (rd st_type a s) (\<lambda>(ta, s).
        cbind (rd st_type b s) (\<lambda>(tb, s).
        let t = ta AND 0xFF in
        if t \<noteq> tb AND 0xFF then Inr (Inl False, s)
        else if t \<notin> {cJSON_False, cJSON_True, cJSON_NULL, cJSON_Number, cJSON_String, cJSON_Raw, cJSON_Array, cJSON_Object}
          then Inr (Inl False, s)
        else if a = b then Inr (Inl True, s)
        else if t \<in> {cJSON_False, cJSON_True, cJSON_NULL} then Inr (Inl True, s)
        else if t = cJSON_Number then
          cbind (rd st_valuedouble a s) (\<lambda>(x, s). cbind (rd st_valuedouble b s) (\<lambda>(y, s).
          Inr (Inl (compare_double x y), s)))
        else if t = cJSON_String \<or> t = cJSON_Raw then
          cbind (rd st_valuestring a s) (\<lambda>(x, s). cbind (rd st_valuestring b s) (\<lambda>(y, s).
          Inr (Inl (x \<noteq> None \<and> y \<noteq> None \<and> cstr (the x) = cstr (the y)), s)))
        else Inr (Inr t, s))))"

text \<open>cJSON\_Compare, with its two loops as functions of their own; the fuel is enough by \<open>compare_holds\<close>.\<close>

fun compare_items :: "nat \<Rightarrow> bool \<Rightarrow> nat option \<Rightarrow> nat option \<Rightarrow> bool edit"
  and compare_elements :: "nat \<Rightarrow> bool \<Rightarrow> nat option \<Rightarrow> nat option \<Rightarrow> bool edit"
  and compare_members :: "nat \<Rightarrow> bool \<Rightarrow> nat option \<Rightarrow> nat option \<Rightarrow> bool edit" where
  "compare_items 0 cs a b s = Inl OutOfFuel"
| "compare_items (Suc fuel) cs a b s =
     cbind (compare_heads a b s) (\<lambda>(r, s).
     case r of
       Inl same \<Rightarrow> Inr (same, s)
     | Inr t \<Rightarrow>
         cbind (rd st_child a s) (\<lambda>(x, s).
         if t = cJSON_Array then cbind (rd st_child b s) (\<lambda>(y, s). compare_elements fuel cs x y s)
         else
           cbind (compare_members fuel cs x b s) (\<lambda>(same, s).
           if \<not> same then Inr (False, s)
           else cbind (rd st_child b s) (\<lambda>(y, s). compare_members fuel cs y a s))))"
| "compare_elements 0 cs x y s = Inl OutOfFuel"
| "compare_elements (Suc fuel) cs x y s =
     (if x = None \<or> y = None then Inr (x = y, s)
      else
        cbind (compare_items fuel cs x y s) (\<lambda>(same, s).
        if \<not> same then Inr (False, s)
        else cbind (rd st_next x s) (\<lambda>(x', s). cbind (rd st_next y s) (\<lambda>(y', s). compare_elements fuel cs x' y' s))))"
| "compare_members 0 cs x other s = Inl OutOfFuel"
| "compare_members (Suc fuel) cs x other s =
     (if x = None then Inr (True, s)
      else
        cbind (rd st_string x s) (\<lambda>(name, s).
        cbind (item_named other name cs s) (\<lambda>(y, s).
        if y = None then Inr (False, s)
        else
          cbind (compare_items fuel cs x y s) (\<lambda>(same, s).
          if \<not> same then Inr (False, s)
          else cbind (rd st_next x s) (\<lambda>(x', s). compare_members fuel cs x' other s)))))"

definition cJSON_Compare :: "nat option \<Rightarrow> nat option \<Rightarrow> bool \<Rightarrow> bool edit" where
  "cJSON_Compare a b case_sensitive s = compare_items (2 * card (st_live s) + 2) case_sensitive a b s"

section \<open>The relation it decides\<close>

lemma find_member:
  "find_cs nm xs = Some y \<Longrightarrow> y \<in> set xs" "find_ci nm xs = Some y \<Longrightarrow> y \<in> set xs"
  by (induction xs) (auto split: option.splits if_splits)

lemma get_object_item_child: "get_object_item (Some w) nm cs = Some y \<Longrightarrow> y \<in> set (children w)"
  by (auto simp: get_object_item_def dest: find_member split: option.splits if_splits)

lemma child_smaller [simp]: "x \<in> set (children v) \<Longrightarrow> size x < size v"
  by (cases v) (force simp: less_Suc_eq_le intro: size_list_estimation')

function json_equal :: "bool \<Rightarrow> cJSON \<Rightarrow> cJSON \<Rightarrow> bool" where
  "json_equal cs v w \<longleftrightarrow>
     (let t = c_type v AND 0xFF in
      t = c_type w AND 0xFF \<and>
      (if t \<in> {cJSON_False, cJSON_True, cJSON_NULL} then True
       else if t = cJSON_Number then compare_double (valuedouble v) (valuedouble w)
       else if t = cJSON_String \<or> t = cJSON_Raw then
         valuestring v \<noteq> None \<and> valuestring w \<noteq> None \<and> cstr (the (valuestring v)) = cstr (the (valuestring w))
       else if t = cJSON_Array then
         length (children v) = length (children w) \<and> (\<forall>(x, y) \<in> set (zip (children v) (children w)). json_equal cs x y)
       else if t = cJSON_Object then
         (\<forall>x \<in> set (children v). case get_object_item (Some w) (c_string x) cs of None \<Rightarrow> False | Some y \<Rightarrow> json_equal cs x y) \<and>
         (\<forall>y \<in> set (children w). case get_object_item (Some v) (c_string y) cs of None \<Rightarrow> False | Some x \<Rightarrow> json_equal cs y x)
       else False))"
  by pat_completeness auto
termination
proof (relation "measure (\<lambda>(_, v, w). size v + size w)")
  fix v w x y :: cJSON and z :: "cJSON \<times> cJSON"
  assume "z \<in> set (zip (children v) (children w))" "(x, y) = z"
  then have "x \<in> set (children v)" "y \<in> set (children w)" by (auto dest: set_zip_leftD set_zip_rightD)
  then show "((cs, x, y), cs, v, w) \<in> measure (\<lambda>(_, v, w). size v + size w)" for cs :: bool
    by (simp add: add_strict_mono)
qed (auto dest!: get_object_item_child child_smaller)

declare json_equal.simps [simp del]

section \<open>Values in the store\<close>

text \<open>\<open>holds s t v\<close>: the items \<open>t\<close> and their links hold the value \<open>v\<close>.\<close>

fun holds :: "jstore \<Rightarrow> item_tree \<Rightarrow> cJSON \<Rightarrow> bool"
  and holds_all :: "jstore \<Rightarrow> item_tree list \<Rightarrow> cJSON list \<Rightarrow> bool" where
  "holds s (Branch a ts) v \<longleftrightarrow>
     a \<in> st_live s \<and> st_type s a = c_type v \<and> st_valuestring s a = valuestring v \<and>
     st_valueint s a = valueint v \<and> st_valuedouble s a = valuedouble v \<and> st_string s a = c_string v \<and>
     st_child s a = first_of (map root ts) \<and> holds_all s ts (children v)"
| "holds_all s [] vs \<longleftrightarrow> vs = []"
| "holds_all s (t # ts) vs \<longleftrightarrow>
     (case vs of
        [] \<Rightarrow> False
      | v # vs' \<Rightarrow> holds s t v \<and> st_next s (root t) = first_of (map root ts) \<and> holds_all s ts vs')"

lemma holds_root:
  assumes "holds s t v"
  shows "root t \<in> st_live s" "st_type s (root t) = c_type v" "st_valuestring s (root t) = valuestring v"
    "st_valuedouble s (root t) = valuedouble v" "st_string s (root t) = c_string v"
    "st_child s (root t) = first_of (map root (subtrees t))" "holds_all s (subtrees t) (children v)"
  using assms by (cases t; simp)+

lemma holds_live:
  "holds s t v \<Longrightarrow> set (addresses t) \<subseteq> st_live s"
  "holds_all s ts vs \<Longrightarrow> set (concat (map addresses ts)) \<subseteq> st_live s"
  by (induction s t v and s ts vs rule: holds_holds_all.induct) (auto split: list.splits)

lemma addresses_root [simp]: "root t \<in> set (addresses t)" "addresses t \<noteq> []"
  by (cases t; simp)+

lemma addresses_subtrees: "addresses t = root t # concat (map addresses (subtrees t))"
  by (cases t) simp

lemma addresses_length: "length ts \<le> length (concat (map addresses ts))"
proof (induction ts)
  case (Cons t ts)
  then show ?case by (cases t) simp
qed simp

lemma finding_holds:
  assumes "holds_all s ts vs" and "length ts < fuel"
  shows "\<exists>r. find_named fuel cs nm (first_of (map root ts)) s = Inr (map_option root r, s) \<and>
    (case r of None \<Rightarrow> (if cs then find_cs nm vs else find_ci nm vs) = None
     | Some t \<Rightarrow> t \<in> set ts \<and> (\<exists>v. (if cs then find_cs nm vs else find_ci nm vs) = Some v \<and> holds s t v))"
  using assms
proof (induction ts arbitrary: vs fuel)
  case Nil
  then show ?case by (cases fuel) (auto intro!: exI[of _ None])
next
  case (Cons t ts)
  obtain v ws where vs: "vs = v # ws" "holds s t v" "st_next s (root t) = first_of (map root ts)" "holds_all s ts ws"
    using Cons.prems(1) by (auto split: list.splits)
  obtain f where f: "fuel = Suc f" "length ts < f" using Cons.prems(2) by (cases fuel) auto
  note t = holds_root[OF vs(2)]
  define found where "found \<longleftrightarrow> (if cs then c_string v = None \<or> cstr nm = cstr (the (c_string v))
    else case_insensitive_strcmp (Some nm) (c_string v) = 0)"
  have step: "find_named fuel cs nm (first_of (map root (t # ts))) s =
      (if found then Inr (Some (root t), s) else find_named f cs nm (first_of (map root ts)) s)"
    using t(1,5) vs(3) by (simp add: f(1) found_def edit_simps)
  have lookup: "(if cs then find_cs nm vs else find_ci nm vs) =
      (if found then Some v else if cs then find_cs nm ws else find_ci nm ws)"
    by (auto simp: vs(1) found_def split: option.splits)
  show ?case
  proof (cases found)
    case True
    then show ?thesis using step lookup vs(2) by (intro exI[of _ "Some t"]) simp
  next
    case False
    obtain r where "find_named f cs nm (first_of (map root ts)) s = Inr (map_option root r, s)"
      "case r of None \<Rightarrow> (if cs then find_cs nm ws else find_ci nm ws) = None
       | Some t \<Rightarrow> t \<in> set ts \<and> (\<exists>v. (if cs then find_cs nm ws else find_ci nm ws) = Some v \<and> holds s t v)"
      using Cons.IH[OF vs(4) f(2)] by blast
    then show ?thesis using step lookup False by (intro exI[of _ r]) (auto split: option.splits)
  qed
qed

lemma item_named_holds:
  assumes "holds s t v" and "finite (st_live s)" and "distinct (addresses t)"
  shows "\<exists>r. item_named (Some (root t)) nm cs s = Inr (map_option root r, s) \<and>
    (case r of None \<Rightarrow> get_object_item (Some v) nm cs = None
     | Some u \<Rightarrow> u \<in> set (subtrees t) \<and> (\<exists>w. get_object_item (Some v) nm cs = Some w \<and> holds s u w))"
proof (cases nm)
  case None
  then show ?thesis by (intro exI[of _ None]) (simp add: item_named_def get_object_item_def)
next
  case (Some m)
  note t = holds_root[OF assms(1)]
  have "length (subtrees t) \<le> length (addresses t)"
    using addresses_length[of "subtrees t"] by (simp add: addresses_subtrees)
  also have "\<dots> \<le> card (st_live s)"
    using card_mono[OF assms(2) holds_live(1)[OF assms(1)]] distinct_card[OF assms(3)] by simp
  finally obtain r where r: "find_named (card (st_live s) + 1) cs m (first_of (map root (subtrees t))) s = Inr (map_option root r, s)"
    "case r of None \<Rightarrow> (if cs then find_cs m (children v) else find_ci m (children v)) = None
     | Some u \<Rightarrow> u \<in> set (subtrees t) \<and> (\<exists>w. (if cs then find_cs m (children v) else find_ci m (children v)) = Some w \<and> holds s u w)"
    using finding_holds[OF t(7), of "card (st_live s) + 1" cs m] by auto
  show ?thesis
  proof (cases r)
    case None
    then show ?thesis using r t(1,6) Some by (intro exI[of _ None]) (simp add: item_named_def get_object_item_def edit_simps)
  next
    case (Some u)
    then obtain w where w: "(if cs then find_cs m (children v) else find_ci m (children v)) = Some w" "holds s u w"
      "u \<in> set (subtrees t)" using r(2) by auto
    have "item_named (Some (root t)) nm cs s = Inr (map_option root (if c_string w = None then None else Some u), s)"
      using r(1) Some t(1,6) \<open>nm = Some m\<close> holds_root(5)[OF w(2)] by (simp add: item_named_def edit_simps)
    then show ?thesis using w \<open>nm = Some m\<close>
      by (intro exI[of _ "if c_string w = None then None else Some u"]) (simp add: get_object_item_def)
  qed
qed

section \<open>The comparison decides the relation\<close>

lemma compare_heads_holds:
  assumes "holds s t v" and "holds s u w" and "root t \<noteq> root u"
  shows "compare_heads (Some (root t)) (Some (root u)) s =
    Inr (if c_type v AND 0xFF = c_type w AND 0xFF \<and> c_type v AND 0xFF \<in> {cJSON_Array, cJSON_Object}
         then Inr (c_type v AND 0xFF) else Inl (json_equal cs v w), s)"
proof -
  define a b where "a = c_type v AND 0xFF" and "b = c_type w AND 0xFF"
  note t = holds_root[OF assms(1)] and u = holds_root[OF assms(2)]
  show ?thesis
    unfolding compare_heads_def json_equal.simps[of cs v w] rd_Some[OF t(1)] rd_Some[OF u(1)] t(2-4) u(2-4)
      cbind_Inr prod.case Let_def a_def[symmetric] b_def[symmetric]
    using assms(3) by (simp add: json_types)
qed

lemma holds_all_length: "holds_all s ts vs \<Longrightarrow> length ts = length vs"
  by (induction ts arbitrary: vs) (auto split: list.splits)

definition apart :: "item_tree list \<Rightarrow> item_tree list \<Rightarrow> bool" where
  "apart ts us \<longleftrightarrow> distinct (concat (map addresses (ts @ us)))"

abbreviation item_count :: "item_tree list \<Rightarrow> nat" where
  "item_count ts \<equiv> length (concat (map addresses ts))"

text \<open>What the three functions return, with their fuel.\<close>

definition items_decided :: "jstore \<Rightarrow> bool \<Rightarrow> nat \<Rightarrow> bool" where
  "items_decided s cs fuel \<longleftrightarrow>
     (\<forall>t u v w. holds s t v \<and> holds s u w \<and> apart [t] [u] \<and> 2 * (item_count [t] + item_count [u]) \<le> fuel \<longrightarrow>
        compare_items fuel cs (Some (root t)) (Some (root u)) s = Inr (json_equal cs v w, s))"

definition elements_decided :: "jstore \<Rightarrow> bool \<Rightarrow> nat \<Rightarrow> bool" where
  "elements_decided s cs fuel \<longleftrightarrow>
     (\<forall>ts us vs ws. holds_all s ts vs \<and> holds_all s us ws \<and> apart ts us \<and> 2 * (item_count ts + item_count us) + 1 \<le> fuel \<longrightarrow>
        compare_elements fuel cs (first_of (map root ts)) (first_of (map root us)) s =
          Inr (length vs = length ws \<and> (\<forall>(x, y) \<in> set (zip vs ws). json_equal cs x y), s))"

definition members_match :: "bool \<Rightarrow> cJSON list \<Rightarrow> cJSON \<Rightarrow> bool" where
  "members_match cs vs w \<longleftrightarrow>
     (\<forall>x \<in> set vs. case get_object_item (Some w) (c_string x) cs of None \<Rightarrow> False | Some y \<Rightarrow> json_equal cs x y)"

definition members_decided :: "jstore \<Rightarrow> bool \<Rightarrow> nat \<Rightarrow> bool" where
  "members_decided s cs fuel \<longleftrightarrow>
     (\<forall>ts u vs w. holds_all s ts vs \<and> holds s u w \<and> apart ts [u] \<and> 2 * (item_count ts + item_count [u]) \<le> fuel + 1 \<longrightarrow>
        compare_members fuel cs (first_of (map root ts)) (Some (root u)) s = Inr (members_match cs vs w, s))"

lemma items_decidedD:
  assumes "items_decided s cs fuel" and "holds s t v" and "holds s u w" and "apart [t] [u]"
    and "2 * (item_count [t] + item_count [u]) \<le> fuel"
  shows "compare_items fuel cs (Some (root t)) (Some (root u)) s = Inr (json_equal cs v w, s)"
  using assms unfolding items_decided_def by blast

lemma elements_decidedD:
  assumes "elements_decided s cs fuel" and "holds_all s ts vs" and "holds_all s us ws" and "apart ts us"
    and "2 * (item_count ts + item_count us) + 1 \<le> fuel"
  shows "compare_elements fuel cs (first_of (map root ts)) (first_of (map root us)) s =
    Inr (length vs = length ws \<and> (\<forall>(x, y) \<in> set (zip vs ws). json_equal cs x y), s)"
  using assms unfolding elements_decided_def by blast

lemma members_decidedD:
  assumes "members_decided s cs fuel" and "holds_all s ts vs" and "holds s u w" and "apart ts [u]"
    and "2 * (item_count ts + item_count [u]) \<le> fuel + 1"
  shows "compare_members fuel cs (first_of (map root ts)) (Some (root u)) s = Inr (members_match cs vs w, s)"
  using assms unfolding members_decided_def by blast

lemma members_match_simps [simp]:
  "members_match cs [] w"
  "members_match cs (x # xs) w \<longleftrightarrow>
     (case get_object_item (Some w) (c_string x) cs of None \<Rightarrow> False | Some y \<Rightarrow> json_equal cs x y) \<and> members_match cs xs w"
  by (simp_all add: members_match_def)

lemma json_equal_containers:
  assumes "c_type v AND 0xFF = t" and "c_type w AND 0xFF = t"
  shows "t = cJSON_Array \<Longrightarrow> json_equal cs v w \<longleftrightarrow>
      length (children v) = length (children w) \<and> (\<forall>(x, y) \<in> set (zip (children v) (children w)). json_equal cs x y)"
    and "t = cJSON_Object \<Longrightarrow> json_equal cs v w \<longleftrightarrow> members_match cs (children v) w \<and> members_match cs (children w) v"
  unfolding json_equal.simps[of cs v w] assms by (simp_all add: json_types members_match_def)

lemma items_step:
  assumes "elements_decided s cs fuel" and "members_decided s cs fuel"
  shows "items_decided s cs (Suc fuel)"
  unfolding items_decided_def
proof (intro allI impI; elim conjE)
  fix t u v w
  assume h: "holds s t v" "holds s u w" and ap: "apart [t] [u]" and f: "2 * (item_count [t] + item_count [u]) \<le> Suc fuel"
  let ?ts = "subtrees t" and ?us = "subtrees u"
  have ne: "root t \<noteq> root u"
    using ap addresses_root(1)[of t] addresses_root(1)[of u] by (force simp: apart_def disjoint_iff)
  have ap': "apart ?ts ?us" "apart ?ts [u]" "apart ?us [t]" using ap by (auto simp: apart_def addresses_subtrees[of t] addresses_subtrees[of u])
  have size: "item_count [t] = item_count ?ts + 1" "item_count [u] = item_count ?us + 1" by (simp_all add: addresses_subtrees[of t] addresses_subtrees[of u])
  note t = holds_root[OF h(1)] and u = holds_root[OF h(2)]
  have elements: "compare_elements fuel cs (first_of (map root ?ts)) (first_of (map root ?us)) s =
      Inr (length (children v) = length (children w) \<and>
        (\<forall>(x, y) \<in> set (zip (children v) (children w)). json_equal cs x y), s)"
    by (rule elements_decidedD[OF assms(1)]) (use t(7) u(7) ap'(1) f size in simp_all)
  have members: "compare_members fuel cs (first_of (map root ?ts)) (Some (root u)) s =
      Inr (members_match cs (children v) w, s)"
    by (rule members_decidedD[OF assms(2)]) (use t(7) h(2) ap'(2) f size in simp_all)
  have members': "compare_members fuel cs (first_of (map root ?us)) (Some (root t)) s =
      Inr (members_match cs (children w) v, s)"
    by (rule members_decidedD[OF assms(2)]) (use u(7) h(1) ap'(3) f size in simp_all)
  consider "c_type v AND 0xFF = c_type w AND 0xFF" "c_type v AND 0xFF = cJSON_Array"
    | "c_type v AND 0xFF = c_type w AND 0xFF" "c_type v AND 0xFF = cJSON_Object"
    | "\<not> (c_type v AND 0xFF = c_type w AND 0xFF \<and> c_type v AND 0xFF \<in> {cJSON_Array, cJSON_Object})" by blast
  then show "compare_items (Suc fuel) cs (Some (root t)) (Some (root u)) s = Inr (json_equal cs v w, s)"
  proof cases
    case 1
    then have "json_equal cs v w \<longleftrightarrow> length (children v) = length (children w) \<and>
        (\<forall>(x, y) \<in> set (zip (children v) (children w)). json_equal cs x y)"
      using json_equal_containers(1)[of v cJSON_Array w cs] by simp
    then show ?thesis using 1 t(1,6) u(1,6) elements compare_heads_holds[OF h ne, of cs] by (simp add: edit_simps)
  next
    case 2
    then have "json_equal cs v w \<longleftrightarrow> members_match cs (children v) w \<and> members_match cs (children w) v"
      using json_equal_containers(2)[of v cJSON_Object w cs] by simp
    moreover have "cJSON_Object \<noteq> cJSON_Array" by (simp add: json_types)
    ultimately show ?thesis using 2 t(1,6) u(1,6) members members' compare_heads_holds[OF h ne, of cs] by (simp add: edit_simps)
  next
    case 3
    then show ?thesis using compare_heads_holds[OF h ne, of cs] by (auto simp: edit_simps)
  qed
qed

lemma elements_step:
  assumes "items_decided s cs fuel" and "elements_decided s cs fuel"
  shows "elements_decided s cs (Suc fuel)"
  unfolding elements_decided_def
proof (intro allI impI; elim conjE)
  fix ts us vs ws
  assume h: "holds_all s ts vs" "holds_all s us ws" and ap: "apart ts us" and f: "2 * (item_count ts + item_count us) + 1 \<le> Suc fuel"
  show "compare_elements (Suc fuel) cs (first_of (map root ts)) (first_of (map root us)) s =
      Inr (length vs = length ws \<and> (\<forall>(x, y) \<in> set (zip vs ws). json_equal cs x y), s)"
  proof (cases "ts = [] \<or> us = []")
    case True
    have "length ts = length vs" "length us = length ws" using holds_all_length h by blast+
    then show ?thesis using True by (cases ts; cases us) auto
  next
    case False
    then obtain t ts' u us' where l: "ts = t # ts'" "us = u # us'" by (cases ts; cases us) auto
    obtain v vs' w ws' where c: "vs = v # vs'" "ws = w # ws'" "holds s t v" "holds s u w"
      "st_next s (root t) = first_of (map root ts')" "st_next s (root u) = first_of (map root us')"
      "holds_all s ts' vs'" "holds_all s us' ws'" using h by (auto simp: l split: list.splits)
    have ap': "apart [t] [u]" "apart ts' us'" using ap by (auto simp: apart_def l)
    have pos: "item_count ts = item_count [t] + item_count ts'" "item_count us = item_count [u] + item_count us'" "item_count [t] = Suc (item_count (subtrees t))" "item_count [u] = Suc (item_count (subtrees u))"
      by (simp_all add: l addresses_subtrees)
    have "compare_items fuel cs (Some (root t)) (Some (root u)) s = Inr (json_equal cs v w, s)"
      by (rule items_decidedD[OF assms(1)]) (use c(3,4) ap'(1) f pos in simp_all)
    moreover have "compare_elements fuel cs (first_of (map root ts')) (first_of (map root us')) s =
        Inr (length vs' = length ws' \<and> (\<forall>(x, y) \<in> set (zip vs' ws'). json_equal cs x y), s)"
      by (rule elements_decidedD[OF assms(2)]) (use c(7,8) ap'(2) f pos in simp_all)
    ultimately show ?thesis
      using holds_root(1)[OF c(3)] holds_root(1)[OF c(4)] c(5,6) by (simp add: l c(1,2) edit_simps)
  qed
qed

lemma members_step:
  assumes "finite (st_live s)" and "items_decided s cs fuel" and "members_decided s cs fuel"
  shows "members_decided s cs (Suc fuel)"
  unfolding members_decided_def
proof (intro allI impI; elim conjE)
  fix ts u vs w
  assume h: "holds_all s ts vs" "holds s u w" and ap: "apart ts [u]" and f: "2 * (item_count ts + item_count [u]) \<le> Suc fuel + 1"
  show "compare_members (Suc fuel) cs (first_of (map root ts)) (Some (root u)) s = Inr (members_match cs vs w, s)"
  proof (cases ts)
    case Nil
    then show ?thesis using h(1) by simp
  next
    case (Cons t ts')
    obtain v vs' where c: "vs = v # vs'" "holds s t v" "st_next s (root t) = first_of (map root ts')" "holds_all s ts' vs'"
      using h(1) by (auto simp: Cons split: list.splits)
    have pos: "item_count ts = item_count [t] + item_count ts'" "item_count [t] = Suc (item_count (subtrees t))"
      by (simp_all add: Cons addresses_subtrees)
    have "distinct (addresses u)" using ap by (simp add: apart_def)
    then obtain r where r: "item_named (Some (root u)) (c_string v) cs s = Inr (map_option root r, s)"
      "case r of None \<Rightarrow> get_object_item (Some w) (c_string v) cs = None
       | Some x \<Rightarrow> x \<in> set (subtrees u) \<and> (\<exists>y. get_object_item (Some w) (c_string v) cs = Some y \<and> holds s x y)"
      using item_named_holds[OF h(2) assms(1)] by blast
    have rest: "compare_members fuel cs (first_of (map root ts')) (Some (root u)) s =
        Inr (members_match cs vs' w, s)"
      by (rule members_decidedD[OF assms(3)]) (use c(4) h(2) ap f pos in \<open>simp_all add: apart_def Cons\<close>)
    note t = holds_root[OF c(2)]
    show ?thesis
    proof (cases r)
      case None
      then show ?thesis using r t(1,5) by (simp add: Cons c(1) edit_simps)
    next
      case (Some x)
      obtain y where y: "get_object_item (Some w) (c_string v) cs = Some y" "holds s x y" "x \<in> set (subtrees u)"
        using r(2) Some by auto
      have sub: "set (addresses x) \<subseteq> set (addresses u)" "distinct (addresses x)" "item_count [x] < item_count [u]"
        using y(3) ap by (auto simp: apart_def addresses_subtrees[of u] in_set_conv_decomp)
      have "apart [t] [x]" using ap sub by (auto simp: apart_def Cons)
      then have "compare_items fuel cs (Some (root t)) (Some (root x)) s = Inr (json_equal cs v y, s)"
        using items_decidedD[OF assms(2) c(2) y(2)] f pos sub(3) by simp
      then show ?thesis using r(1) Some t(1,5) c(3) rest y(1) by (simp add: Cons c(1) edit_simps)
    qed
  qed
qed

lemma compare_holds:
  assumes "finite (st_live s)"
  shows "items_decided s cs fuel \<and> elements_decided s cs fuel \<and> members_decided s cs fuel"
proof (induction fuel)
  case 0
  show ?case by (auto simp: items_decided_def elements_decided_def members_decided_def addresses_subtrees)
next
  case (Suc fuel)
  then show ?case using items_step elements_step members_step[OF assms] by blast
qed

lemma cJSON_Compare_holds:
  assumes "holds s t v" and "holds s u w" and "distinct (addresses t @ addresses u)" and "finite (st_live s)"
  shows "cJSON_Compare (Some (root t)) (Some (root u)) cs s = Inr (json_equal cs v w, s)"
proof -
  have "length (addresses t @ addresses u) \<le> card (st_live s)"
    using card_mono[OF assms(4), of "set (addresses t @ addresses u)"] distinct_card[OF assms(3)]
      holds_live(1)[OF assms(1)] holds_live(1)[OF assms(2)] by simp
  then have "2 * (item_count [t] + item_count [u]) \<le> 2 * card (st_live s) + 2" by simp
  moreover have "apart [t] [u]" using assms(3) by (simp add: apart_def)
  ultimately show ?thesis
    unfolding cJSON_Compare_def using items_decidedD[OF _ assms(1,2)] compare_holds[OF assms(4)] by blast
qed

section \<open>Symmetry and reflexivity\<close>

lemma compare_double_refl: "compare_double (Fin x) (Fin x)"
proof -
  have "0 \<le> \<bar>x\<bar> * DBL_EPSILON" by (simp add: DBL_EPSILON_def)
  then show ?thesis
    using round_pos_nonneg[of "\<bar>x\<bar> * DBL_EPSILON"] by (auto simp: compare_double_cases to_dbl_def Let_def)
qed

lemma compare_double_sym: "compare_double x y = compare_double y x"
proof (cases x; cases y)
  fix a b assume "x = Fin a" "y = Fin b"
  then show ?thesis by (auto simp: compare_double_cases abs_minus_commute)
qed (simp_all add: compare_double_cases)

lemma json_equal_sym: "json_equal cs v w = json_equal cs w v"
proof (induction "size v + size w" arbitrary: v w rule: less_induct)
  case less
  have pairs: "json_equal cs x y = json_equal cs y x" if "(x, y) \<in> set (zip (children v) (children w))" for x y
    using that set_zip_leftD[OF that] set_zip_rightD[OF that] by (intro less) (simp add: add_strict_mono)
  have arrays: "(length (children v) = length (children w) \<and>
      (\<forall>(x, y) \<in> set (zip (children v) (children w)). json_equal cs x y)) \<longleftrightarrow>
    (length (children w) = length (children v) \<and>
      (\<forall>(x, y) \<in> set (zip (children w) (children v)). json_equal cs x y))"
  proof (cases "length (children v) = length (children w)")
    case True
    then show ?thesis using pairs by (fastforce simp: set_zip)
  qed simp
  consider "c_type v AND 0xFF \<noteq> c_type w AND 0xFF"
    | "c_type v AND 0xFF = c_type w AND 0xFF" "c_type w AND 0xFF = cJSON_Array"
    | "c_type v AND 0xFF = c_type w AND 0xFF" "c_type w AND 0xFF = cJSON_Object"
    | "c_type v AND 0xFF = c_type w AND 0xFF" "c_type w AND 0xFF \<notin> {cJSON_Array, cJSON_Object}" by blast
  then show ?case
  proof cases
    case 1
    then show ?thesis by (simp add: json_equal.simps[of cs v w] json_equal.simps[of cs w v] Let_def)
  next
    case 2
    then show ?thesis using json_equal_containers(1)[of v cJSON_Array w cs] json_equal_containers(1)[of w cJSON_Array v cs] arrays
      by simp
  next
    case 3
    then show ?thesis using json_equal_containers(2)[of v cJSON_Object w cs] json_equal_containers(2)[of w cJSON_Object v cs]
      by auto
  next
    case 4
    then show ?thesis
      unfolding json_equal.simps[of cs v w] json_equal.simps[of cs w v] Let_def
      by (auto simp: compare_double_sym)
  qed
qed

text \<open>Values that equal their copies: finite numbers, strings that are there, and objects with distinct names.\<close>

definition name_key :: "bool \<Rightarrow> cJSON \<Rightarrow> bytes" where
  "name_key cs c = (if cs then cstr (the (c_string c)) else map tolower (cstr (the (c_string c))))"

fun comparable :: "bool \<Rightarrow> cJSON \<Rightarrow> bool" where
  "comparable cs (Item t vs vi vd nm ch) \<longleftrightarrow>
     (let k = t AND 0xFF in
      k \<in> {cJSON_False, cJSON_True, cJSON_NULL} \<or> (k = cJSON_Number \<and> (\<exists>x. vd = Fin x)) \<or>
      (k \<in> {cJSON_String, cJSON_Raw} \<and> vs \<noteq> None) \<or>
      (k \<in> {cJSON_Array, cJSON_Object} \<and> (\<forall>c \<in> set ch. comparable cs c) \<and>
       (k = cJSON_Object \<longrightarrow> (\<forall>c \<in> set ch. c_string c \<noteq> None) \<and> distinct (map (name_key cs) ch))))"

lemma get_own_member:
  assumes "c \<in> set (children v)" and "\<forall>c \<in> set (children v). c_string c \<noteq> None"
    and "distinct (map (name_key cs) (children v))"
  shows "get_object_item (Some v) (c_string c) cs = Some c"
proof -
  obtain nm where nm: "c_string c = Some nm" using assms(1,2) by blast
  have first: "find (\<lambda>x. name_key cs c = name_key cs x) xs = Some c" if "distinct (map (name_key cs) xs)" "c \<in> set xs" for xs
    using that
  proof (induction xs)
    case (Cons x xs)
    then show ?case by (cases "c = x") (auto simp: image_iff)
  qed simp
  have "(if cs then find_cs nm (children v) else find_ci nm (children v)) = Some c"
    using first[OF assms(3,1)] find_cs_first[OF assms(2), of nm] find_ci_first[OF assms(2), of nm] nm
    by (cases cs) (simp_all add: name_key_def)
  then show ?thesis using nm by (simp add: get_object_item_def)
qed

lemma json_equal_refl: "comparable cs v \<Longrightarrow> json_equal cs v v"
proof (induction cs v rule: comparable.induct)
  case (1 cs t vs vi vd nm ch)
  let ?v = "Item t vs vi vd nm ch"
  have ch: "json_equal cs c c" if "c \<in> set ch" "t AND 0xFF \<in> {cJSON_Array, cJSON_Object}" for c
    using 1 that by (auto simp: Let_def json_types)
  consider "t AND 0xFF = cJSON_Array" | "t AND 0xFF = cJSON_Object"
    | "t AND 0xFF \<notin> {cJSON_Array, cJSON_Object}" by blast
  then show ?case
  proof cases
    case 1
    then show ?thesis using ch json_equal_containers(1)[of ?v cJSON_Array ?v cs] by (auto simp: set_zip)
  next
    case 2
    then have "\<forall>c \<in> set ch. c_string c \<noteq> None" "distinct (map (name_key cs) ch)"
      using "1.prems" by (auto simp: Let_def json_types)
    then have "members_match cs ch ?v" using get_own_member[of _ ?v cs] ch 2 by (simp add: members_match_def)
    then show ?thesis using json_equal_containers(2)[of ?v cJSON_Object ?v cs] 2 by simp
  next
    case 3
    then show ?thesis using "1.prems"
      unfolding json_equal.simps[of cs ?v ?v] Let_def comparable.simps by (auto simp: compare_double_refl json_types)
  qed
qed

text \<open>
  Values that do not equal their copies: an infinite number, which equals every finite one instead,
  and an object in which a name occurs twice with different values.
\<close>

lemma infinite_number_compares:
  "json_equal cs (Item cJSON_Number vs i PInf nm []) (Item cJSON_Number vs' j (Fin x) nm' [])"
  "\<not> json_equal cs (Item cJSON_Number vs i PInf nm []) (Item cJSON_Number vs i PInf nm [])"
  by (simp_all add: json_equal.simps json_types compare_double_cases)

lemma repeated_name_compares:
  "\<not> json_equal cs (Item cJSON_Object None 0 (Fin 0) None
     [Item cJSON_True None 1 (Fin 0) (Some nm) [], Item cJSON_False None 0 (Fin 0) (Some nm) []])
   (Item cJSON_Object None 0 (Fin 0) None
     [Item cJSON_True None 1 (Fin 0) (Some nm) [], Item cJSON_False None 0 (Fin 0) (Some nm) []])"
  by (cases cs) (simp_all add: json_equal.simps json_types get_object_item_def case_insensitive_strcmp_def ci_cmp_refl)

end
