(* ===== verification/JsonDuplicate.thy ===== *)
theory JsonDuplicate
  imports JsonCompare
begin

text \<open>
  What cJSON\_Duplicate of src/cJSON.c promises, with any allocator: it returns; either a copy in
  new memory, with well-formed lists of children, that holds the same value (no reference, strings
  cut at their terminator), or NULL, with everything it allocated freed.  The original is not
  touched.
\<close>

section \<open>Copies and frames\<close>

fun copied :: "cJSON \<Rightarrow> cJSON" where
  "copied (Item t vs vi vd nm ch) =
     Item (t AND NOT cJSON_IsReference) (map_option cstr vs) vi vd
       (if t AND cJSON_StringIsConst = 0 then map_option cstr nm else nm) (map copied ch)"

text \<open>Every list of children in a tree is well-formed.\<close>

fun well_linked :: "jstore \<Rightarrow> item_tree \<Rightarrow> bool" where
  "well_linked s (Branch a ts) \<longleftrightarrow> has_children s a (map root ts) \<and> (\<forall>t \<in> set ts. well_linked s t)"

definition item_fields :: "jstore \<Rightarrow> nat \<Rightarrow> int \<times> bytes option \<times> int \<times> dbl \<times> bytes option" where
  "item_fields s a = (st_type s a, st_valuestring s a, st_valueint s a, st_valuedouble s a, st_string s a)"

definition same_links :: "nat set \<Rightarrow> jstore \<Rightarrow> jstore \<Rightarrow> bool" where
  "same_links A s s' \<longleftrightarrow> (\<forall>a \<in> A. st_next s' a = st_next s a \<and> st_prev s' a = st_prev s a)"

definition same_items :: "nat set \<Rightarrow> jstore \<Rightarrow> jstore \<Rightarrow> bool" where
  "same_items A s s' \<longleftrightarrow> (\<forall>a \<in> A. item_fields s' a = item_fields s a \<and> st_child s' a = st_child s a)"

abbreviation below :: "item_tree \<Rightarrow> nat set" where
  "below t \<equiv> set (concat (map addresses (subtrees t)))"

text \<open>A tree is the same in two stores that agree on its items and on the links below its root.\<close>

lemma below_root: "set (addresses t) = insert (root t) (below t)"
  by (simp add: addresses_subtrees[of t])

lemma below_sub: "u \<in> set ts \<Longrightarrow> set (addresses u) \<subseteq> set (concat (map addresses ts))"
  by auto

lemma holds_frame:
  "holds s t v \<Longrightarrow> set (addresses t) \<subseteq> st_live s' \<Longrightarrow> same_items (set (addresses t)) s s' \<Longrightarrow>
     same_links (below t) s s' \<Longrightarrow> holds s' t v"
  "holds_all s ts vs \<Longrightarrow> set (concat (map addresses ts)) \<subseteq> st_live s' \<Longrightarrow>
     same_items (set (concat (map addresses ts))) s s' \<Longrightarrow> same_links (set (concat (map addresses ts))) s s' \<Longrightarrow>
     holds_all s' ts vs"
proof (induction s t v and s ts vs rule: holds_holds_all.induct)
  case (3 s t ts vs)
  have sub: "root t \<in> set (addresses t)" "below t \<subseteq> set (addresses t)" using below_root[of t] by auto
  obtain v ws where vs: "vs = v # ws" "holds s t v" "st_next s (root t) = first_of (map root ts)" "holds_all s ts ws"
    using 3(3) by (auto split: list.splits)
  have "holds s' t v"
    by (rule 3(1)[OF vs(1,2)]) (use 3(4-) sub in \<open>auto simp: same_items_def same_links_def\<close>)
  moreover have "holds_all s' ts ws"
    by (rule 3(2)[OF vs(1,4)]) (use 3(4-) in \<open>auto simp: same_items_def same_links_def\<close>)
  moreover have "st_next s' (root t) = st_next s (root t)" using 3(6) sub(1) by (simp add: same_links_def)
  ultimately show ?case using vs by simp
qed (simp_all add: same_items_def same_links_def item_fields_def)

lemma chain_frame:
  "chain nx pv p xs q \<Longrightarrow> \<forall>x \<in> set xs. nx' x = nx x \<and> pv' x = pv x \<Longrightarrow> chain nx' pv' p xs q"
  by (induction xs arbitrary: p) auto

lemma has_children_frame:
  assumes "has_children s a xs" and "set (a # xs) \<subseteq> st_live s'" and "st_child s' a = st_child s a"
    and "same_links (set xs) s s'"
  shows "has_children s' a xs"
  using assms chain_frame[of "st_next s" "st_prev s" _ xs None "st_next s'" "st_prev s'"]
  by (simp add: has_children_def same_links_def)

lemma same_links_mono: "same_links A s s' \<Longrightarrow> B \<subseteq> A \<Longrightarrow> same_links B s s'"
  by (auto simp: same_links_def)

lemma same_items_mono: "same_items A s s' \<Longrightarrow> B \<subseteq> A \<Longrightarrow> same_items B s s'"
  by (auto simp: same_items_def)

lemma well_linked_frame:
  "well_linked s t \<Longrightarrow> set (addresses t) \<subseteq> st_live s' \<Longrightarrow> same_items (set (addresses t)) s s' \<Longrightarrow>
     same_links (below t) s s' \<Longrightarrow> well_linked s' t"
proof (induction s t rule: well_linked.induct)
  case (1 s a ts)
  have roots: "set (map root ts) \<subseteq> below (Branch a ts)" by force
  then have "set (a # map root ts) \<subseteq> st_live s'" using 1(3) by auto
  then have "has_children s' a (map root ts)"
    by (rule has_children_frame[rotated]) (use 1(2-) roots in \<open>auto simp: same_items_def same_links_def\<close>)
  moreover have "well_linked s' t" if "t \<in> set ts" for t
  proof (rule 1(1)[OF that])
    have sub: "set (addresses t) \<subseteq> below (Branch a ts)" "below t \<subseteq> set (addresses t)"
      using that below_root[of t] by auto
    have "set (addresses t) \<subseteq> set (addresses (Branch a ts))" using sub(1) by auto
    then show "same_items (set (addresses t)) s s'" by (rule same_items_mono[OF 1(4)])
    show "same_links (below t) s s'" using sub by (intro same_links_mono[OF 1(5)]) blast
    show "well_linked s t" "set (addresses t) \<subseteq> st_live s'" using 1(2,3) that by auto
  qed
  ultimately show ?case by simp
qed

lemma holds_kept:
  assumes "holds s t v" and "same_items (st_live s) s s'" and "same_links (st_live s) s s'" and "st_live s \<subseteq> st_live s'"
  shows "holds s' t v"
proof (rule holds_frame(1)[OF assms(1)])
  have sub: "set (addresses t) \<subseteq> st_live s" "below t \<subseteq> st_live s"
    using holds_live(1)[OF assms(1)] below_root[of t] by auto
  then show "set (addresses t) \<subseteq> st_live s'" using assms(4) by blast
  show "same_items (set (addresses t)) s s'" "same_links (below t) s s'"
    using same_items_mono[OF assms(2) sub(1)] same_links_mono[OF assms(3) sub(2)] .
qed

lemma own_blocks_same: "same_items A s s' \<Longrightarrow> a \<in> A \<Longrightarrow> own_blocks s' a = own_blocks s a"
  by (auto simp: same_items_def item_fields_def own_blocks_def is_ref_def)

text \<open>A tree without references owns all its items.\<close>

lemma copied_no_ref: "c_type (copied v) AND cJSON_IsReference = 0"
  by (cases v) (simp add: and.assoc cJSON_IsReference_def)

lemma copied_owns:
  "holds s t v \<Longrightarrow> (\<exists>w. v = copied w) \<Longrightarrow> owns s t"
  "holds_all s ts vs \<Longrightarrow> (\<exists>ws. vs = map copied ws) \<Longrightarrow> owns_all s ts"
proof (induction s t v and s ts vs rule: holds_holds_all.induct)
  case (1 s a ts v)
  then obtain w where "v = copied w" by blast
  then have "\<exists>ws. children v = map copied ws" "\<not> is_ref s a" using 1 copied_no_ref[of w]
    by (cases w; auto simp: is_ref_def)+
  then show ?case using 1 by (auto simp: first_of_def split: list.splits)
next
  case (3 s t ts vs)
  then show ?case by (fastforce split: list.splits)
qed simp

section \<open>The fields of the copy\<close>

definition grown :: "heap \<Rightarrow> heap \<Rightarrow> int \<Rightarrow> bool" where
  "grown h h' n \<longleftrightarrow> h_ok h' = h_ok h \<and> h_calls h \<le> h_calls h' \<and> h_live h' = h_live h + n"

lemma grown_trans: "grown h h' m \<Longrightarrow> grown h' h'' n \<Longrightarrow> m + n = k \<Longrightarrow> grown h h'' k"
  by (auto simp: grown_def)

lemma copy_string_spec:
  "\<exists>c failed h. copy_string shared str s = Inr ((c, failed), s\<lparr>st_heap := h\<rparr>) \<and>
     grown (st_heap s) h (if \<not> shared \<and> c \<noteq> None then 1 else 0) \<and>
     (failed \<longrightarrow> c = None \<and> \<not> shared) \<and> (\<not> failed \<longrightarrow> c = (if shared then str else map_option cstr str)) \<and>
     ((\<forall>i. h_ok (st_heap s) i) \<longrightarrow> \<not> failed)"
proof (cases "str = None \<or> shared")
  case True
  then show ?thesis
    by (intro exI[of _ str] exI[of _ False] exI[of _ "st_heap s"]) (auto simp: copy_string_def yields_def grown_def)
next
  case False
  then obtain m where m: "str = Some m" "\<not> shared" by auto
  let ?h = "snd (allocate (st_heap s))" and ?c = "if h_ok (st_heap s) (h_calls (st_heap s)) then Some (cstr m) else None"
  have "copy_string shared str s = Inr ((?c, ?c = None), s\<lparr>st_heap := ?h\<rparr>)"
    using m by (simp add: copy_string_def cJSON_strdup_def allocate_def edit_simps)
  moreover have "grown (st_heap s) ?h (if \<not> shared \<and> ?c \<noteq> None then 1 else 0)"
    using m by (simp add: grown_def allocate_def)
  ultimately show ?thesis using m by (intro exI[of _ ?c] exI[of _ "?c = None"] exI[of _ ?h]) simp
qed

lemma wr_data:
  "a \<in> st_live s \<Longrightarrow> wr st_type_update (Some a) t s = Inr ((), s\<lparr>st_type := (st_type s)(a := t)\<rparr>)"
  "a \<in> st_live s \<Longrightarrow> wr st_valueint_update (Some a) i s = Inr ((), s\<lparr>st_valueint := (st_valueint s)(a := i)\<rparr>)"
  "a \<in> st_live s \<Longrightarrow> wr st_valuedouble_update (Some a) d s = Inr ((), s\<lparr>st_valuedouble := (st_valuedouble s)(a := d)\<rparr>)"
  "a \<in> st_live s \<Longrightarrow> wr st_valuestring_update (Some a) v s = Inr ((), s\<lparr>st_valuestring := (st_valuestring s)(a := v)\<rparr>)"
  "a \<in> st_live s \<Longrightarrow> wr st_string_update (Some a) v s = Inr ((), s\<lparr>st_string := (st_string s)(a := v)\<rparr>)"
  by (cases s; simp add: wr_def)+

definition with_fields :: "jstore \<Rightarrow> nat \<Rightarrow> int \<times> bytes option \<times> int \<times> dbl \<times> bytes option \<Rightarrow> heap \<Rightarrow> jstore" where
  "with_fields s n F h = (case F of (t, v, i, d, str) \<Rightarrow>
     s\<lparr>st_type := (st_type s)(n := t), st_valuestring := (st_valuestring s)(n := v), st_valueint := (st_valueint s)(n := i),
       st_valuedouble := (st_valuedouble s)(n := d), st_string := (st_string s)(n := str), st_heap := h\<rparr>)"

lemma with_fields_sel [simp]:
  "st_live (with_fields s n F h) = st_live s" "st_next (with_fields s n F h) = st_next s"
  "st_prev (with_fields s n F h) = st_prev s" "st_child (with_fields s n F h) = st_child s"
  "st_heap (with_fields s n F h) = h" "item_fields (with_fields s n F h) = (item_fields s)(n := F)"
  by (auto simp: with_fields_def item_fields_def fun_eq_iff split: prod.split)

definition copied_fields :: "int \<times> bytes option \<times> int \<times> dbl \<times> bytes option \<Rightarrow> int \<times> bytes option \<times> int \<times> dbl \<times> bytes option" where
  "copied_fields F = (case F of (t, v, i, d, str) \<Rightarrow>
     (t AND NOT cJSON_IsReference, map_option cstr v, i, d, if t AND cJSON_StringIsConst = 0 then map_option cstr str else str))"

lemma copy_fields_spec:
  assumes "a \<in> st_live s" and "n \<in> st_live s" and "a \<noteq> n" and "st_string s n = None"
  shows "\<exists>ok v str h. let F = (st_type s a AND NOT cJSON_IsReference, v, st_valueint s a, st_valuedouble s a, str) in
    copy_fields (Some a) (Some n) s = Inr (ok, with_fields s n F h) \<and>
    grown (st_heap s) h ((if v \<noteq> None then 1 else 0) + (if st_type s a AND cJSON_StringIsConst = 0 \<and> str \<noteq> None then 1 else 0)) \<and>
    (ok \<longrightarrow> F = copied_fields (item_fields s a)) \<and> ((\<forall>i. h_ok (st_heap s) i) \<longrightarrow> ok)"
proof -
  let ?t = "st_type s a AND NOT cJSON_IsReference" and ?i = "st_valueint s a" and ?d = "st_valuedouble s a"
  define s1 where "s1 = s\<lparr>st_type := (st_type s)(n := ?t), st_valueint := (st_valueint s)(n := ?i),
    st_valuedouble := (st_valuedouble s)(n := ?d)\<rparr>"
  obtain v fv h1 where v: "copy_string False (st_valuestring s a) s1 = Inr ((v, fv), s1\<lparr>st_heap := h1\<rparr>)"
    "grown (st_heap s) h1 (if v \<noteq> None then 1 else 0)" "\<not> fv \<longrightarrow> v = map_option cstr (st_valuestring s a)"
    "fv \<longrightarrow> v = None" "(\<forall>i. h_ok (st_heap s) i) \<longrightarrow> \<not> fv"
    using copy_string_spec[of False "st_valuestring s a" s1] by (auto simp: s1_def)
  define s2 where "s2 = s1\<lparr>st_heap := h1, st_valuestring := (st_valuestring s)(n := v)\<rparr>"
  let ?const = "st_type s a AND cJSON_StringIsConst \<noteq> 0"
  obtain str fs h2 where str: "copy_string ?const (st_string s a) s2 = Inr ((str, fs), s2\<lparr>st_heap := h2\<rparr>)"
    "grown h1 h2 (if \<not> ?const \<and> str \<noteq> None then 1 else 0)"
    "\<not> fs \<longrightarrow> str = (if ?const then st_string s a else map_option cstr (st_string s a))" "fs \<longrightarrow> str = None"
    "(\<forall>i. h_ok h1 i) \<longrightarrow> \<not> fs"
    using copy_string_spec[of ?const "st_string s a" s2] by (auto simp: s2_def)
  note eval = copy_fields_def edit_simps wr_data
  have ok1: "h_ok h1 = h_ok (st_heap s)" using v(2) by (simp add: grown_def)
  show ?thesis
  proof (cases fv)
    case True
    have "copy_fields (Some a) (Some n) s = Inr (False, s2)"
      using assms v(1) True by (simp del: wr_Some add: eval s1_def s2_def)
    moreover have "s2 = with_fields s n (?t, v, ?i, ?d, None) h1"
      using assms(4) by (cases s) (simp add: s2_def s1_def with_fields_def fun_upd_idem)
    ultimately show ?thesis using v(2,5) True
      by (intro exI[of _ False] exI[of _ v] exI[of _ None] exI[of _ h1]) (simp add: Let_def)
  next
    case False
    have "copy_fields (Some a) (Some n) s = Inr (\<not> fs, s2\<lparr>st_heap := h2, st_string := (st_string s)(n := str)\<rparr>)"
      using assms v(1) str(1) False by (simp del: wr_Some add: eval s1_def s2_def)
    moreover have "s2\<lparr>st_heap := h2, st_string := (st_string s)(n := str)\<rparr> = with_fields s n (?t, v, ?i, ?d, str) h2"
      by (cases s) (simp add: s2_def s1_def with_fields_def)
    moreover have "grown (st_heap s) h2 ((if v \<noteq> None then 1 else 0) + (if \<not> ?const \<and> str \<noteq> None then 1 else 0))"
      using grown_trans[OF v(2) str(2)] by simp
    ultimately show ?thesis using v(3,5) str(3,5) False ok1
      by (intro exI[of _ "\<not> fs"] exI[of _ v] exI[of _ str] exI[of _ h2]) (simp add: Let_def copied_fields_def item_fields_def)
  qed
qed

section \<open>An item in the making\<close>

definition store_ok :: "jstore \<Rightarrow> bool" where
  "store_ok s \<longleftrightarrow> finite (st_live s) \<and> (\<forall>a \<in> st_live s. a < h_calls (st_heap s))"

definition kept_on :: "nat set \<Rightarrow> jstore \<Rightarrow> jstore \<Rightarrow> bool" where
  "kept_on L s s' \<longleftrightarrow> same_items L s s' \<and> same_links L s s' \<and> h_ok (st_heap s') = h_ok (st_heap s)"

text \<open>
  \<open>making L H n F ds us s\<close>: besides the items \<open>L\<close> with \<open>H\<close> allocated blocks the store has the new item
  \<open>n\<close> with fields \<open>F\<close>, no neighbours, and the children \<open>ds\<close> copied so far, which hold \<open>us\<close>.
\<close>

definition making ::
  "nat set \<Rightarrow> int \<Rightarrow> nat \<Rightarrow> int \<times> bytes option \<times> int \<times> dbl \<times> bytes option \<Rightarrow> item_tree list \<Rightarrow> cJSON list \<Rightarrow> jstore \<Rightarrow> bool"
where
  "making L H n F ds us s \<longleftrightarrow>
     store_ok s \<and> st_live s = L \<union> set (addresses (Branch n ds)) \<and> L \<inter> set (addresses (Branch n ds)) = {} \<and>
     distinct (addresses (Branch n ds)) \<and> item_fields s n = F \<and> fst F AND cJSON_IsReference = 0 \<and>
     st_child s n = first_of (map root ds) \<and> st_next s n = None \<and>
     (ds \<noteq> [] \<longrightarrow> chain (st_next s) (st_prev s) (st_prev s (root (hd ds))) (map root ds) None) \<and>
     list_all2 (holds s) ds us \<and> (\<forall>d \<in> set ds. well_linked s d) \<and> (\<exists>ws. us = map copied ws) \<and>
     h_live (st_heap s) = H + (\<Sum>a\<leftarrow>addresses (Branch n ds). own_blocks s a)"

lemma kept_on_refl [simp]: "kept_on L s s"
  by (simp add: kept_on_def same_items_def same_links_def)

lemma kept_on_trans: "kept_on L s s' \<Longrightarrow> kept_on L s' s'' \<Longrightarrow> kept_on L s s''"
  by (simp add: kept_on_def same_items_def same_links_def)

lemma kept_on_mono: "kept_on L s s' \<Longrightarrow> M \<subseteq> L \<Longrightarrow> kept_on M s s'"
  using same_items_mono same_links_mono by (fastforce simp: kept_on_def)

lemma holds_all_chain:
  "list_all2 (holds s) ds us \<Longrightarrow> ds = [] \<or> chain (st_next s) (st_prev s) p (map root ds) None \<Longrightarrow> holds_all s ds us"
proof (induction ds us arbitrary: p rule: list_all2_induct)
  case (Cons d ds u us)
  then show ?case by (cases ds) auto
qed simp

lemma delete_made:
  assumes "making L H n F ds us s"
  shows "\<exists>s'. delete_item (Some n) s = Inr ((), s') \<and> store_ok s' \<and> st_live s' = L \<and> kept_on L s s' \<and>
    h_live (st_heap s') = H"
proof -
  note m = assms[unfolded making_def]
  let ?t = "Branch n ds"
  have "holds_all s ds us" using m holds_all_chain by blast
  then have all: "owns_all s ds" using m copied_owns(2) by blast
  have "fst (item_fields s n) AND cJSON_IsReference = 0" using m by simp
  then have "\<not> is_ref s n" by (simp add: is_ref_def item_fields_def)
  then have "owns s ?t" using m all by (cases ds) (auto simp: first_of_def split: list.splits)
  moreover have "st_next s (root ?t) = None" "distinct (addresses ?t)" "finite (st_live s)"
    using m unfolding store_ok_def item_tree.sel by blast+
  ultimately have "delete_item (Some n) s = Inr ((), s\<lparr>st_live := st_live s - set (addresses ?t),
      st_heap := release (\<Sum>a\<leftarrow>addresses ?t. own_blocks s a) (st_heap s)\<rparr>)"
    using delete_item_tree[of s ?t] by (simp only: item_tree.sel)
  moreover have "st_live s - set (addresses ?t) = L" using m by blast
  ultimately show ?thesis using m
    by (auto simp: store_ok_def kept_on_def same_items_def same_links_def item_fields_def release_def)
qed

definition undone :: "jstore \<Rightarrow> jstore \<Rightarrow> bool" where
  "undone s s' \<longleftrightarrow> store_ok s' \<and> st_live s' = st_live s \<and> kept_on (st_live s) s s' \<and>
     h_live (st_heap s') = h_live (st_heap s) \<and> \<not> (\<forall>i. h_ok (st_heap s) i)"

lemma own_blocks_fields:
  assumes "item_fields s n = (t AND NOT cJSON_IsReference, v, i, d, str)"
  shows "own_blocks s n = 1 + (if v \<noteq> None then 1 else 0) + (if t AND cJSON_StringIsConst = 0 \<and> str \<noteq> None then 1 else 0)"
  using assms by (simp add: own_blocks_def is_ref_def item_fields_def and.assoc cJSON_IsReference_def cJSON_StringIsConst_def)

text \<open>An item in the making without children is one live address more; its fields may be set.\<close>

lemma making_leaf:
  "making L H n F [] [] s \<longleftrightarrow>
     store_ok s \<and> st_live s = insert n L \<and> n \<notin> L \<and> item_fields s n = F \<and> fst F AND cJSON_IsReference = 0 \<and>
     st_child s n = None \<and> st_next s n = None \<and> h_live (st_heap s) = H + own_blocks s n"
  by (auto simp: making_def)

lemma making_with_fields:
  assumes "making L H n F [] [] s" and "fst F' AND cJSON_IsReference = 0"
    and "grown (st_heap s) h (own_blocks (with_fields s n F' h) n - own_blocks s n)"
  shows "making L H n F' [] [] (with_fields s n F' h) \<and> kept_on L s (with_fields s n F' h)"
  using assms
  by (auto simp: making_leaf store_ok_def grown_def kept_on_def same_items_def same_links_def intro: less_le_trans)

text \<open>cJSON\_New\_Item on the store.\<close>

lemma new_node_cases:
  assumes "store_ok s"
  obtains (none) s' where "new_node s = Inr (None, s')" "undone s s'"
  | (some) n s0 where "new_node s = Inr (Some n, s0)" "kept_on (st_live s) s s0" "st_string s0 n = None"
      "own_blocks s0 n = 1" "making (st_live s) (h_live (st_heap s)) n (0, None, 0, Fin 0, None) [] [] s0"
proof (cases "h_ok (st_heap s) (h_calls (st_heap s))")
  case False
  let ?s = "s\<lparr>st_heap := snd (allocate (st_heap s))\<rparr>"
  have "new_node s = Inr (None, ?s)" using False by (simp add: new_node_def allocate_def)
  moreover have "undone s ?s"
    using assms False by (auto simp: undone_def store_ok_def kept_on_def same_items_def same_links_def item_fields_def allocate_def)
  ultimately show ?thesis by (rule none)
next
  case True
  define n where "n = h_calls (st_heap s)"
  define s0 where "s0 = (case new_node s of Inr (_, s') \<Rightarrow> s' | Inl _ \<Rightarrow> s)"
  have new: "new_node s = Inr (Some n, s0)" using True by (simp add: new_node_def s0_def allocate_def n_def Let_def)
  have fresh: "n \<notin> st_live s" using assms by (auto simp: store_ok_def n_def)
  have s0: "st_live s0 = insert n (st_live s)" "item_fields s0 n = (0, None, 0, Fin 0, None)" "st_child s0 n = None"
    "st_next s0 n = None" "st_heap s0 = snd (allocate (st_heap s))" "same_items (st_live s) s s0" "same_links (st_live s) s s0"
    using True fresh
    by (auto simp: s0_def new_node_def allocate_def n_def Let_def same_items_def same_links_def item_fields_def)
  have one: "own_blocks s0 n = 1" and str: "st_string s0 n = None"
    using s0(2) by (simp_all add: own_blocks_def item_fields_def)
  have "making (st_live s) (h_live (st_heap s)) n (0, None, 0, Fin 0, None) [] [] s0"
    using s0(1-5) assms fresh one True by (auto simp: making_leaf store_ok_def allocate_def n_def)
  moreover have "kept_on (st_live s) s s0" using s0(5-7) True by (simp add: kept_on_def allocate_def)
  ultimately show ?thesis using some[OF new _ str one] by blast
qed

lemma start_copy:
  assumes "store_ok s" and "a \<in> st_live s"
  shows "(\<exists>s'. (\<forall>fuel recurse. duplicate (Suc fuel) (Some a) recurse s = Inr (None, s')) \<and> undone s s') \<or>
    (\<exists>n s1. making (st_live s) (h_live (st_heap s)) n (copied_fields (item_fields s a)) [] [] s1 \<and> kept_on (st_live s) s s1 \<and>
      st_child s1 a = st_child s a \<and>
      (\<forall>fuel recurse. duplicate (Suc fuel) (Some a) recurse s =
        (if \<not> recurse then Inr (Some n, s1)
         else andthen (duplicate_children fuel (st_child s a) (Some n) None)
           (\<lambda>ok. if ok then yields (Some n) else semi (delete_item (Some n)) (yields None)) s1)))"
  using assms(1)
proof (cases rule: new_node_cases)
  case (none s')
  then show ?thesis by (intro disjI1 exI[of _ s']) (simp add: edit_simps)
next
  case (some n s0)
  have n: "n \<in> st_live s0" "a \<in> st_live s0" "a \<noteq> n" using some(5) assms(2) by (auto simp: making_leaf)
  have same: "item_fields s0 a = item_fields s a" "st_child s0 a = st_child s a" "h_ok (st_heap s0) = h_ok (st_heap s)"
    using some(2) assms(2) by (simp_all add: kept_on_def same_items_def)
  obtain ok v str h where c: "copy_fields (Some a) (Some n) s0 =
      Inr (ok, with_fields s0 n (st_type s0 a AND NOT cJSON_IsReference, v, st_valueint s0 a, st_valuedouble s0 a, str) h)"
    "grown (st_heap s0) h ((if v \<noteq> None then 1 else 0) + (if st_type s0 a AND cJSON_StringIsConst = 0 \<and> str \<noteq> None then 1 else 0))"
    "ok \<longrightarrow> (st_type s0 a AND NOT cJSON_IsReference, v, st_valueint s0 a, st_valuedouble s0 a, str) = copied_fields (item_fields s0 a)"
    "(\<forall>i. h_ok (st_heap s0) i) \<longrightarrow> ok"
    using copy_fields_spec[OF n(2,1,3) some(3), unfolded Let_def] by blast
  define F where "F = (st_type s0 a AND NOT cJSON_IsReference, v, st_valueint s0 a, st_valuedouble s0 a, str)"
  define s1 where "s1 = with_fields s0 n F h"
  have "item_fields s1 n = F" by (simp add: s1_def)
  from own_blocks_fields[OF this[unfolded F_def]]
  have "grown (st_heap s0) h (own_blocks s1 n - own_blocks s0 n)" using c(2) some(4) by (simp add: add.assoc)
  moreover have "fst F AND cJSON_IsReference = 0" by (simp add: F_def and.assoc cJSON_IsReference_def)
  ultimately have m: "making (st_live s) (h_live (st_heap s)) n F [] [] s1" and k: "kept_on (st_live s) s0 s1"
    using making_with_fields[OF some(5)] by (simp_all add: s1_def)
  have kept: "kept_on (st_live s) s s1" using kept_on_trans[OF some(2) k] .
  have child: "st_child s1 a = st_child s a" using same(2) by (simp add: s1_def)
  have run: "duplicate (Suc fuel) (Some a) recurse s =
      (if \<not> ok then semi (delete_item (Some n)) (yields None) s1
       else if \<not> recurse then Inr (Some n, s1)
       else andthen (duplicate_children fuel (st_child s a) (Some n) None)
           (\<lambda>ok. if ok then yields (Some n) else semi (delete_item (Some n)) (yields None)) s1)" for fuel recurse
    using some(1) c(1) child n(2) by (simp add: edit_simps s1_def F_def)
  show ?thesis
  proof (cases ok)
    case True
    then have "F = copied_fields (item_fields s a)" using c(3) same(1) by (simp add: F_def)
    then show ?thesis using m kept child run True by (intro disjI2 exI[of _ n] exI[of _ s1]) simp
  next
    case False
    obtain s' where "delete_item (Some n) s1 = Inr ((), s')" "store_ok s'" "st_live s' = st_live s"
      "kept_on (st_live s) s1 s'" "h_live (st_heap s') = h_live (st_heap s)"
      using delete_made[OF m] by blast
    moreover have "\<not> (\<forall>i. h_ok (st_heap s) i)" using c(4) same(3) False by simp
    ultimately show ?thesis using run False kept_on_trans[OF kept]
      by (intro disjI1 exI[of _ s']) (simp add: undone_def edit_simps)
  qed
qed

section \<open>Linking the copied children\<close>

definition copy_done :: "jstore \<Rightarrow> cJSON \<Rightarrow> nat \<Rightarrow> jstore \<Rightarrow> bool" where
  "copy_done s v c s' \<longleftrightarrow>
     store_ok s' \<and> kept_on (st_live s) s s' \<and> st_next s' c = None \<and>
     (\<exists>u. root u = c \<and> holds s' u (copied v) \<and> well_linked s' u \<and> distinct (addresses u) \<and>
       set (addresses u) \<inter> st_live s = {} \<and> st_live s' = st_live s \<union> set (addresses u) \<and>
       h_live (st_heap s') = h_live (st_heap s) + (\<Sum>a\<leftarrow>addresses u. own_blocks s' a))"

lemma trees_apart:
  "distinct (concat (map addresses ds)) \<Longrightarrow> d \<in> set ds \<Longrightarrow> e \<in> set ds \<Longrightarrow> d \<noteq> e \<Longrightarrow>
    set (addresses d) \<inter> set (addresses e) = {}"
  by (induction ds) fastforce+

lemma root_not_below:
  assumes "distinct (concat (map addresses ds))" and "d \<in> set ds" and "e \<in> set ds"
  shows "root e \<notin> below d"
proof (cases "d = e")
  case True
  have "distinct (addresses d)" using assms(1,2) by (induction ds) auto
  then show ?thesis using True addresses_subtrees[of d] by simp
next
  case False
  then show ?thesis using trees_apart[OF assms False] below_root[of d] below_root[of e] by auto
qed

lemma roots_distinct: "distinct (concat (map addresses ds)) \<Longrightarrow> distinct (map root ds)"
proof (induction ds)
  case (Cons d ds)
  have "root d \<noteq> root e" if "e \<in> set ds" for e
  proof -
    have "root d \<notin> set (addresses e)" using Cons.prems that addresses_root(1)[of d] by (auto simp: disjoint_iff)
    then show ?thesis using addresses_root(1)[of e] by metis
  qed
  then show ?case using Cons by auto
qed simp

lemma own_blocks_sum:
  "same_items (set xs) s s' \<Longrightarrow> (\<Sum>a\<leftarrow>xs. own_blocks s' a) = (\<Sum>a\<leftarrow>xs. own_blocks s a)"
  by (simp cong: map_cong add: own_blocks_same[of "set xs"])

lemma making_frame:
  assumes "making L H n F ds us s" and "kept_on (st_live s) s s'" and "store_ok s'" and "st_live s \<subseteq> st_live s'"
  shows "list_all2 (holds s') ds us" and "\<forall>d \<in> set ds. well_linked s' d" and "item_fields s' n = F"
    and "st_child s' n = first_of (map root ds)" and "st_next s' n = None"
    and "ds \<noteq> [] \<longrightarrow> chain (st_next s') (st_prev s') (st_prev s' (root (hd ds))) (map root ds) None"
    and "(\<Sum>a\<leftarrow>addresses (Branch n ds). own_blocks s' a) = (\<Sum>a\<leftarrow>addresses (Branch n ds). own_blocks s a)"
proof -
  note m = assms(1)[unfolded making_def]
  have live: "set (addresses (Branch n ds)) \<subseteq> st_live s" using m by blast
  have k: "same_items (st_live s) s s'" "same_links (st_live s) s s'" using assms(2) by (simp_all add: kept_on_def)
  have sub: "set (addresses d) \<subseteq> st_live s" "below d \<subseteq> st_live s" if "d \<in> set ds" for d
    using live that below_root[of d] by auto
  have frame: "holds s' d u" if "holds s d u" "d \<in> set ds" for d u
    by (rule holds_frame(1)[OF that(1)]) (use sub[OF that(2)] assms(4) same_items_mono[OF k(1)] same_links_mono[OF k(2)] in auto)
  then show "list_all2 (holds s') ds us" using m by (auto simp: list_all2_conv_all_nth)
  have "well_linked s' d" if "d \<in> set ds" for d
    by (rule well_linked_frame[of s]) (use m that sub[OF that] assms(4) same_items_mono[OF k(1)] same_links_mono[OF k(2)] in auto)
  then show "\<forall>d \<in> set ds. well_linked s' d" by blast
  have n: "n \<in> st_live s" using live by simp
  then show "item_fields s' n = F" "st_child s' n = first_of (map root ds)" "st_next s' n = None"
    using k m by (simp_all add: same_items_def same_links_def)
  have roots: "set (map root ds) \<subseteq> st_live s" using sub(1) by force
  have same: "\<forall>x \<in> set (map root ds). st_next s' x = st_next s x \<and> st_prev s' x = st_prev s x"
    using k(2) roots by (auto simp: same_links_def)
  show "ds \<noteq> [] \<longrightarrow> chain (st_next s') (st_prev s') (st_prev s' (root (hd ds))) (map root ds) None"
  proof
    assume "ds \<noteq> []"
    then have "st_prev s' (root (hd ds)) = st_prev s (root (hd ds))" using same by simp
    then show "chain (st_next s') (st_prev s') (st_prev s' (root (hd ds))) (map root ds) None"
      using m \<open>ds \<noteq> []\<close> chain_frame[OF _ same] by simp
  qed
  show "(\<Sum>a\<leftarrow>addresses (Branch n ds). own_blocks s' a) = (\<Sum>a\<leftarrow>addresses (Branch n ds). own_blocks s a)"
    by (rule own_blocks_sum) (use same_items_mono[OF k(1) live] in simp)
qed

lemma making_undone:
  assumes "making L H n F ds us s" and "undone s s'"
  shows "making L H n F ds us s'"
proof -
  have u: "kept_on (st_live s) s s'" "store_ok s'" "st_live s' = st_live s" "h_live (st_heap s') = h_live (st_heap s)"
    using assms(2) by (simp_all add: undone_def)
  note f = making_frame[OF assms(1) u(1,2)]
  show ?thesis using assms(1) f u unfolding making_def by simp
qed

lemma link_first:
  assumes "making L H n F [] us s" and "copy_done s v c s'"
  shows "\<exists>s2 d. wr st_child_update (Some n) (Some c) s' = Inr ((), s2) \<and> root d = c \<and>
    making L H n F [d] (us @ [copied v]) s2 \<and> kept_on L s s2"
proof -
  note m = assms(1)[unfolded making_def]
  obtain u where u: "root u = c" "holds s' u (copied v)" "well_linked s' u" "distinct (addresses u)"
    "set (addresses u) \<inter> st_live s = {}" "st_live s' = st_live s \<union> set (addresses u)"
    "h_live (st_heap s') = h_live (st_heap s) + (\<Sum>a\<leftarrow>addresses u. own_blocks s' a)"
    and c: "store_ok s'" "kept_on (st_live s) s s'" "st_next s' c = None"
    using assms(2) by (auto simp: copy_done_def)
  have "st_live s \<subseteq> st_live s'" using u(6) by blast
  note f = making_frame[OF assms(1) c(2,1) this]
  have live: "st_live s = insert n L" "n \<notin> L" using m by auto
  then have n: "n \<notin> set (addresses u)" "n \<in> st_live s'" using u(5,6) by auto
  define s2 where "s2 = s'\<lparr>st_child := (st_child s')(n := Some c)\<rparr>"
  have same: "same_items (set (addresses u)) s' s2" "same_links (set (addresses u)) s' s2" "st_live s2 = st_live s'"
    "store_ok s2" using n(1) c(1) by (auto simp: same_items_def same_links_def item_fields_def s2_def store_ok_def)
  have blocks: "own_blocks s2 = own_blocks s'" by (simp add: fun_eq_iff s2_def own_blocks_def is_ref_def)
  have sub: "set (addresses u) \<subseteq> st_live s2" "below u \<subseteq> set (addresses u)" using u(6) same(3) below_root[of u] by auto
  have "holds s2 u (copied v)" "well_linked s2 u"
    using holds_frame(1)[OF u(2)] well_linked_frame[OF u(3)] sub same same_links_mono by blast+
  moreover have "us = []" using m by simp
  moreover have "st_live s2 = L \<union> set (addresses (Branch n [u]))" using same(3) u(6) live by auto
  moreover have "L \<inter> set (addresses (Branch n [u])) = {}" using live u(5) by auto
  moreover have "item_fields s2 n = F" "st_next s2 n = None" "st_child s2 n = Some c" "st_next s2 c = None"
    "st_heap s2 = st_heap s'"
    using f(3,5) c(3) u(6) by (simp_all add: s2_def item_fields_def)
  moreover have "\<exists>ws. [copied v] = map copied ws" by (rule exI[of _ "[v]"]) simp
  moreover have "h_live (st_heap s') = H + (\<Sum>a\<leftarrow>addresses (Branch n [u]). own_blocks s2 a)"
    using u(6,7) m f(7) blocks by simp
  ultimately have "making L H n F [u] (us @ [copied v]) s2"
    using m same(4) n(1) u(1,4) unfolding making_def by simp
  moreover have "kept_on L s s2"
    using kept_on_mono[OF c(2), of L] live by (auto simp: kept_on_def same_items_def same_links_def item_fields_def s2_def)
  ultimately show ?thesis using n(2) u(1) by (intro exI[of _ s2] exI[of _ u]) (simp add: wr_fields s2_def del: wr_Some)
qed

lemma link_next:
  assumes "making L H n F ds us s" and "copy_done s v c s'" and "ds \<noteq> []"
  shows "\<exists>s2 d. suffix_object (Some (root (last ds))) (Some c) s' = Inr ((), s2) \<and> root d = c \<and>
    making L H n F (ds @ [d]) (us @ [copied v]) s2 \<and> kept_on L s s2"
proof -
  note m = assms(1)[unfolded making_def]
  obtain u where u: "root u = c" "holds s' u (copied v)" "well_linked s' u" "distinct (addresses u)"
    "set (addresses u) \<inter> st_live s = {}" "st_live s' = st_live s \<union> set (addresses u)"
    "h_live (st_heap s') = h_live (st_heap s) + (\<Sum>a\<leftarrow>addresses u. own_blocks s' a)"
    and c: "store_ok s'" "kept_on (st_live s) s s'" "st_next s' c = None"
    using assms(2) by (auto simp: copy_done_def)
  have "st_live s \<subseteq> st_live s'" using u(6) by blast
  note f = making_frame[OF assms(1) c(2,1) this]
  define l where "l = root (last ds)"
  have live: "st_live s = L \<union> set (addresses (Branch n ds))" "L \<inter> set (addresses (Branch n ds)) = {}" using m by blast+
  have cu: "c \<in> set (addresses u)" using u(1) addresses_root(1)[of u] by simp
  have lds: "l \<in> set (addresses (last ds))" "last ds \<in> set ds" using assms(3) by (simp_all add: l_def)
  then have ll: "l \<in> st_live s" "l \<notin> L" "l \<noteq> n" using live m by auto
  have cl: "c \<notin> st_live s" "c \<noteq> l" "l \<notin> set (addresses u)" using cu u(5) ll(1) by auto
  define s2 where "s2 = s'\<lparr>st_next := (st_next s')(l := Some c), st_prev := (st_prev s')(c := Some l)\<rparr>"
  have dist: "distinct (concat (map addresses (ds @ [u])))" using m u(4,5) live(1) by auto
  have items: "same_items A s' s2" for A by (simp add: same_items_def item_fields_def s2_def)
  have links: "same_links (below d) s' s2" if "d \<in> set (ds @ [u])" for d
    using root_not_below[OF dist that, of u] root_not_below[OF dist that, of "last ds"] lds(2) u(1)
    by (auto simp: same_links_def s2_def l_def)
  have alive: "set (addresses d) \<subseteq> st_live s2" if "d \<in> set (ds @ [u])" for d
    using that live(1) u(6) by (auto simp: s2_def)
  have "holds s2 d w" if "holds s' d w" "d \<in> set (ds @ [u])" for d w
    using holds_frame(1)[OF that(1) alive[OF that(2)] items links[OF that(2)]] .
  then have "list_all2 (holds s2) ds us" "holds s2 u (copied v)" using f(1) u(2) by (auto simp: list_all2_conv_all_nth)
  then have "list_all2 (holds s2) (ds @ [u]) (us @ [copied v])" by (simp add: list_all2_appendI)
  moreover have "\<forall>d \<in> set (ds @ [u]). well_linked s2 d"
    using f(2) u(3) well_linked_frame[OF _ alive items links] u(6) by auto
  moreover have "chain (st_next s2) (st_prev s2) (st_prev s2 (root (hd (ds @ [u])))) (map root (ds @ [u])) None"
  proof -
    have d: "distinct (map root ds)" "last (map root ds) = l" "map root ds \<noteq> []" "c \<notin> set (map root ds)"
      using roots_distinct[OF dist] assms(3) u(1) by (auto simp: l_def last_map)
    have "root (hd ds) \<noteq> c" using d(4) assms(3) by (metis hd_map hd_in_set d(3))
    then have "st_prev s2 (root (hd (ds @ [u]))) = st_prev s' (root (hd ds))" using assms(3) by (simp add: s2_def)
    moreover have "chain ((st_next s')(l := Some c)) (st_prev s') (st_prev s' (root (hd ds))) (map root ds) (Some c)"
      using chain_last[OF d(3,1)] f(6) assms(3) d(2) by simp
    then have "chain (st_next s2) (st_prev s2) (st_prev s' (root (hd ds))) (map root ds) (Some c)"
      using d(4) by (simp add: s2_def)
    moreover have "st_next s2 c = None" "st_prev s2 c = Some l" using c(3) cl(2) by (simp_all add: s2_def)
    ultimately show ?thesis using d(2) assms(3) u(1) by (simp add: chain_append del: list.map_comp)
  qed
  moreover have "st_live s2 = L \<union> set (addresses (Branch n (ds @ [u])))" using u(6) live(1) by (auto simp: s2_def)
  moreover have "L \<inter> set (addresses (Branch n (ds @ [u]))) = {}" using live u(5) by auto
  moreover have "distinct (addresses (Branch n (ds @ [u])))" using dist m u(5) live(1) by auto
  moreover have "item_fields s2 n = F" "st_next s2 n = None" "st_child s2 n = first_of (map root (ds @ [u]))"
    using f(3,4,5) u(6) ll(3) assms(3) by (simp_all add: s2_def item_fields_def)
  moreover have "\<exists>ws. us @ [copied v] = map copied ws" using m by (metis list.simps(8,9) map_append)
  moreover have "h_live (st_heap s2) = H + (\<Sum>a\<leftarrow>addresses (Branch n (ds @ [u])). own_blocks s2 a)"
  proof -
    have "own_blocks s2 = own_blocks s'" by (simp add: fun_eq_iff s2_def own_blocks_def is_ref_def)
    then show ?thesis using u(6,7) m f(7) by (simp add: s2_def)
  qed
  moreover have "store_ok s2" using c(1) by (simp add: store_ok_def s2_def)
  ultimately have "making L H n F (ds @ [u]) (us @ [copied v]) s2" using m unfolding making_def by blast
  moreover have "kept_on L s s2"
    using kept_on_mono[OF c(2), of L] live cl(1) ll(2)
    by (auto simp: kept_on_def same_items_def same_links_def item_fields_def s2_def)
  moreover have "suffix_object (Some l) (Some c) s' = Inr ((), s2)"
    using ll(1) cu u(6) by (simp add: suffix_object_def edit_simps wr_fields s2_def del: wr_Some)
  ultimately show ?thesis using u(1) by (intro exI[of _ s2] exI[of _ u]) (simp add: l_def)
qed

lemma link_child:
  assumes "making L H n F ds us s" and "copy_done s v c s'"
  shows "\<exists>s2 d. (if ds = [] then wr st_child_update (Some n) (Some c)
      else suffix_object (Some (root (last ds))) (Some c)) s' = Inr ((), s2) \<and> root d = c \<and>
    making L H n F (ds @ [d]) (us @ [copied v]) s2 \<and> kept_on L s s2"
  using link_first[of L H n F us s v c s'] link_next[OF assms] assms by (cases "ds = []") auto

lemma close_list:
  assumes "making L H n F ds us s"
  shows "\<exists>s'. andthen (rd st_child (Some n)) (\<lambda>c.
      if c \<noteq> None then semi (wr st_prev_update c (if ds = [] then None else Some (root (last ds)))) (yields True)
      else yields True) s = Inr (True, s') \<and>
    making L H n F ds us s' \<and> well_linked s' (Branch n ds) \<and> kept_on L s s'"
proof (cases "ds = []")
  case True
  then show ?thesis using assms
    by (intro exI[of _ s]) (auto simp: making_def has_children_def edit_simps)
next
  case False
  note m = assms[unfolded making_def]
  define h l where "h = root (hd ds)" and "l = root (last ds)"
  have dist: "distinct (concat (map addresses ds))" using m by simp
  have hds: "hd ds \<in> set ds" using False by simp
  have live: "set (addresses (Branch n ds)) \<subseteq> st_live s" using m by blast
  then have roots: "set (map root ds) \<subseteq> st_live s" using addresses_root(1) by fastforce
  have "h \<in> set (addresses (hd ds))" by (simp add: h_def)
  then have h: "h \<in> st_live s" "h \<notin> L" "h \<noteq> n" using hds live m by auto
  define s' where "s' = s\<lparr>st_prev := (st_prev s)(h := Some l)\<rparr>"
  have items: "same_items A s s'" for A by (simp add: same_items_def item_fields_def s'_def)
  have links: "same_links (below d) s s'" if "d \<in> set ds" for d
    using root_not_below[OF dist that hds] by (auto simp: same_links_def s'_def h_def)
  have alive: "set (addresses d) \<subseteq> st_live s'" if "d \<in> set ds" for d using that live by (auto simp: s'_def)
  have "holds s' d w" if "holds s d w" "d \<in> set ds" for d w
    using holds_frame(1)[OF that(1) alive[OF that(2)] items links[OF that(2)]] .
  then have held: "list_all2 (holds s') ds us" using m by (auto simp: list_all2_conv_all_nth)
  have linked: "\<forall>d \<in> set ds. well_linked s' d" using m well_linked_frame[OF _ alive items links] by auto
  have "chain (st_next s) ((st_prev s)(h := Some l)) (Some l) (map root ds) None"
    using chain_first[OF _ roots_distinct[OF dist], of "st_next s" "st_prev s" "st_prev s (root (hd ds))" None "Some l"] m False
    by (simp add: h_def hd_map)
  then have chained: "chain (st_next s') (st_prev s') (Some l) (map root ds) None" by (simp add: s'_def)
  have "root d \<noteq> n" if "d \<in> set ds" for d
  proof -
    have "n \<notin> set (addresses d)" using m that by auto
    then show ?thesis using addresses_root(1)[of d] by metis
  qed
  then have "n \<notin> set (map root ds)" by auto
  then have children: "has_children s' n (map root ds)"
    using roots live chained roots_distinct[OF dist] m False by (simp add: has_children_def s'_def l_def last_map)
  have sel: "own_blocks s' = own_blocks s" "st_heap s' = st_heap s" "item_fields s' = item_fields s" "st_child s' = st_child s"
    "st_live s' = st_live s" "st_prev s' (root (hd ds)) = Some l" "store_ok s' = store_ok s"
    by (simp_all add: fun_eq_iff s'_def own_blocks_def is_ref_def item_fields_def store_ok_def h_def)
  have "st_next s' n = None" using m by (simp add: s'_def)
  then have "making L H n F ds us s'" using m held linked chained unfolding making_def sel by blast
  moreover have "kept_on L s s'" using h(2) by (auto simp: kept_on_def same_items_def same_links_def item_fields_def s'_def)
  moreover have "andthen (rd st_child (Some n)) (\<lambda>c.
      if c \<noteq> None then semi (wr st_prev_update c (if ds = [] then None else Some (root (last ds)))) (yields True)
      else yields True) s = Inr (True, s')"
    using m live h(1) False by (simp add: edit_simps wr_fields s'_def h_def l_def first_of_hd hd_map del: wr_Some)
  ultimately show ?thesis using children linked by (intro exI[of _ s']) simp
qed

section \<open>The whole tree\<close>

definition duplicate_decided :: "nat \<Rightarrow> bool" where
  "duplicate_decided fuel \<longleftrightarrow>
     (\<forall>s t v. store_ok s \<and> holds s t v \<and> 2 * item_count [t] \<le> fuel \<longrightarrow>
        (\<exists>r s'. duplicate fuel (Some (root t)) True s = Inr (r, s') \<and>
           (case r of None \<Rightarrow> undone s s' | Some c \<Rightarrow> copy_done s v c s')))"

definition children_decided :: "nat \<Rightarrow> bool" where
  "children_decided fuel \<longleftrightarrow>
     (\<forall>L H n F ds us s ts vs. making L H n F ds us s \<and> holds_all s ts vs \<and> set (concat (map addresses ts)) \<subseteq> L \<and>
        2 * item_count ts + 1 \<le> fuel \<longrightarrow>
        (\<exists>ok s' ds' us'. duplicate_children fuel (first_of (map root ts)) (Some n)
             (if ds = [] then None else Some (root (last ds))) s = Inr (ok, s') \<and>
           making L H n F ds' us' s' \<and> kept_on L s s' \<and>
           (ok \<longrightarrow> us' = us @ map copied vs \<and> well_linked s' (Branch n ds')) \<and>
           (\<not> ok \<longrightarrow> \<not> (\<forall>i. h_ok (st_heap s) i))))"

lemma children_step:
  assumes "duplicate_decided fuel" and "children_decided fuel"
  shows "children_decided (Suc fuel)"
  unfolding children_decided_def
proof (intro allI impI; elim conjE)
  fix L H n F ds us s ts vs
  let ?last = "if ds = [] then None else Some (root (last ds))"
  assume m: "making L H n F ds us s" and h: "holds_all s ts vs" and sub: "set (concat (map addresses ts)) \<subseteq> L"
    and f: "2 * item_count ts + 1 \<le> Suc fuel"
  show "\<exists>ok s' ds' us'. duplicate_children (Suc fuel) (first_of (map root ts)) (Some n) ?last s = Inr (ok, s') \<and>
      making L H n F ds' us' s' \<and> kept_on L s s' \<and>
      (ok \<longrightarrow> us' = us @ map copied vs \<and> well_linked s' (Branch n ds')) \<and> (\<not> ok \<longrightarrow> \<not> (\<forall>i. h_ok (st_heap s) i))"
  proof (cases ts)
    case Nil
    then have "vs = []" using h by simp
    obtain s' where "andthen (rd st_child (Some n)) (\<lambda>c. if c \<noteq> None then semi (wr st_prev_update c ?last) (yields True)
        else yields True) s = Inr (True, s')" "making L H n F ds us s'" "well_linked s' (Branch n ds)" "kept_on L s s'"
      using close_list[OF m] by blast
    then show ?thesis using Nil \<open>vs = []\<close> by (intro exI[of _ True] exI[of _ s'] exI[of _ ds] exI[of _ us]) simp
  next
    case (Cons t ts')
    obtain v vs' where c: "vs = v # vs'" "holds s t v" "st_next s (root t) = first_of (map root ts')" "holds_all s ts' vs'"
      using h by (auto simp: Cons split: list.splits)
    have count: "item_count ts = item_count [t] + item_count ts'" "item_count [t] = Suc (item_count (subtrees t))"
      by (simp_all add: Cons addresses_subtrees[of t])
    have ok: "store_ok s" "L \<subseteq> st_live s" using m by (auto simp: making_def)
    have "\<exists>r s1. duplicate fuel (Some (root t)) True s = Inr (r, s1) \<and>
        (case r of None \<Rightarrow> undone s s1 | Some c \<Rightarrow> copy_done s v c s1)"
      using assms(1) ok(1) c(2) f count unfolding duplicate_decided_def by auto
    then obtain r s1 where r: "duplicate fuel (Some (root t)) True s = Inr (r, s1)"
      "case r of None \<Rightarrow> undone s s1 | Some c \<Rightarrow> copy_done s v c s1" by blast
    show ?thesis
    proof (cases r)
      case None
      have "making L H n F ds us s1" and "kept_on L s s1" and "\<not> (\<forall>i. h_ok (st_heap s) i)"
        using making_undone[OF m] r(2) None kept_on_mono[OF _ ok(2)] by (auto simp: undone_def)
      then show ?thesis using r(1) None
        by (intro exI[of _ False] exI[of _ s1] exI[of _ ds] exI[of _ us]) (simp add: Cons edit_simps)
    next
      case (Some x)
      have finished: "copy_done s v x s1" using r(2) Some by simp
      obtain s2 d where s2: "(if ds = [] then wr st_child_update (Some n) (Some x) else suffix_object ?last (Some x)) s1 = Inr ((), s2)"
        "root d = x" "making L H n F (ds @ [d]) (us @ [copied v]) s2" "kept_on L s s2"
        using link_child[OF m finished] by (cases "ds = []") auto
      have tL: "root t \<in> L" "set (concat (map addresses ts')) \<subseteq> L" using sub addresses_root(1)[of t] by (auto simp: Cons)
      have frame: "holds_all s2 ts' vs'"
        by (rule holds_frame(2)[OF c(4)])
          (use s2(3,4) tL(2) same_items_mono same_links_mono in \<open>auto simp: making_def kept_on_def\<close>)
      have following: "st_next s2 (root t) = first_of (map root ts')" "root t \<in> st_live s2"
        using s2(3,4) tL(1) c(3) by (auto simp: kept_on_def same_links_def making_def)
      have "\<exists>ok s' ds' us'. duplicate_children fuel (first_of (map root ts')) (Some n) (Some (root d)) s2 = Inr (ok, s') \<and>
          making L H n F ds' us' s' \<and> kept_on L s2 s' \<and>
          (ok \<longrightarrow> us' = us @ map copied vs \<and> well_linked s' (Branch n ds')) \<and>
          (\<not> ok \<longrightarrow> \<not> (\<forall>i. h_ok (st_heap s2) i))"
        using assms(2)[unfolded children_decided_def, rule_format, of L H n F "ds @ [d]" "us @ [copied v]" s2 ts' vs']
          s2(3) frame tL(2) f count c(1) by simp
      then obtain ok s' ds' us' where rest:
        "duplicate_children fuel (first_of (map root ts')) (Some n) (Some (root d)) s2 = Inr (ok, s')"
        "making L H n F ds' us' s'" "kept_on L s2 s'" "ok \<longrightarrow> us' = us @ map copied vs \<and> well_linked s' (Branch n ds')"
        "\<not> ok \<longrightarrow> \<not> (\<forall>i. h_ok (st_heap s2) i)" by blast
      have "h_ok (st_heap s2) = h_ok (st_heap s)" using s2(4) by (simp add: kept_on_def)
      then show ?thesis using r(1) Some s2(1,2) following rest kept_on_trans[OF s2(4) rest(3)]
        by (intro exI[of _ ok] exI[of _ s'] exI[of _ ds'] exI[of _ us']; cases "ds = []") (simp_all add: Cons edit_simps)
    qed
  qed
qed

lemma copied_item:
  assumes "making L H n (copied_fields (item_fields s a)) ds (map copied (children v)) s'" and "holds s t v" and "a = root t"
  shows "holds s' (Branch n ds) (copied v)"
proof -
  note m = assms(1)[unfolded making_def] and t = holds_root[OF assms(2)]
  have "holds_all s' ds (map copied (children v))" using m holds_all_chain by blast
  moreover have "item_fields s' n = copied_fields (c_type v, valuestring v, st_valueint s a, valuedouble v, c_string v)"
    using m t(2-5) assms(3) by (simp add: item_fields_def)
  moreover have "st_valueint s a = valueint v" using assms(2,3) by (cases t) simp
  ultimately show ?thesis using m by (cases v) (auto simp: item_fields_def copied_fields_def)
qed

lemma duplicate_step:
  assumes "children_decided fuel"
  shows "duplicate_decided (Suc fuel)"
  unfolding duplicate_decided_def
proof (intro allI impI; elim conjE)
  fix s t v
  assume ok: "store_ok s" and h: "holds s t v" and f: "2 * item_count [t] \<le> Suc fuel"
  let ?L = "st_live s" and ?F = "copied_fields (item_fields s (root t))"
  note t = holds_root[OF h]
  show "\<exists>r s'. duplicate (Suc fuel) (Some (root t)) True s = Inr (r, s') \<and>
      (case r of None \<Rightarrow> undone s s' | Some c \<Rightarrow> copy_done s v c s')"
    using start_copy[OF ok t(1)]
  proof (elim disjE exE conjE)
    fix s' assume "\<forall>fuel recurse. duplicate (Suc fuel) (Some (root t)) recurse s = Inr (None, s')" "undone s s'"
    then show ?thesis by (intro exI[of _ None] exI[of _ s']) simp
  next
    fix n s1
    assume m: "making ?L (h_live (st_heap s)) n ?F [] [] s1" and k: "kept_on ?L s s1"
      and run: "\<forall>fuel recurse. duplicate (Suc fuel) (Some (root t)) recurse s =
        (if \<not> recurse then Inr (Some n, s1)
         else andthen (duplicate_children fuel (st_child s (root t)) (Some n) None)
           (\<lambda>ok. if ok then yields (Some n) else semi (delete_item (Some n)) (yields None)) s1)"
    have sub: "set (concat (map addresses (subtrees t))) \<subseteq> ?L" using holds_live(2)[OF t(7)] .
    have "holds_all s1 (subtrees t) (children v)"
      by (rule holds_frame(2)[OF t(7)])
        (use k m sub same_items_mono same_links_mono in \<open>auto simp: kept_on_def making_def\<close>)
    then have "\<exists>good s2 ds us. duplicate_children fuel (st_child s (root t)) (Some n) None s1 = Inr (good, s2) \<and>
        making ?L (h_live (st_heap s)) n ?F ds us s2 \<and> kept_on ?L s1 s2 \<and>
        (good \<longrightarrow> us = map copied (children v) \<and> well_linked s2 (Branch n ds)) \<and>
        (\<not> good \<longrightarrow> \<not> (\<forall>i. h_ok (st_heap s1) i))"
      using assms[unfolded children_decided_def, rule_format, of ?L "h_live (st_heap s)" n ?F "[]" "[]" s1 "subtrees t" "children v"]
        m sub f t(6) addresses_subtrees[of t] by simp
    then obtain good s2 ds us where c: "duplicate_children fuel (st_child s (root t)) (Some n) None s1 = Inr (good, s2)"
      "making ?L (h_live (st_heap s)) n ?F ds us s2" "kept_on ?L s1 s2"
      "good \<longrightarrow> us = map copied (children v) \<and> well_linked s2 (Branch n ds)" "\<not> good \<longrightarrow> \<not> (\<forall>i. h_ok (st_heap s1) i)"
      by blast
    have kept: "kept_on ?L s s2" using kept_on_trans[OF k c(3)] .
    show ?thesis
    proof (cases good)
      case True
      have "holds s2 (Branch n ds) (copied v)" using copied_item[OF _ h refl] c(2,4) True by simp
      then have "copy_done s v n s2"
        using c(2,4) True kept unfolding copy_done_def making_def by (intro conjI exI[of _ "Branch n ds"]) auto
      then show ?thesis using run c(1) True by (intro exI[of _ "Some n"] exI[of _ s2]) (simp add: edit_simps)
    next
      case False
      obtain s3 where d: "delete_item (Some n) s2 = Inr ((), s3)" "store_ok s3" "st_live s3 = ?L" "kept_on ?L s2 s3"
        "h_live (st_heap s3) = h_live (st_heap s)" using delete_made[OF c(2)] by blast
      have "\<not> (\<forall>i. h_ok (st_heap s) i)" using c(5) False k by (simp add: kept_on_def)
      then have "undone s s3" using d kept_on_trans[OF kept d(4)] by (simp add: undone_def)
      then show ?thesis using run c(1) d(1) False by (intro exI[of _ None] exI[of _ s3]) (simp add: edit_simps)
    qed
  qed
qed

lemma duplicate_total: "duplicate_decided fuel \<and> children_decided fuel"
proof (induction fuel)
  case 0
  have "\<not> 2 * item_count [t] \<le> 0" for t using addresses_subtrees[of t] by simp
  then show ?case unfolding duplicate_decided_def children_decided_def by simp
next
  case (Suc fuel)
  then show ?case using duplicate_step children_step by blast
qed

lemma cJSON_Duplicate_spec:
  assumes "store_ok s" and "holds s t v" and "distinct (addresses t)"
  shows "\<exists>r s'. cJSON_Duplicate (Some (root t)) True s = Inr (r, s') \<and>
    (case r of None \<Rightarrow> undone s s' | Some c \<Rightarrow> copy_done s v c s')"
proof -
  have "length (addresses t) \<le> card (st_live s)"
    using card_mono[OF _ holds_live(1)[OF assms(2)]] distinct_card[OF assms(3)] assms(1) by (simp add: store_ok_def)
  then have "2 * item_count [t] \<le> 2 * card (st_live s) + 2" by simp
  then show ?thesis
    using duplicate_total assms(1,2) unfolding duplicate_decided_def cJSON_Duplicate_def by blast
qed

section \<open>A copy compares equal\<close>

lemma cstr_idem [simp]: "cstr (cstr m) = cstr m"
  by (rule cstr_id[OF cstr_NUL_free])

lemma copied_sel:
  "c_type (copied v) AND 0xFF = c_type v AND 0xFF" "valuestring (copied v) = map_option cstr (valuestring v)"
  "valuedouble (copied v) = valuedouble v" "children (copied v) = map copied (children v)"
  "c_string (copied v) = None \<longleftrightarrow> c_string v = None"
  "c_string v = Some nm \<Longrightarrow> cstr (the (c_string (copied v))) = cstr nm"
  by (cases v; simp add: and.assoc cJSON_IsReference_def)+

lemma finding_copied:
  "find_cs nm (map copied xs) = map_option copied (find_cs nm xs)"
  "find_ci nm (map copied xs) = map_option copied (find_ci nm xs)"
proof (induction xs)
  case (Cons x xs)
  have "case_insensitive_strcmp (Some nm) (c_string (copied x)) = case_insensitive_strcmp (Some nm) (c_string x)"
    using copied_sel(5,6)[of x] by (cases "c_string x"; cases "c_string (copied x)") (auto simp: case_insensitive_strcmp_def)
  then show "find_ci nm (map copied (x # xs)) = map_option copied (find_ci nm (x # xs))" using Cons by simp
  show "find_cs nm (map copied (x # xs)) = map_option copied (find_cs nm (x # xs))"
    using copied_sel(5,6)[of x] Cons by (cases "c_string x"; cases "c_string (copied x)") auto
qed simp_all

lemma get_object_item_copied:
  "get_object_item (Some (copied w)) nm cs = map_option copied (get_object_item (Some w) nm cs)"
  by (cases nm; cases cs)
    (auto simp: get_object_item_def copied_sel(4,5) finding_copied split: option.splits)

lemma finding_name:
  assumes "cstr nm = cstr nm'"
  shows "find_cs nm xs = find_cs nm' xs" and "find_ci nm xs = find_ci nm' xs"
  using assms by (induction xs) (auto simp: case_insensitive_strcmp_def split: option.splits)

lemma get_object_item_copied_name: "get_object_item (Some v) (c_string (copied y)) cs = get_object_item (Some v) (c_string y) cs"
proof (cases "c_string y")
  case (Some nm)
  then obtain nm' where "c_string (copied y) = Some nm'" "cstr nm' = cstr nm" using copied_sel(5,6)[of y] by auto
  then show ?thesis using Some finding_name[of nm' nm] by (simp add: get_object_item_def)
qed (use copied_sel(5)[of y] in \<open>simp add: get_object_item_def\<close>)

lemma json_equal_copied: "json_equal cs v (copied w) = json_equal cs v w"
proof (induction "size v + size w" arbitrary: v w rule: less_induct)
  case less
  let ?w = "copied w"
  have elem: "json_equal cs x (copied y) = json_equal cs x y" if "x \<in> set (children v)" "y \<in> set (children w)" for x y
    using that by (intro less) (simp add: add_strict_mono)
  have elem': "json_equal cs (copied y) x = json_equal cs y x" if "x \<in> set (children v)" "y \<in> set (children w)" for x y
    using elem[OF that] json_equal_sym by simp
  consider "c_type v AND 0xFF \<noteq> c_type w AND 0xFF"
    | "c_type v AND 0xFF = c_type w AND 0xFF" "c_type w AND 0xFF = cJSON_Array"
    | "c_type v AND 0xFF = c_type w AND 0xFF" "c_type w AND 0xFF = cJSON_Object"
    | "c_type v AND 0xFF = c_type w AND 0xFF" "c_type w AND 0xFF \<notin> {cJSON_Array, cJSON_Object}" by blast
  then show ?case
  proof cases
    case 1
    then show ?thesis by (simp add: json_equal.simps[of cs v w] json_equal.simps[of cs v ?w] copied_sel(1) Let_def)
  next
    case 2
    have "(\<forall>(x, y) \<in> set (zip (children v) (map copied (children w))). json_equal cs x y) \<longleftrightarrow>
        (\<forall>(x, y) \<in> set (zip (children v) (children w)). json_equal cs x y)"
      using elem by (fastforce simp: zip_map2 dest: set_zip_leftD set_zip_rightD)
    then show ?thesis
      using json_equal_containers(1)[of v cJSON_Array w cs] json_equal_containers(1)[of v cJSON_Array ?w cs] 2
      by (simp add: copied_sel(1,4))
  next
    case 3
    have "members_match cs (children v) ?w = members_match cs (children v) w"
      using elem get_object_item_child
      by (auto simp: members_match_def get_object_item_copied split: option.splits)
    moreover have "members_match cs (map copied (children w)) v = members_match cs (children w) v"
      using elem' get_object_item_child
      by (auto simp: members_match_def get_object_item_copied_name split: option.splits)
    ultimately show ?thesis
      using json_equal_containers(2)[of v cJSON_Object w cs] json_equal_containers(2)[of v cJSON_Object ?w cs] 3
      by (simp add: copied_sel(1,4))
  next
    case 4
    then show ?thesis
      unfolding json_equal.simps[of cs v w] json_equal.simps[of cs v ?w] Let_def
      by (auto simp: copied_sel(1-3) json_types)
  qed
qed

end
