(* ===== verification/JsonBuild.thy ===== *)
theory JsonBuild
  imports JsonDuplicate
begin

text \<open>
  What the constructors of src/cJSON.c build, with any allocator: a new item with the value asked
  for, or NULL with everything freed (\<open>created\<close>).  Every function that creates an item from a value
  meets the contract \<open>item_constructor\<close>; the array constructors, which loop over one of them, are
  proved once from it.  The last part adds an item to an object and finds it by its name.
\<close>

section \<open>New items\<close>

definition created :: "jstore \<Rightarrow> cJSON \<Rightarrow> (nat option \<times> jstore) cres \<Rightarrow> bool" where
  "created s v res \<longleftrightarrow>
     (\<exists>r s'. res = Inr (r, s') \<and> (case r of None \<Rightarrow> undone s s' | Some c \<Rightarrow> copy_done s v c s'))"

lemma making_finished:
  assumes m: "making (st_live s) (h_live (st_heap s)) n (t, vs, vi, vd, nm) ds us s1"
    and k: "kept_on (st_live s) s s1" and w: "well_linked s1 (Branch n ds)"
    and v: "copied v = Item t vs vi vd nm us"
  shows "copy_done s v n s1"
proof -
  note m' = m[unfolded making_def]
  have "holds_all s1 ds us" using m' holds_all_chain by blast
  then have "holds s1 (Branch n ds) (copied v)" using m' by (auto simp: v item_fields_def)
  then show ?thesis
    using m' k w unfolding copy_done_def by (intro conjI exI[of _ "Branch n ds"]) auto
qed

lemma leaf_linked: "making L H n F [] [] s \<Longrightarrow> well_linked s (Branch n [])"
  by (simp add: making_leaf has_children_def)

lemma typed_item_made:
  assumes ok: "store_ok s" and t: "t AND cJSON_IsReference = 0"
  shows "(\<exists>s'. typed_item t s = Inr (None, s') \<and> undone s s') \<or>
    (\<exists>n s1. typed_item t s = Inr (Some n, s1) \<and> kept_on (st_live s) s s1 \<and>
      making (st_live s) (h_live (st_heap s)) n (t, None, 0, Fin 0, None) [] [] s1)"
  using ok
proof (cases rule: new_node_cases)
  case (none s')
  then show ?thesis by (intro disjI1 exI[of _ s']) (simp add: typed_item_def edit_simps)
next
  case (some n s0)
  let ?F = "(t, None :: bytes option, 0 :: int, Fin 0, None :: bytes option)"
  define s1 where "s1 = with_fields s0 n ?F (st_heap s0)"
  have "own_blocks s1 n = 1" by (simp add: s1_def own_blocks_def with_fields_def)
  then have "grown (st_heap s0) (st_heap s0) (own_blocks s1 n - own_blocks s0 n)" using some(4) by (simp add: grown_def)
  note m = making_with_fields[OF some(5) _ this[unfolded s1_def], simplified fst_conv, OF t, folded s1_def]
  have n: "n \<in> st_live s0" "item_fields s0 n = (0, None, 0, Fin 0, None)" using some(5) by (simp_all add: making_leaf)
  then have "s1 = s0\<lparr>st_type := (st_type s0)(n := t)\<rparr>"
    by (cases s0) (auto simp: s1_def with_fields_def item_fields_def fun_eq_iff)
  then have "typed_item t s = Inr (Some n, s1)"
    using some(1) n(1) by (simp add: typed_item_def edit_simps wr_data del: wr_Some)
  then show ?thesis using m kept_on_trans[OF some(2)] by blast
qed

definition number_item :: "dbl \<Rightarrow> int \<Rightarrow> cJSON" where
  "number_item d i = Item cJSON_Number None i d None []"

lemma number_created:
  assumes ok: "store_ok s" and i: "number_to_int d = Inr i"
  shows "created s (number_item d i) (cJSON_CreateNumber d s)"
proof -
  have ref: "cJSON_Number AND cJSON_IsReference = 0" by (simp add: json_types)
  from typed_item_made[OF ok ref]
  consider (none) s' where "typed_item cJSON_Number s = Inr (None, s')" "undone s s'"
    | (some) n s1 where "typed_item cJSON_Number s = Inr (Some n, s1)" "kept_on (st_live s) s s1"
      "making (st_live s) (h_live (st_heap s)) n (cJSON_Number, None, 0, Fin 0, None) [] [] s1" by blast
  then show ?thesis
  proof cases
    case none
    then show ?thesis by (simp add: created_def cJSON_CreateNumber_def edit_simps)
  next
    case some
    let ?F = "(cJSON_Number, None :: bytes option, i, d, None :: bytes option)"
    define s2 where "s2 = with_fields s1 n ?F (st_heap s1)"
    have n: "n \<in> st_live s1" "item_fields s1 n = (cJSON_Number, None, 0, Fin 0, None)" "fst ?F AND cJSON_IsReference = 0"
      using some(3) ref by (simp_all add: making_leaf)
    have "own_blocks s2 n = own_blocks s1 n"
      using n(2) by (auto simp: s2_def own_blocks_def is_ref_def item_fields_def with_fields_def)
    then have g: "grown (st_heap s1) (st_heap s1) (own_blocks s2 n - own_blocks s1 n)" by (simp add: grown_def)
    note m = making_with_fields[OF some(3) n(3) g[unfolded s2_def], folded s2_def]
    have "s2 = s1\<lparr>st_valuedouble := (st_valuedouble s1)(n := d), st_valueint := (st_valueint s1)(n := i)\<rparr>"
      using n(2) by (cases s1) (auto simp: s2_def with_fields_def item_fields_def fun_eq_iff)
    then have run: "cJSON_CreateNumber d s = Inr (Some n, s2)"
      using some(1) n(1) i by (simp add: cJSON_CreateNumber_def saturated_def edit_simps wr_data del: wr_Some)
    have "copy_done s (number_item d i) n s2"
      by (rule making_finished[OF conjunct1[OF m] kept_on_trans[OF some(2) conjunct2[OF m]]
            leaf_linked[OF conjunct1[OF m]]]) (simp add: number_item_def json_types)
    then show ?thesis using run by (simp add: created_def)
  qed
qed

definition string_item :: "bytes \<Rightarrow> cJSON" where
  "string_item str = Item cJSON_String (Some (cstr str)) 0 (Fin 0) None []"

lemma string_created:
  assumes ok: "store_ok s"
  shows "created s (string_item str) (cJSON_CreateString (Some str) s)"
proof -
  have ref: "cJSON_String AND cJSON_IsReference = 0" by (simp add: json_types)
  from typed_item_made[OF ok ref]
  consider (none) s' where "typed_item cJSON_String s = Inr (None, s')" "undone s s'"
    | (some) n s1 where "typed_item cJSON_String s = Inr (Some n, s1)" "kept_on (st_live s) s s1"
      "making (st_live s) (h_live (st_heap s)) n (cJSON_String, None, 0, Fin 0, None) [] [] s1" by blast
  then show ?thesis
  proof cases
    case none
    then show ?thesis by (simp add: created_def cJSON_CreateString_def owned_string_item_def edit_simps)
  next
    case some
    let ?ok = "h_ok (st_heap s1) (h_calls (st_heap s1))" and ?h = "snd (allocate (st_heap s1))"
    let ?v = "if ?ok then Some (cstr str) else None"
    let ?F = "(cJSON_String, ?v, 0 :: int, Fin 0, None :: bytes option)"
    define s2 where "s2 = with_fields s1 n ?F ?h"
    have n: "n \<in> st_live s1" "item_fields s1 n = (cJSON_String, None, 0, Fin 0, None)" "fst ?F AND cJSON_IsReference = 0"
      using some(3) ref by (simp_all add: making_leaf)
    have "own_blocks s2 n = own_blocks s1 n + (if ?ok then 1 else 0)"
      using n(2,3) by (auto simp: s2_def own_blocks_def is_ref_def item_fields_def with_fields_def)
    then have g: "grown (st_heap s1) ?h (own_blocks s2 n - own_blocks s1 n)" by (simp add: grown_def allocate_def)
    note m = making_with_fields[OF some(3) n(3) g[unfolded s2_def], folded s2_def]
    have kept: "kept_on (st_live s) s s2" using kept_on_trans[OF some(2) conjunct2[OF m]] .
    have "s2 = s1\<lparr>st_heap := ?h, st_valuestring := (st_valuestring s1)(n := ?v)\<rparr>"
      using n(2) by (cases s1) (auto simp: s2_def with_fields_def item_fields_def fun_eq_iff)
    then have run: "cJSON_CreateString (Some str) s =
        (if ?ok then Inr (Some n, s2) else semi (delete_item (Some n)) (yields None) s2)"
      using some(1) n(1)
      by (simp add: cJSON_CreateString_def owned_string_item_def cJSON_strdup_def allocate_def edit_simps wr_data del: wr_Some)
    show ?thesis
    proof (cases ?ok)
      case True
      have "copy_done s (string_item str) n s2"
        by (rule making_finished[OF conjunct1[OF m] kept leaf_linked[OF conjunct1[OF m]]])
          (simp add: string_item_def json_types True)
      then show ?thesis using run True by (simp add: created_def)
    next
      case False
      obtain s3 where d: "delete_item (Some n) s2 = Inr ((), s3)" "store_ok s3" "st_live s3 = st_live s"
        "kept_on (st_live s) s2 s3" "h_live (st_heap s3) = h_live (st_heap s)"
        using delete_made[OF conjunct1[OF m]] by blast
      have "\<not> (\<forall>i. h_ok (st_heap s) i)" using False some(2) by (auto simp: kept_on_def)
      then have "undone s s3" using d kept_on_trans[OF kept d(4)] by (simp add: undone_def)
      then show ?thesis using run d(1) False by (simp add: created_def edit_simps)
    qed
  qed
qed

section \<open>Arrays made from values\<close>

text \<open>
  The contract of a function that makes an item from a value: on every value it is meant for it
  succeeds or leaves the store as it was, and the item holds what \<open>item\<close> says (a value that is its own copy).
\<close>

locale item_constructor =
  fixes create :: "'v \<Rightarrow> nat option edit" and item :: "'v \<Rightarrow> cJSON" and meant :: "'v \<Rightarrow> bool"
  assumes creates: "store_ok s \<Longrightarrow> meant x \<Longrightarrow> created s (item x) (create x s)"
    and own_copy: "meant x \<Longrightarrow> copied (item x) = item x"
begin

text \<open>The loop, from the array \<open>n\<close> with the children \<open>ds\<close>; the last of them is the C variable p.\<close>

lemma fill_array_total:
  assumes "making L H n F ds us s" and "\<forall>x \<in> set xs. meant x"
  shows "\<exists>r s'. fill_array create (length xs) xs (Some n) (if ds = [] then None else Some (root (last ds))) s = Inr (r, s') \<and>
    kept_on L s s' \<and>
    (case r of
       None \<Rightarrow> store_ok s' \<and> st_live s' = L \<and> h_live (st_heap s') = H \<and> \<not> (\<forall>i. h_ok (st_heap s) i)
     | Some c \<Rightarrow> c = n \<and> (\<exists>ds'. making L H n F ds' (us @ map item xs) s' \<and> well_linked s' (Branch n ds')))"
  using assms
proof (induction xs arbitrary: ds us s)
  case Nil
  obtain s' where "andthen (rd st_child (Some n)) (\<lambda>c.
      if c \<noteq> None then semi (wr st_prev_update c (if ds = [] then None else Some (root (last ds)))) (yields True)
      else yields True) s = Inr (True, s')" "making L H n F ds us s'" "well_linked s' (Branch n ds)" "kept_on L s s'"
    using close_list[OF Nil.prems(1)] by blast
  then show ?case
    by (intro exI[of _ "Some n"] exI[of _ s']) (auto simp: edit_simps cbind_eq_Inr_iff split: if_splits)
next
  case (Cons x xs)
  let ?p = "if ds = [] then None else Some (root (last ds))"
  note m = Cons.prems(1)[unfolded making_def]
  have x: "meant x" "\<forall>x \<in> set xs. meant x" and ok: "store_ok s" "L \<subseteq> st_live s" using Cons.prems(2) m by auto
  obtain r s1 where r: "create x s = Inr (r, s1)"
    "case r of None \<Rightarrow> undone s s1 | Some c \<Rightarrow> copy_done s (item x) c s1"
    using creates[OF ok(1) x(1)] by (auto simp: created_def)
  show ?case
  proof (cases r)
    case None
    then have u: "undone s s1" using r(2) by simp
    obtain s2 where d: "delete_item (Some n) s1 = Inr ((), s2)" "store_ok s2" "st_live s2 = L" "kept_on L s1 s2"
      "h_live (st_heap s2) = H" using delete_made[OF making_undone[OF Cons.prems(1) u]] by blast
    have "kept_on L s s1" using u kept_on_mono[OF _ ok(2)] by (simp add: undone_def)
    then have "kept_on L s s2" using d(4) kept_on_trans by blast
    then show ?thesis using r(1) None d u
      by (intro exI[of _ None] exI[of _ s2]) (simp add: edit_simps undone_def)
  next
    case (Some c)
    then have finished: "copy_done s (item x) c s1" using r(2) by simp
    obtain s2 d where s2: "(if ds = [] then wr st_child_update (Some n) (Some c)
        else suffix_object (Some (root (last ds))) (Some c)) s1 = Inr ((), s2)"
      "root d = c" "making L H n F (ds @ [d]) (us @ [item x]) s2" "kept_on L s s2"
      using link_child[OF Cons.prems(1) finished] own_copy[OF x(1)] by auto
    obtain r' s' where rest: "fill_array create (length xs) xs (Some n) (Some c) s2 = Inr (r', s')" "kept_on L s2 s'"
      "case r' of
         None \<Rightarrow> store_ok s' \<and> st_live s' = L \<and> h_live (st_heap s') = H \<and> \<not> (\<forall>i. h_ok (st_heap s2) i)
       | Some c \<Rightarrow> c = n \<and> (\<exists>ds'. making L H n F ds' ((us @ [item x]) @ map item xs) s' \<and> well_linked s' (Branch n ds'))"
      using Cons.IH[OF s2(3) x(2)] s2(2) by auto
    have "h_ok (st_heap s2) = h_ok (st_heap s)" using s2(4) by (simp add: kept_on_def)
    then show ?thesis using r(1) Some s2(1) rest kept_on_trans[OF s2(4) rest(2)]
      by (intro exI[of _ r'] exI[of _ s']; cases "ds = []") (simp_all add: edit_simps split: option.splits)
  qed
qed

lemma create_array_total:
  assumes ok: "store_ok s" and xs: "\<forall>x \<in> set xs. meant x"
  shows "created s (Item cJSON_Array None 0 (Fin 0) None (map item xs)) (create_array create (Some xs) (int (length xs)) s)"
proof -
  have ref: "cJSON_Array AND cJSON_IsReference = 0" by (simp add: json_types)
  from typed_item_made[OF ok ref]
  consider (none) s' where "typed_item cJSON_Array s = Inr (None, s')" "undone s s'"
    | (some) n s1 where "typed_item cJSON_Array s = Inr (Some n, s1)" "kept_on (st_live s) s s1"
      "making (st_live s) (h_live (st_heap s)) n (cJSON_Array, None, 0, Fin 0, None) [] [] s1" by blast
  then show ?thesis
  proof cases
    case none
    then show ?thesis by (simp add: created_def create_array_def cJSON_CreateArray_def edit_simps)
  next
    case some
    obtain r s' where f: "fill_array create (length xs) xs (Some n) None s1 = Inr (r, s')" "kept_on (st_live s) s1 s'"
      "case r of
         None \<Rightarrow> store_ok s' \<and> st_live s' = st_live s \<and> h_live (st_heap s') = h_live (st_heap s) \<and> \<not> (\<forall>i. h_ok (st_heap s1) i)
       | Some c \<Rightarrow> c = n \<and> (\<exists>ds'. making (st_live s) (h_live (st_heap s)) n (cJSON_Array, None, 0, Fin 0, None) ds'
             (map item xs) s' \<and> well_linked s' (Branch n ds'))"
      using fill_array_total[OF some(3) xs] unfolding append_Nil if_P[OF refl] by blast
    have run: "create_array create (Some xs) (int (length xs)) s = Inr (r, s')"
      using some(1) f(1) by (simp add: create_array_def cJSON_CreateArray_def edit_simps)
    have kept: "kept_on (st_live s) s s'" using kept_on_trans[OF some(2) f(2)] .
    have own: "map copied (map item xs) = map item xs" using xs own_copy by simp
    show ?thesis
    proof (cases r)
      case None
      then have "undone s s'" using f(3) kept some(2) by (simp add: undone_def kept_on_def)
      then show ?thesis using run None by (simp add: created_def)
    next
      case (Some c)
      then obtain ds where "c = n" "making (st_live s) (h_live (st_heap s)) n (cJSON_Array, None, 0, Fin 0, None) ds
          (map item xs) s'" "well_linked s' (Branch n ds)" using f(3) by auto
      then have "copy_done s (Item cJSON_Array None 0 (Fin 0) None (map item xs)) c s'"
        using making_finished[OF _ kept] own by (simp add: json_types)
      then show ?thesis using run Some by (simp add: created_def)
    qed
  qed
qed

end

interpretation numbers: item_constructor cJSON_CreateNumber
    "\<lambda>d. number_item d (case number_to_int d of Inl _ \<Rightarrow> 0 | Inr i \<Rightarrow> i)" "\<lambda>d. d \<noteq> NaN"
proof
  fix s :: jstore and d :: dbl
  assume "store_ok s" "d \<noteq> NaN"
  moreover obtain i where "number_to_int d = Inr i"
    using \<open>d \<noteq> NaN\<close> by (cases d) (auto simp: number_to_int_cases)
  ultimately show "created s (number_item d (case number_to_int d of Inl _ \<Rightarrow> 0 | Inr i \<Rightarrow> i)) (cJSON_CreateNumber d s)"
    using number_created by simp
qed (simp add: number_item_def json_types)

interpretation ints: item_constructor "\<lambda>i. cJSON_CreateNumber (Fin (of_int i))"
    "\<lambda>i. number_item (Fin (of_int i)) i" "\<lambda>i. INT_MIN \<le> i \<and> i \<le> INT_MAX"
  by unfold_locales (use number_created number_to_int_exact in \<open>auto simp: number_item_def json_types\<close>)

interpretation strings: item_constructor "cJSON_CreateString" "\<lambda>str. string_item (the str)" "\<lambda>str. str \<noteq> None"
  by unfold_locales (use string_created in \<open>auto simp: string_item_def json_types\<close>)

section \<open>Members by name\<close>

text \<open>The search for a name on a well-formed list of children is the search of the list of addresses.\<close>

definition has_name :: "jstore \<Rightarrow> bool \<Rightarrow> bytes \<Rightarrow> nat \<Rightarrow> bool" where
  "has_name s case_sensitive name x \<longleftrightarrow>
     (if case_sensitive then st_string s x = None \<or> cstr name = cstr (the (st_string s x))
      else case_insensitive_strcmp (Some name) (st_string s x) = 0)"

lemma find_named_children:
  "set xs \<subseteq> st_live s \<Longrightarrow> chain (st_next s) (st_prev s) p xs None \<Longrightarrow> length xs < fuel \<Longrightarrow>
     find_named fuel cs name (first_of xs) s = Inr (List.find (has_name s cs name) xs, s)"
proof (induction xs arbitrary: p fuel)
  case Nil
  then show ?case by (cases fuel) simp_all
next
  case (Cons x xs)
  then obtain k where k: "fuel = Suc k" by (cases fuel) auto
  have "st_next s x = first_of xs" using Cons.prems(2) by (cases xs) simp_all
  then show ?case using Cons.IH[of "Some x" k] Cons.prems by (simp add: k has_name_def)
qed

lemma item_named_children:
  assumes "has_children s a xs" and "finite (st_live s)" and "List.find (has_name s cs name) xs = Some x"
    and "st_string s x \<noteq> None"
  shows "item_named (Some a) (Some name) cs s = Inr (Some x, s)"
proof -
  have ch: "a \<in> st_live s" "set xs \<subseteq> st_live s" "distinct xs" "st_child s a = first_of xs"
    using assms(1) by (simp_all add: has_children_def)
  have "xs \<noteq> []" using assms(3) by auto
  then have c: "chain (st_next s) (st_prev s) (Some (last xs)) xs None" using assms(1) by (simp add: has_children_def)
  have "length xs < card (st_live s) + 1"
    using card_mono[OF assms(2) ch(2)] distinct_card[OF ch(3)] by simp
  from find_named_children[OF ch(2) c this, of cs name] show ?thesis
    using ch(1,4) assms(3,4) by (simp add: item_named_def)
qed

lemma add_item_frame:
  "add_item_to_array p q s = Inr (r, s') \<Longrightarrow> st_string s' = st_string s \<and> st_type s' = st_type s"
  by (auto simp: add_item_to_array_def suffix_object_def edit_simps cbind_eq_Inr_iff rd_def wr_def
      split: if_splits option.splits)

lemma add_named:
  assumes ch: "has_children s a xs" and n: "n \<in> st_live s" "n \<notin> set (a # xs)" "st_next s n = None"
    and ok: "h_ok (st_heap s) (h_calls (st_heap s))"
  shows "\<exists>s'. cJSON_AddItemToObject (Some a) (Some name) (Some n) s = Inr (True, s') \<and>
    has_children s' a (xs @ [n]) \<and> st_live s' = st_live s \<and> st_string s' = (st_string s)(n := Some (cstr name)) \<and>
    h_live (st_heap s') = h_live (st_heap s) + 1 -
      (if st_type s n AND cJSON_StringIsConst = 0 \<and> st_string s n \<noteq> None then 1 else 0)"
proof -
  let ?h = "snd (allocate (st_heap s))" and ?old = "st_type s n AND cJSON_StringIsConst = 0 \<and> st_string s n \<noteq> None"
  define s1 where "s1 = s\<lparr>st_heap := (if ?old then release 1 ?h else ?h), st_string := (st_string s)(n := Some (cstr name)),
    st_type := (st_type s)(n := st_type s n AND NOT cJSON_StringIsConst)\<rparr>"
  have "has_children s1 a xs" using ch by (simp add: s1_def has_children_def)
  then obtain s' where s': "add_item_to_array (Some a) (Some n) s1 = Inr (True, s')" "has_children s' a (xs @ [n])"
    "st_live s' = st_live s1" "st_heap s' = st_heap s1"
    using add_item_children[of s1 a xs n] n by (auto simp: s1_def)
  have "a \<noteq> n" using n(2) by simp
  then have "cJSON_AddItemToObject (Some a) (Some name) (Some n) s = add_item_to_array (Some a) (Some n) s1"
    using n(1) ok
    by (cases "st_string s n") (simp_all add: cJSON_AddItemToObject_def add_item_to_object_def cJSON_strdup_def allocate_def free_string_def
        edit_simps wr_data s1_def del: wr_Some)
  then show ?thesis
    using s' add_item_frame[OF s'(1)] ok by (intro exI[of _ s']) (simp add: s1_def release_def allocate_def)
qed

text \<open>What is added under a new name is found by it, in any case, and taken out again.\<close>

lemma ci_cmp_same: "ci_cmp a a = 0"
  by (rule ci_cmp_refl) simp

lemma added_is_found:
  assumes ch: "has_children s a xs" and n: "n \<in> st_live s" "n \<notin> set (a # xs)" "st_next s n = None"
    and ok: "h_ok (st_heap s) (h_calls (st_heap s))" "finite (st_live s)"
    and new: "\<forall>x \<in> set xs. case_insensitive_strcmp (Some name) (st_string s x) \<noteq> 0"
  shows "\<exists>s1 s2. cJSON_AddItemToObject (Some a) (Some name) (Some n) s = Inr (True, s1) \<and>
    has_children s1 a (xs @ [n]) \<and> item_named (Some a) (Some name) False s1 = Inr (Some n, s1) \<and>
    cJSON_DetachItemFromObject (Some a) (Some name) s1 = Inr (Some n, s2) \<and> has_children s2 a xs \<and>
    st_next s2 n = None \<and> st_live s2 = st_live s"
proof -
  obtain s1 where s1: "cJSON_AddItemToObject (Some a) (Some name) (Some n) s = Inr (True, s1)"
    "has_children s1 a (xs @ [n])" "st_live s1 = st_live s" "st_string s1 = (st_string s)(n := Some (cstr name))"
    using add_named[OF ch n ok(1), of name] by blast
  have "has_name s1 False name n"
    by (simp add: has_name_def s1(4) case_insensitive_strcmp_def ci_cmp_same)
  moreover have "\<forall>x \<in> set xs. \<not> has_name s1 False name x"
    using new n(2) by (auto simp: has_name_def s1(4))
  ultimately have "List.find (has_name s1 False name) (xs @ [n]) = Some n"
    by (induction xs) auto
  then have named: "item_named (Some a) (Some name) False s1 = Inr (Some n, s1)"
    using item_named_children[OF s1(2)] ok(2) s1(3,4) by simp
  obtain s2 where "cJSON_DetachItemViaPointer (Some a) (Some n) s1 = Inr (Some n, s2)" "has_children s2 a xs"
    "st_next s2 n = None" "st_live s2 = st_live s1"
    using detach_children[of s1 a xs n "[]"] s1(2) by auto
  then show ?thesis
    using s1 named by (intro exI[of _ s1] exI[of _ s2]) (simp add: cJSON_DetachItemFromObject_def edit_simps)
qed

section \<open>Adding a new member\<close>

lemma delete_created:
  assumes "copy_done s v c s1"
  shows "\<exists>s2. delete_item (Some c) s1 = Inr ((), s2) \<and> store_ok s2 \<and> st_live s2 = st_live s \<and>
    kept_on (st_live s) s s2 \<and> h_live (st_heap s2) = h_live (st_heap s)"
proof -
  obtain u where u: "root u = c" "holds s1 u (copied v)" "distinct (addresses u)" "set (addresses u) \<inter> st_live s = {}"
    "st_live s1 = st_live s \<union> set (addresses u)"
    "h_live (st_heap s1) = h_live (st_heap s) + (\<Sum>a\<leftarrow>addresses u. own_blocks s1 a)"
    and s1: "store_ok s1" "kept_on (st_live s) s s1" "st_next s1 c = None"
    using assms by (auto simp: copy_done_def)
  have "owns s1 u" using copied_owns(1)[OF u(2)] by blast
  moreover have "finite (st_live s1)" using s1(1) by (simp add: store_ok_def)
  ultimately have "delete_item (Some c) s1 = Inr ((), s1\<lparr>st_live := st_live s1 - set (addresses u),
      st_heap := release (\<Sum>a\<leftarrow>addresses u. own_blocks s1 a) (st_heap s1)\<rparr>)"
    using delete_item_tree[of s1 u] u(1,3) s1(3) by simp
  moreover have "st_live s1 - set (addresses u) = st_live s" "finite (st_live s)"
    using u(4,5) \<open>finite (st_live s1)\<close> by auto
  ultimately show ?thesis using s1 u(5,6)
    by (auto simp: store_ok_def kept_on_def same_items_def same_links_def item_fields_def release_def)
qed

lemma delete_item_None [simp]: "delete_item None s = Inr ((), s)"
  by (simp add: delete_item_def)

lemma copy_done_heap:
  assumes "copy_done s v c s1" and "grown (st_heap s1) h 0"
  shows "copy_done s v c (s1\<lparr>st_heap := h\<rparr>)"
proof -
  let ?s = "s1\<lparr>st_heap := h\<rparr>"
  obtain u where u: "root u = c" "holds s1 u (copied v)" "well_linked s1 u" "distinct (addresses u)"
    "set (addresses u) \<inter> st_live s = {}" "st_live s1 = st_live s \<union> set (addresses u)"
    "h_live (st_heap s1) = h_live (st_heap s) + (\<Sum>a\<leftarrow>addresses u. own_blocks s1 a)"
    and s1: "store_ok s1" "kept_on (st_live s) s s1" "st_next s1 c = None"
    using assms(1) by (auto simp: copy_done_def)
  have same: "same_items A s1 ?s" "same_links A s1 ?s" for A
    by (simp_all add: same_items_def same_links_def item_fields_def)
  have sub: "set (addresses u) \<subseteq> st_live ?s" using u(6) by simp
  have "holds ?s u (copied v)" by (rule holds_frame(1)[OF u(2) sub same])
  moreover have "well_linked ?s u" by (rule well_linked_frame[OF u(3) sub same])
  moreover have "own_blocks ?s = own_blocks s1" by (simp add: fun_eq_iff own_blocks_def is_ref_def)
  moreover have "store_ok ?s" "kept_on (st_live s) s ?s" "h_live h = h_live (st_heap s1)"
    using s1(1,2) assms(2)
    by (auto simp: store_ok_def grown_def kept_on_def same_items_def same_links_def item_fields_def intro: less_le_trans)
  ultimately show ?thesis using u s1(3) unfolding copy_done_def by (intro conjI exI[of _ u]) simp_all
qed

context item_constructor
begin

text \<open>\<open>add_new\<close> with the constructor: the new member is the last of the object, or nothing has changed.\<close>

lemma add_new_total:
  assumes ok: "store_ok s" and x: "meant x" and ch: "has_children s a xs"
  shows "\<exists>r s'. add_new (create x) (Some a) (Some name) s = Inr (r, s') \<and>
    (case r of None \<Rightarrow> undone s s'
     | Some c \<Rightarrow> c \<notin> st_live s \<and> has_children s' a (xs @ [c]) \<and> st_string s' c = Some (cstr name) \<and>
         (\<forall>y \<in> set xs. st_string s' y = st_string s y))"
proof -
  obtain r s1 where r: "create x s = Inr (r, s1)"
    "case r of None \<Rightarrow> undone s s1 | Some c \<Rightarrow> copy_done s (item x) c s1"
    using creates[OF ok x] by (auto simp: created_def)
  show ?thesis
  proof (cases r)
    case None
    then show ?thesis using r
      by (intro exI[of _ None] exI[of _ s1]) (simp add: add_new_def add_item_to_object_def edit_simps)
  next
    case (Some c)
    then have made: "copy_done s (item x) c s1" using r(2) by simp
    then obtain u where u: "root u = c" "set (addresses u) \<inter> st_live s = {}" "st_live s1 = st_live s \<union> set (addresses u)"
      and c3: "st_next s1 c = None" and k: "kept_on (st_live s) s s1" by (auto simp: copy_done_def)
    have c: "c \<in> st_live s1" "c \<notin> st_live s" "st_next s1 c = None" "st_live s \<subseteq> st_live s1"
      using addresses_root(1)[of u] u c3 by auto
    have live: "set (a # xs) \<subseteq> st_live s" using ch by (auto simp: has_children_def)
    then have ca: "c \<notin> set (a # xs)" "a \<noteq> c" using c(2) by auto
    have ch1: "has_children s1 a xs"
      by (rule has_children_frame[OF ch])
        (use live c(4) k same_links_mono in \<open>auto simp: kept_on_def same_items_def\<close>)
    show ?thesis
    proof (cases "h_ok (st_heap s1) (h_calls (st_heap s1))")
      case True
      obtain s2 where s2: "cJSON_AddItemToObject (Some a) (Some name) (Some c) s1 = Inr (True, s2)"
        "has_children s2 a (xs @ [c])" "st_string s2 = (st_string s1)(c := Some (cstr name))"
        using add_named[OF ch1 c(1) ca(1) c(3) True] by blast
      moreover have "\<forall>y \<in> set xs. st_string s2 y = st_string s y"
        using s2(3) k live ca(1) by (auto simp: kept_on_def same_items_def item_fields_def)
      ultimately show ?thesis using r(1) Some c(2)
        by (intro exI[of _ "Some c"] exI[of _ s2])
          (simp add: add_new_def cJSON_AddItemToObject_def edit_simps)
    next
      case False
      let ?s = "s1\<lparr>st_heap := snd (allocate (st_heap s1))\<rparr>"
      have "add_item_to_object (Some a) (Some name) (Some c) False s1 = Inr (False, ?s)"
        using False ca(2) by (simp add: add_item_to_object_def cJSON_strdup_def allocate_def edit_simps)
      then have run: "add_new (create x) (Some a) (Some name) s = semi (delete_item (Some c)) (yields None) ?s"
        using r(1) Some by (simp add: add_new_def edit_simps)
      have "copy_done s (item x) c ?s" using copy_done_heap[OF made] False by (simp add: allocate_def grown_def)
      then obtain s2 where "delete_item (Some c) ?s = Inr ((), s2)" "store_ok s2" "st_live s2 = st_live s"
        "kept_on (st_live s) s s2" "h_live (st_heap s2) = h_live (st_heap s)"
        using delete_created by blast
      moreover have "\<not> (\<forall>i. h_ok (st_heap s) i)" using False k by (auto simp: kept_on_def)
      ultimately show ?thesis using run
        by (intro exI[of _ None] exI[of _ s2]) (simp add: undone_def edit_simps)
    qed
  qed
qed

end

end
