(* ===== verification/JsonHooks.thy ===== *)
theory JsonHooks
  imports JsonPrint
begin

text \<open>
  The choice of the allocator in src/cJSON.c, and the version string.  A function is the C library's or
  one of the client's; the printer grows its block with realloc only when \<open>hk_reallocate\<close> is there
  (the parameter of \<open>JsonPrint.print\<close>).
\<close>

datatype hook = Libc | Custom nat

record cJSON_Hooks =
  malloc_fn :: "hook option"
  free_fn :: "hook option"

record internal_hooks =
  hk_allocate :: hook
  hk_deallocate :: hook
  hk_reallocate :: "hook option"

definition cJSON_InitHooks :: "cJSON_Hooks option \<Rightarrow> internal_hooks" where
  "cJSON_InitHooks hooks =
     (case hooks of
        None \<Rightarrow> \<lparr>hk_allocate = Libc, hk_deallocate = Libc, hk_reallocate = Some Libc\<rparr>
      | Some h \<Rightarrow>
          let al = (case malloc_fn h of None \<Rightarrow> Libc | Some f \<Rightarrow> f);
              de = (case free_fn h of None \<Rightarrow> Libc | Some f \<Rightarrow> f)
          in \<lparr>hk_allocate = al, hk_deallocate = de,
              hk_reallocate = (if al = Libc \<and> de = Libc then Some Libc else None)\<rparr>)"

text \<open>realloc is used only together with the malloc and free it belongs to.\<close>

lemma InitHooks_realloc:
  "hk_reallocate (cJSON_InitHooks hooks) \<noteq> None \<longleftrightarrow>
     hk_allocate (cJSON_InitHooks hooks) = Libc \<and> hk_deallocate (cJSON_InitHooks hooks) = Libc"
  by (cases hooks) (simp_all add: cJSON_InitHooks_def Let_def)

definition cJSON_Version :: bytes where
  "cJSON_Version = fmt_d 1 @ lit ''.'' @ fmt_d 7 @ lit ''.'' @ fmt_d 15"

text \<open>The static buffer of 15 bytes has room for it.\<close>

lemma cJSON_Version_text: "cJSON_Version = lit ''1.7.15'' \<and> length cJSON_Version + 1 \<le> 15"
  by code_simp

end
