(* ===== verification/Spec2Isabelle.thy ===== *)
theory Spec2Isabelle
  imports Exchange Startup DebugPrint JsonMinify JsonBuild JsonHooks
begin

text \<open>
  icehydra: a broker that passes short messages and shared-memory names between processes over Unix
  sockets, its client library, and the cJSON library that reads its configuration.  This theory
  imports the whole development and states the properties C1, C2, ... of the program.

  The program.  main.c reads the configuration file (\<open>get_node_start\<close> in src/conf.c, over
  src/cJSON.c), which names a publisher node with its shared-memory blocks and the subscriber
  nodes, listens on one Unix socket per publisher, and then turns an event loop: select, accept a
  client and give its descriptor to the nodes of its name, or receive one message per readable node
  and either broadcast it to the nodes whose ids it lists (\<open>broadcast_cmd\<close>) or answer the question for
  the shared-memory table (\<open>parser_reserve_cmd\<close>).  icehydra.c is the other side of these sockets.
  src/unix\_socket.c frames the messages, src/icehydra\_util.c moves the bytes, include/list.h links
  the nodes, src/shm\_manager.c makes the shared memory.

  The broker and its clients.
  \<^item> \<open>Prelude\<close>: machine integers, byte buffers with checked access, C strings, and the fault monad
    \<open>cres\<close>: NULL dereference, an access outside a buffer, a failed assertion, exit, death by a signal, and
    a loop out of fuel are values.
  \<^item> \<open>IhList\<close> (include/list.h): both list types as stores of links; \<open>dlist\<close> and \<open>slist\<close> relate a store to
    the list of its nodes, and every operation is proved to be the list operation.  The locales
    \<open>intrusive_queue\<close> and \<open>intrusive_list\<close> are the interface the node lists are used through.
  \<^item> \<open>Protocol\<close> (include/conf.h, include/icehydra\_cmd.h, src/conf.c): the message header, the macros that
    read it, the functions that write it.
  \<^item> \<open>IhUtil\<close>, \<open>UnixSocket\<close> (src/icehydra\_util.c, src/unix\_socket.c): the retrying transfer loops, one
    message in and out, descriptor passing, the set-up of sockets.  What the kernel answers to each
    call is a parameter: every socket carries the finite list of answers its next calls get, and one of
    them (\<open>Gone\<close>, EPIPE) ends the sending process, as the code sends without MSG\_NOSIGNAL.  A
    descriptor in a message becomes a fresh one at the receiver (\<open>scm_delivers\<close>).  The
    locales \<open>message_sink\<close> and \<open>reliable_sink\<close> state what a sequence of sends puts on a stream.
  \<^item> \<open>Node\<close>, \<open>Broker\<close> (include/conf.h, src/conf.c, main.c): nodes, the table of shared-memory entries, the
    handlers and one turn of the loop (\<open>main_step\<close>, with its sets of descriptors, which hold those below
    FD\_SETSIZE; then the step relation \<open>broker_step\<close>).  \<open>broker_inv\<close> is the invariant every turn keeps
    under the three conditions \<open>accept_ok\<close>, \<open>below_fd_setsize\<close> and \<open>client_behaves\<close>.  \<open>Conf\<close> models the configuration from the file to the
    nodes, \<open>Startup\<close> main from its options to the first turn, \<open>DebugPrint\<close> the printers of the debug
    build.  \<open>Shm\<close> models src/shm\_manager.c in its three configurations, each call of a process with
    kernel answers of its own; \<open>Client\<close> is icehydra.c.
  \<^item> \<open>Exchange\<close>: the two sides composed, a broadcast from the publisher's call to the subscriber's
    receive, and the question for the table from the client's request to its buffer.

  cJSON.
  \<^item> \<open>JsonNumber\<close>: doubles with the operators of C as instances of the library's classes, strtod with
    correct rounding, the saturating conversion to int.
  \<^item> \<open>JsonTree\<close>: items as values, type tests, lookups.  \<open>JsonParse\<close>: the parser over a buffer, with the
    allocator's answers as a parameter; \<open>JsonSafe\<close>: it never leaves its buffers and never leaks.
  \<^item> \<open>JsonPrint\<close>: the printer with its growing block; \<open>JsonRender\<close>: the text it is to print (\<open>text_of\<close>), and
    that it prints it, fails cleanly, or faults, in each mode; \<open>JsonRoundTrip\<close>: the parser reads it back.
  \<^item> \<open>JsonMinify\<close>: cJSON\_Minify and the text it leaves (\<open>minified\<close>).
  \<^item> \<open>JsonEdit\<close>, \<open>JsonCreate\<close>: items as addresses of a store (\<open>jstore\<close>), where the links are written one
    by one as the code does; \<open>JsonLinks\<close>: what this does to the lists of children and to the
    allocated blocks.  \<open>holds s t v\<close> (\<open>JsonCompare\<close>) relates the items \<open>t\<close> of a store to the value \<open>v\<close>.
  \<^item> \<open>JsonCompare\<close>: cJSON\_Compare and the relation on values it decides; \<open>JsonDuplicate\<close>: the copy
    cJSON\_Duplicate makes holds the same value, or nothing is left of it.  \<open>JsonBuild\<close>: the contract of a
    function that makes an item (locale \<open>item_constructor\<close>), met for numbers, ints and strings, and from it
    the arrays made of C arrays and the members added by name.  \<open>JsonHooks\<close>: the choice of the allocator.

  What safety rests on.  The broker trusts its clients and never closes a descriptor that lost its
  node, so C1, C3 and C8 hold under conditions on every turn: accept gives an unused descriptor
  (documented), it is below FD\_SETSIZE (not guaranteed: C33), the client's path leaves room in
  \<open>sun_path\<close>, all its input, now and later, is made of messages of at most 4088 bytes (C35), and
  it is not gone while the broker sends to it (C34).  main gets to its loop only when calloc gives more
  than \<open>name_fix\<close> asks for (C40).

  The properties, in the order of importance: C1 to C8 are the behaviour of the broker, the parser and
  the printer as a whole, with the two sides of the sockets composed; C9 to C21 the values, texts and
  messages they handle and the editing of items; C22 to C33 the configuration, the lists, the loops that
  end, tables, numbers and descriptors; C34 to C40 the defects, each stating the inputs on which it
  happens.

  Bounds and fuel.  The transfer loops retry 2000 times (\<open>RETRIES\<close>), as the code does.  \<open>parse_fuel n\<close> =
  2n + 2 bounds the nested calls of the parser on n characters (\<open>JsonSafe.parser_total\<close>).  The loop over
  the configuration text takes its length as fuel (C26), the loop that waits for the number of entries
  what is pending on the socket (C27), cJSON\_Minify the length of the text and one
  (\<open>JsonMinify.cJSON_Minify_spec\<close>), cJSON\_Delete, cJSON\_Duplicate and
  cJSON\_Compare twice the number of items and two (\<open>JsonLinks.delete_item_tree\<close>,
  \<open>JsonDuplicate.cJSON_Duplicate_spec\<close>, \<open>JsonCompare.cJSON_Compare_holds\<close>).  Integers that
  cross a socket or overflow are words; int is kept as an integer with its bounds where the code converts,
  and the 64-bit size of a file is cut to the 32 bits of the int it is stored in (\<open>get_file_size\<close>).

  The build modelled: a failed assertion is a fault, whatever NDEBUG says; what the debug build prints is
  modelled apart from the loop (\<open>DebugPrint\<close>).  The sign of zero is not kept.  The decimal point is that of
  the C locale.  argp\_parse, the kernel's answers and the allocator are parameters.

  Not modelled: the manual test program, daemon (a call whose result is not looked at), cJSON's
  global error pointer (the position it is made of is a result of the parser here), and the thin
  wrappers cJSON\_malloc and cJSON\_free.
\<close>

section \<open>Inputs for the witnesses\<close>

definition sample_node :: "string \<Rightarrow> int \<Rightarrow> int \<Rightarrow> pub_sub_node_t" where
  "sample_node nm i fd = \<lparr>nd_name = lit nm, nd_type = CHUNK_TYPE_SUB, nd_cpu_bind = 0, nd_id = i,
     nd_connfd = fd, nd_shm_node_ptr = None, nd_shm_node_num = 0, nd_pub_links_num = 0\<rparr>"

definition sample_socket :: "bytes \<Rightarrow> socket" where
  "sample_socket inp = \<lparr>sched = [Again, Xfer 3], outgoing = [], incoming = inp, peer_closed = False\<rparr>"

definition sample_net :: "bytes \<Rightarrow> net" where
  "sample_net inp = (\<lambda>_. None)(5 := Some (sample_socket inp), 6 := Some (sample_socket []))"

definition sample_broker :: "bytes \<Rightarrow> broker" where
  "sample_broker inp = \<lparr>br_start = sample_node ''pub'' 0 0,
     br_nodes = [sample_node ''a'' 1 5, sample_node ''b'' 2 6], br_sockfd = 3, br_max_conn_fd = -1,
     br_link_count = 2, br_net = sample_net inp\<rparr>"

lemma sample_node_sel [simp]:
  "nd_name (sample_node nm i fd) = lit nm" "nd_id (sample_node nm i fd) = i"
  "nd_connfd (sample_node nm i fd) = fd" "nd_shm_node_ptr (sample_node nm i fd) = None"
  by (simp_all add: sample_node_def)

lemma sample_socket_ok [simp]:
  "obliging RETRIES (sched (sample_socket inp))" "incoming (sample_socket inp) = inp"
  by (simp_all add: sample_socket_def obliging_def RETRIES_def)

lemma sample_net_at [simp]:
  "sample_net inp 5 = Some (sample_socket inp)" "sample_net inp 6 = Some (sample_socket [])"
  by (simp_all add: sample_net_def)

lemma sample_ready: "fd_ready (sample_net inp) 5" "fd_ready (sample_net inp) 6"
  by (simp_all add: fd_ready_def)

lemma sample_broker_sel [simp]:
  "br_nodes (sample_broker inp) = [sample_node ''a'' 1 5, sample_node ''b'' 2 6]"
  "br_net (sample_broker inp) = sample_net inp" "br_sockfd (sample_broker inp) = 3"
  "br_start (sample_broker inp) = sample_node ''pub'' 0 0"
  by (simp_all add: sample_broker_def)

lemma sample_quiet: "no_sigpipe (sample_net inp)"
  by (auto simp: no_sigpipe_def pipe_ok_def sample_net_def sample_socket_def)

lemma sample_inv:
  assumes "framed 4088 inp"
  shows "broker_inv (sample_broker inp)"
proof -
  have "framed 4088 []" by (simp add: framed.simps)
  moreover have "fds_bounded (sample_broker inp)" by (simp add: fds_bounded_def sample_broker_def FD_SETSIZE_def)
  ultimately show ?thesis
    using assms sample_quiet
    by (auto simp: broker_inv_def names_ok_def own_fds_def open_fds_def shm_ok_def less_Suc_eq)
qed

definition sample_accept :: "bytes \<Rightarrow> accept_env" where
  "sample_accept path = \<lparr>acc_fd = 7, acc_len = length path + 3, acc_path = path @ replicate (108 - length path) 0,
     acc_is_sock = Some True\<rparr>"

lemma sample_accept_path: "0 \<notin> set path \<Longrightarrow> length path < 108 \<Longrightarrow> reports_path (sample_accept path) path"
  by (simp add: reports_path_def sample_accept_def SUN_PATH_SIZE_def)

lemma framed_Nil: "framed cap []"
  by (simp add: framed.simps)

section \<open>The broker\<close>

text \<open>
  C1: the broker never leaves the language, as long as the system and its clients behave.  The
  invariant: names distinct, no descriptor held by two nodes, every connected descriptor open, below
  FD\_SETSIZE, its input made of messages of at most 4088 bytes, its peer not gone.  From a state that
  satisfies it, after any number of turns of the event loop, whatever select and the sockets
  report, the next turn returns, keeps the invariant and does not change the configured nodes, if for
  every accepted connection accept gives an unused descriptor (\<open>accept_ok\<close>), which is below
  FD\_SETSIZE (\<open>below_fd_setsize\<close>), and its client leaves room in \<open>sun_path\<close>, sends only messages of
  at most 4088 bytes and is not gone while it is sent to (\<open>client_behaves\<close>).  C33, C34 and C35 show
  that the last two conditions are needed.
\<close>

theorem broker_never_faults:
  assumes "broker_inv b" and "broker_run b b'"
    and "accept_ok b' ev" and "below_fd_setsize ev" and "client_behaves ev"
  shows "\<exists>go b''. main_step ev b' = Inr (go, b'') \<and> broker_inv b'' \<and> br_static b'' = br_static b"
proof -
  have "kept b b'" by (rule broker_run_kept[OF assms(2,1)])
  moreover obtain go b'' where "main_step ev b' = Inr (go, b'')" "kept b' b''"
    using main_step_kept[OF _ assms(3-5)] calculation by (auto simp: kept_def)
  ultimately show ?thesis by (auto simp: kept_def)
qed

lemma sample_accept_turn:
  defines "ev \<equiv> SelReady [3] (sample_accept (lit ''/run/shm/a-sock'')) (sample_socket [])"
  shows "accept_ok (sample_broker []) ev" and "below_fd_setsize ev" and "client_behaves ev"
proof -
  have "sample_net [] 7 = None" by (simp add: sample_net_def)
  then show "accept_ok (sample_broker []) ev" by (simp add: ev_def accept_ok_def sample_accept_def SUN_PATH_SIZE_def)
  show "below_fd_setsize ev" by (simp add: ev_def below_fd_setsize_def sample_accept_def FD_SETSIZE_def)
  show "client_behaves ev"
    by (simp add: ev_def client_behaves_def sample_accept_def SOCKADDR_UN_SIZE_def framed_Nil)
      (simp add: sample_socket_def)
qed

lemma broker_never_faults_witness:
  "\<exists>go b''. main_step (SelReady [3] (sample_accept (lit ''/run/shm/a-sock'')) (sample_socket [])) (sample_broker []) =
      Inr (go, b'') \<and> broker_inv b'' \<and> br_static b'' = br_static (sample_broker [])"
  by (rule broker_never_faults[OF sample_inv[OF framed_Nil] start sample_accept_turn])

text \<open>
  C2: a broadcast reaches exactly the subscribers it names.  The publisher's call puts one message
  on the wire; when the broker, whose node \<open>i\<close> is that publisher, serves it, each connected node
  is sent the data as often as its id occurs among the ids, and nothing else; a subscriber that
  receives one of these messages gets the data, and its length.
\<close>

theorem broadcast_reaches_subscribers:
  assumes "0 \<le> client_connfd p" and "fd_ready (cl_net p) (client_connfd p)"
    and "length ids \<le> 56" and "length d + nat (round4 (int (length ids))) \<le> 4088"
    and "own_fds (br_nodes b)" and "br_net b (nd_connfd (br_nodes b ! i)) = Some s"
    and "obliging RETRIES (sched s)" and "0 \<le> nd_connfd (br_nodes b ! i)"
    and "incoming s = client_wire ids d @ rest"
    and "\<And>n. n \<in> set (br_nodes b) \<Longrightarrow> 0 \<le> nd_connfd n \<Longrightarrow> 0 < id_count n ids \<Longrightarrow>
      fd_ready (br_net b) (nd_connfd n)"
    and "0 \<le> client_connfd q" and "cl_net q (client_connfd q) = Some t" and "obliging RETRIES (sched t)"
    and "incoming t = delivered_msg (length ids) d @ rest2" and "length d \<le> length buf"
  shows "(\<exists>w. ih_send_broadcast_data \<lparr>bc_data = Some d, bc_ids = Some ids,
        bc_br_num = int (length ids), bc_datalen = int (length d)\<rparr> p = Inr (0, p\<lparr>cl_net := w\<rparr>) \<and>
      sends (cl_net p) (client_connfd p) (client_wire ids d) w) \<and>
    (\<exists>w. serve_node i b = Inr (b\<lparr>br_net := w\<rparr>) \<and>
      (\<forall>j u. j < length (br_nodes b) \<and> 0 < nd_connfd (br_nodes b ! j) \<and>
          br_net b (nd_connfd (br_nodes b ! j)) = Some u \<longrightarrow>
        (\<exists>u'. w (nd_connfd (br_nodes b ! j)) = Some u' \<and> outgoing u' = outgoing u @
          concat (replicate (id_count (br_nodes b ! j) ids) (delivered_msg (length ids) d))))) \<and>
    (\<exists>w. ih_recv_data buf q = Inr (0, Some (length d), d @ drop (length d) buf, q\<lparr>cl_net := w\<rparr>))"
proof -
  obtain w1 w2 where w: "serve_node i b = Inr (b\<lparr>br_net := w2\<rparr>)"
    "received (br_net b) (nd_connfd (br_nodes b ! i)) rest w1"
    "sends_all w1 (deliveries (br_nodes b) ids (delivered_msg (length ids) d)) w2"
    using broker_routes_client_msg[OF assms(6-9,3,4,10)] by blast
  note own = assms(5)
  have "length d < 65536" using assms(4) by simp
  from delivered_msg_head[OF this, of "length ids"]
  obtain hb where hb: "delivered_msg (length ids) d = hb @ d" "length hb = 8"
    "unat (bodylen (head_of hb)) = length d" "uint (cmdid (head_of hb)) = IH_CMD_ID_DEFAULT"
    by blast
  have "\<exists>w. ih_recv_data buf q = Inr (0, Some (length d), d @ drop (length d) buf, q\<lparr>cl_net := w\<rparr>)"
    using ih_recv_data_frame[of q t hb d rest2 buf] assms(11-15) hb by (auto simp: cmd_consts)
  then show ?thesis
    using ih_send_broadcast_data_ok[OF assms(1-3), of d] w(1) broker_outgoing[OF w(2,3) own] by blast
qed

lemma broadcast_reaches_subscribers_witness:
  "\<exists>w. serve_node 0 (sample_broker (client_wire [2] [65, 66] @ [])) =
      Inr (sample_broker (client_wire [2] [65, 66] @ [])\<lparr>br_net := w\<rparr>) \<and>
    (\<exists>u'. w 6 = Some u' \<and> outgoing u' = [73, 72, 2, 0, 1, 188, 0, 0, 65, 66])"
proof -
  let ?in = "client_wire [2] [65, 66] @ []" and ?b = "sample_broker (client_wire [2] [65, 66] @ [])"
  let ?p = "\<lparr>client_connfd = 5, cl_net = sample_net []\<rparr>"
  let ?q = "\<lparr>client_connfd = 5, cl_net = sample_net (delivered_msg 1 [65, 66] @ [])\<rparr>"
  have rd: "round4 1 = 4" by (simp add: round4_eq)
  have dm: "delivered_msg 1 [65, 66] = [73, 72, 2, 0, 1, 188, 0, 0, 65, 66]"
    by (simp add: delivered_msg_def client_head_def bytes_of_head_def PROTOCOL_MAGIC_def le16_def
        lo8_def hi8_def cmd_consts)
  have own: "own_fds (br_nodes ?b)" by (simp add: own_fds_def less_Suc_eq)
  have ready: "fd_ready (br_net ?b) (nd_connfd n)" if "n \<in> set (br_nodes ?b)" for n
    using that sample_ready by auto
  have "(\<exists>w. serve_node 0 ?b = Inr (?b\<lparr>br_net := w\<rparr>) \<and>
      (\<forall>j u. j < length (br_nodes ?b) \<and> 0 < nd_connfd (br_nodes ?b ! j) \<and>
          br_net ?b (nd_connfd (br_nodes ?b ! j)) = Some u \<longrightarrow>
        (\<exists>u'. w (nd_connfd (br_nodes ?b ! j)) = Some u' \<and> outgoing u' = outgoing u @
          concat (replicate (id_count (br_nodes ?b ! j) [2]) (delivered_msg (length [2 :: u8]) [65, 66])))))"
    using broadcast_reaches_subscribers[of ?p "[2]" "[65, 66]" ?b 0 "sample_socket ?in" "[]" ?q
        "sample_socket (delivered_msg 1 [65, 66] @ [])" "[]" "[0, 0]", OF _ _ _ _ own _ _ _ _ ready]
      sample_ready rd by simp
  then obtain w where w: "serve_node 0 ?b = Inr (?b\<lparr>br_net := w\<rparr>)"
    and "\<exists>u'. w (nd_connfd (br_nodes ?b ! 1)) = Some u' \<and> outgoing u' = outgoing (sample_socket []) @
          concat (replicate (id_count (br_nodes ?b ! 1) [2]) (delivered_msg (length [2 :: u8]) [65, 66]))"
    by (elim exE conjE, drule_tac x = 1 in spec, drule_tac x = "sample_socket []" in spec) auto
  then show ?thesis using dm by (auto simp: id_count_def sample_socket_def)
qed

text \<open>
  C7: a client gets the shared-memory table.  The broker answers the two questions of
  \<open>ih_get_shm_infos\<close>, in two service turns, with exactly the number of entries and the table; a
  client that finds these answers in its input (select may time out any number of times in
  between) returns that number with the table at the start of its buffer, and looking any entry's
  name up in that buffer then maps the segment with that entry's id.
\<close>

theorem shm_table_reaches_client:
  assumes "br_net b (nd_connfd (br_nodes b ! i)) = Some s" and "obliging RETRIES (sched s)"
    and "0 \<le> nd_connfd (br_nodes b ! i)"
    and "incoming s = reserve_wire IH_RESERVE_CMD_ID_GET_SHM_NUM [] @
      reserve_wire IH_RESERVE_CMD_ID_GET_SHM_INFO [] @ rest"
    and "shm_ok (br_start b)" and "nd_shm_node_ptr (br_start b) = Some ss"
    and "ss \<noteq> []" and "length ss < 256" and "\<forall>e \<in> set ss. shm_name e \<noteq> []"
    and "distinct (map shm_name ss)"
    and "0 \<le> client_connfd c" and "cl_net c (client_connfd c) = Some t" and "obliging RETRIES (sched t)"
    and "incoming t = reserve_wire IH_RESERVE_CMD_ID_GET_SHM_NUM [of_nat (length ss)] @
      reserve_wire IH_RESERVE_CMD_ID_GET_SHM_INFO (shm_table_bytes ss) @ rest2"
    and "40 * length ss \<le> length buf" and "length buf < 2 ^ 31"
  shows "(\<exists>b1 b2 s2. serve_node i b = Inr b1 \<and> serve_node i b1 = Inr b2 \<and> br_static b2 = br_static b \<and>
      br_net b2 (nd_connfd (br_nodes b ! i)) = Some s2 \<and> incoming s2 = rest \<and>
      outgoing s2 = outgoing s @ reserve_wire IH_RESERVE_CMD_ID_GET_SHM_NUM [of_nat (length ss)] @
        reserve_wire IH_RESERVE_CMD_ID_GET_SHM_INFO (shm_table_bytes ss)) \<and>
    (\<exists>w buf'. ih_get_shm_infos (replicate turns False @ True # sls) buf (int (length buf)) c =
        Inr (int (length ss), buf', c\<lparr>cl_net := w\<rparr>) \<and>
      (\<forall>j < length ss. ih_get_shm_by_name k buf' (shm_name (ss ! j)) =
        ih_get_shm_by_id k (sint (shm_id (ss ! j)))))"
proof -
  have ok: "list_all shm_node_ok ss" using assms(5,6) by (simp add: shm_ok_def)
  show ?thesis
    using broker_answers_table[OF assms(1-6,8)] lookup_in_table[OF ok assms(9,10)]
      ih_get_shm_infos_ok[OF assms(11-14) ok assms(7,8,15,16), of turns sls] by blast
qed

definition sample_shm :: SHM_NODE_T where
  "sample_shm = \<lparr>shm_name = lit ''m'', shm_id = 17, shm_size = 8\<rparr>"

definition sample_kernel :: shm_kernel where
  "sample_kernel = \<lparr>k_open = (\<lambda>_. 4), k_ftruncate = (\<lambda>_ _. 0), k_mmap = (\<lambda>_ _. Some 100),
     k_munmap = (\<lambda>_. 0), k_is_dir = (\<lambda>_. Some True), k_popen = True, k_ftok = (\<lambda>_ i. i),
     k_shmget = (\<lambda>i n _. if n \<le> 4096 then i else -1),
     k_shmat = (\<lambda>i. if i < 0 then None else Some 200), k_segsz = (\<lambda>_. Some 4096)\<rparr>"

lemma shm_table_reaches_client_witness:
  "\<exists>w buf'. ih_get_shm_infos [False, True] (replicate 50 0) 50
      \<lparr>client_connfd = 5, cl_net = sample_net (reserve_wire IH_RESERVE_CMD_ID_GET_SHM_NUM [1] @
        reserve_wire IH_RESERVE_CMD_ID_GET_SHM_INFO (shm_table_bytes [sample_shm]))\<rparr> =
      Inr (1, buf', \<lparr>client_connfd = 5, cl_net = w\<rparr>) \<and>
    ih_get_shm_by_name sample_kernel buf' (lit ''m'') = Inr (4096, Some 200)"
proof -
  let ?q = "reserve_wire IH_RESERVE_CMD_ID_GET_SHM_NUM [] @ reserve_wire IH_RESERVE_CMD_ID_GET_SHM_INFO [] @ []"
  let ?b = "(sample_broker ?q)\<lparr>br_start := (sample_node ''pub'' 0 0)\<lparr>nd_shm_node_ptr := Some [sample_shm],
    nd_shm_node_num := 1\<rparr>\<rparr>"
  let ?in = "reserve_wire IH_RESERVE_CMD_ID_GET_SHM_NUM [of_nat (length [sample_shm])] @
      reserve_wire IH_RESERVE_CMD_ID_GET_SHM_INFO (shm_table_bytes [sample_shm]) @ []"
  let ?c = "\<lparr>client_connfd = 5, cl_net = sample_net ?in\<rparr>"
  have ok: "shm_ok (br_start ?b)"
    by (simp add: shm_ok_def shm_node_ok_def sample_shm_def MAX_FILE_NAME_def)
  have "\<exists>w buf'. ih_get_shm_infos (replicate 1 False @ True # []) (replicate 50 0) (int (length (replicate 50 (0 :: u8)))) ?c =
        Inr (int (length [sample_shm]), buf', ?c\<lparr>cl_net := w\<rparr>) \<and>
      (\<forall>j < length [sample_shm]. ih_get_shm_by_name sample_kernel buf' (shm_name ([sample_shm] ! j)) =
        ih_get_shm_by_id sample_kernel (sint (shm_id ([sample_shm] ! j))))"
    using shm_table_reaches_client[of ?b 0 "sample_socket ?q" "[]" "[sample_shm]" ?c "sample_socket ?in" "[]"
        "replicate 50 0" 1 "[]" sample_kernel, OF _ _ _ _ ok]
    by (simp add: sample_shm_def)
  then show ?thesis
    by (auto simp: sample_shm_def ih_get_shm_by_id_def shm_mmap_def sample_kernel_def)
qed

text \<open>
  C6: what a broadcast does on any kernel.  Either it returns 0 and every connected
  addressee has the whole message, once per occurrence of its id, in the order of the node list,
  or it returns the negated id of a node and stops there: the nodes before it are complete, that
  node has some whole messages and a proper part of one more, the nodes behind it nothing, or SIGPIPE
  ends the process, which happens only when the peer of an addressed node is gone (\<open>pipe_ok\<close> fails).
\<close>

theorem broadcast_all_or_cut:
  assumes "well_sized buf"
  shows "(\<exists>r w' b2. broadcast_cmd ns w buf = Inr (r, w', b2) \<and>
      (r = 0 \<and> sends_all w (deliveries ns (ids_of buf) (forwarded buf)) w' \<or>
       broadcast_cut w ns (ids_of buf) (forwarded buf) r w')) \<or>
    (broadcast_cmd ns w buf = Inl Killed \<and>
      (\<exists>n \<in> set ns. addressed n (ids_of buf) \<and> \<not> pipe_ok w (nd_connfd n)))"
  by (rule broadcast_cmd_outcome[OF assms])

lemma broadcast_all_or_cut_witness:
  "\<exists>r w' b2. broadcast_cmd [sample_node ''b'' 2 6] (sample_net []) [73, 72, 5, 0, 1, 188, 1, 0, 2, 0, 0, 0, 65] =
      Inr (r, w', b2) \<and>
    (r = 0 \<and> sends_all (sample_net []) [(6, [73, 72, 1, 0, 1, 188, 0, 0, 65])] w' \<or>
     broadcast_cut (sample_net []) [sample_node ''b'' 2 6] [2] [73, 72, 1, 0, 1, 188, 0, 0, 65] r w')"
proof -
  let ?buf = "[73, 72, 5, 0, 1, 188, 1, 0, 2, 0, 0, 0, 65] :: bytes"
  have "un16 5 0 = 5" "lo8 1 = 1" "hi8 1 = 0" by (simp_all add: un16_def lo8_def hi8_def)
  then have "well_sized ?buf" "ids_of ?buf = [2]" "forwarded ?buf = [73, 72, 1, 0, 1, 188, 0, 0, 65]"
    by (simp_all add: well_sized_def ids_of_def forwarded_def forwarded_head_def payload_of_def head_of_def
        broadcast_len_def bytes_of_head_def le16_def PROTOCOL_MAGIC_def cmd_consts)
  then show ?thesis
    using broadcast_all_or_cut[of ?buf "[sample_node ''b'' 2 6]" "sample_net []"] sample_quiet[of "[]"]
    by (simp add: node_deliveries_def id_count_def no_sigpipe_def)
qed

section \<open>From the configuration file to the event loop\<close>

definition sample_heap :: heap where
  "sample_heap = \<lparr>h_ok = (\<lambda>_. True), h_calls = 0, h_live = 0\<rparr>"

definition sample_text :: bytes where
  "sample_text = lit ''{\"ih-pid\":0}{\"ih-pid\":1}''"

definition sample_file :: file_env where
  "sample_file = \<lparr>stat_size = Some (int (length sample_text)), fopen_content = Some sample_text, malloc_ok = True\<rparr>"

definition sample_conf :: conf_env where
  "sample_conf = \<lparr>cf_shm = (\<lambda>_ _. sample_kernel), cf_node_ok = (\<lambda>_. True), cf_table_ok = (\<lambda>_. True)\<rparr>"

lemma sample_start:
  "case get_node_start sample_file sample_conf sample_heap of
     Inr (Some g, acts, h) \<Rightarrow> rg_count g = 2 \<and> rg_head g = Some 0 \<and>
       nd_shm_node_ptr (rg_node g 0) = None \<and> nd_name (rg_node g 1) = []
   | _ \<Rightarrow> False"
  by code_simp

lemma sample_started:
  obtains g acts h and b :: broker where "get_node_start sample_file sample_conf sample_heap = Inr (Some g, acts, h)"
    and "main_start g 3 (\<lambda>_. None) = Inr b" and "map nd_name (br_nodes b) = [[]]"
    and "nd_shm_node_ptr (br_start b) = None" and "rg_count g = 2"
proof -
  obtain g acts h where g: "get_node_start sample_file sample_conf sample_heap = Inr (Some g, acts, h)"
    "rg_count g = 2" "rg_head g = Some 0" "nd_shm_node_ptr (rg_node g 0) = None" "nd_name (rg_node g 1) = []"
    using sample_start by (auto split: sum.splits option.splits)
  have "visited g = Some [1]" using get_node_start_spec[OF g(1)] g(2,3) by (auto simp: numeral_2_eq_2)
  then have "main_start g 3 (\<lambda>_. None) = Inr \<lparr>br_start = rg_node g 0, br_nodes = [rg_node g 1],
      br_sockfd = 3, br_max_conn_fd = -1, br_link_count = 0, br_net = (\<lambda>_. None)\<rparr>"
    using g(3) by (simp add: main_start_def)
  from that[OF g(1) this] show thesis using g(2,4,5) by simp
qed

text \<open>
  C8: a broker started from a configuration file is safe.  Whatever the file holds, if the
  configuration is accepted, the names of the nodes differ, there are at most 255 blocks of
  shared memory and the listening descriptor is below FD\_SETSIZE, then the event loop started on it
  never faults, after any number of turns, under the conditions of C1 on accept and on the clients: a
  fresh descriptor below FD\_SETSIZE, a path with room in \<open>sun_path\<close>, no message of more than 4088
  bytes, ever, and no peer that is gone while it is sent to.
\<close>

theorem configured_broker_is_safe:
  assumes "get_node_start f e h = Inr (Some g, acts, h')" and "main_start g sockfd w = Inr b"
    and "distinct (map nd_name (br_nodes b))"
    and "\<And>ss. nd_shm_node_ptr (br_start b) = Some ss \<Longrightarrow> length ss \<le> 255"
    and "sockfd < FD_SETSIZE" and "no_sigpipe w"
    and "broker_run b b'" and "accept_ok b' ev" and "below_fd_setsize ev" and "client_behaves ev"
  shows "\<exists>go b''. main_step ev b' = Inr (go, b'') \<and> map nd_name (br_nodes b'') = map nd_name (br_nodes b)"
proof -
  have run: "kept b b'" by (rule broker_run_kept[OF assms(7) main_start_inv[OF assms(1-6)]])
  then obtain go b'' where step: "main_step ev b' = Inr (go, b'')" "kept b' b''"
    using main_step_kept[OF _ assms(8-10)] by (auto simp: kept_def)
  then have "map node_id_part (br_nodes b'') = map node_id_part (br_nodes b)"
    using run by (simp add: kept_def br_static_def)
  then have "map nd_name (map node_id_part (br_nodes b'')) = map nd_name (map node_id_part (br_nodes b))"
    by (simp only:)
  then show ?thesis using step(1) by (simp add: node_id_part_def comp_def)
qed

lemma no_sockets_quiet: "no_sigpipe (\<lambda>_. None)"
  by (simp add: no_sigpipe_def pipe_ok_def)

lemma sample_timeout: "accept_ok b SelTimeout" "below_fd_setsize SelTimeout" "client_behaves SelTimeout"
  by (simp_all add: accept_ok_def below_fd_setsize_def client_behaves_def)

lemma configured_broker_is_safe_witness:
  "\<exists>g acts h b go b''. get_node_start sample_file sample_conf sample_heap = Inr (Some g, acts, h) \<and>
    main_start g 3 (\<lambda>_. None) = Inr b \<and> main_step SelTimeout b = Inr (go, b'') \<and>
    map nd_name (br_nodes b'') = [[]]"
proof -
  obtain g acts h and b :: broker where s: "get_node_start sample_file sample_conf sample_heap = Inr (Some g, acts, h)"
    "main_start g 3 (\<lambda>_. None) = Inr b" "map nd_name (br_nodes b) = [[]]"
    "nd_shm_node_ptr (br_start b) = None"
    by (rule sample_started)
  have d: "distinct (map nd_name (br_nodes b))" unfolding s(3) by simp
  have "(3 :: int) < FD_SETSIZE" by (simp add: FD_SETSIZE_def)
  then have "\<exists>go b''. main_step SelTimeout b = Inr (go, b'') \<and> map nd_name (br_nodes b'') = map nd_name (br_nodes b)"
    by (intro configured_broker_is_safe[OF s(1,2) d _ _ no_sockets_quiet start sample_timeout]) (use s(4) in simp_all)
  then obtain go b'' where "main_step SelTimeout b = Inr (go, b'')" "map nd_name (br_nodes b'') = [[]]"
    unfolding s(3) by (elim exE conjE)
  with s(1,2) show ?thesis by (intro exI conjI)
qed

text \<open>
  C22: what a configuration file means.  The result is the last node with id 0; its list, walked
  by list\_for\_each, holds the nodes that follow it in the file, in the order of the file, none of
  which has id 0; its link count is the number of nodes of the file less one; every node's name is
  terminated within its array and its shared-memory table is well formed.
\<close>

theorem configuration_order:
  assumes "get_node_start f e h = Inr (Some g, acts, h')"
  shows "\<exists>r. rg_head g = Some r \<and> r < rg_count g \<and> visited g = Some [Suc r ..< rg_count g] \<and>
    nd_pub_links_num (rg_node g r) = int (rg_count g) - 1 \<and> nd_id (rg_node g r) = 0 \<and>
    (\<forall>a. r < a \<and> a < rg_count g \<longrightarrow> nd_id (rg_node g a) \<noteq> 0) \<and>
    (\<forall>a < rg_count g. node_wf (rg_node g a))"
  by (rule get_node_start_spec[OF assms])

lemma configuration_order_witness:
  "\<exists>g acts h r. get_node_start sample_file sample_conf sample_heap = Inr (Some g, acts, h) \<and>
    visited g = Some [Suc r ..< 2] \<and> nd_id (rg_node g r) = 0"
proof -
  obtain g acts h and b :: broker where s: "get_node_start sample_file sample_conf sample_heap = Inr (Some g, acts, h)"
    "rg_count g = 2"
    by (rule sample_started)
  from configuration_order[OF s(1)] show ?thesis using s by auto
qed

section \<open>The JSON parser\<close>

text \<open>
  C4: the parser is total and memory safe on terminated text.  It returns on any bytes that hold a
  NUL, whichever allocations fail: no access outside the text, no dereference of NULL, every copied
  string inside the block allocated for it, and the fuel of the model is never used up.  The end it
  reports lies in the text; when it fails, everything it allocated has been freed; when it succeeds
  the live blocks are those of the tree, whose items have the shape their type announces.
\<close>

theorem cJSON_parser_is_safe:
  assumes "0 \<in> set m"
  shows "\<exists>r p h'. cJSON_ParseWithOpts (Some m) req h = Inr (r, p, h') \<and> p \<le> length (cstr m) \<and>
    (case r of None \<Rightarrow> h_live h' = h_live h
     | Some v \<Rightarrow> h_live h' = h_live h + blocks v \<and> 0 < p \<and> shape v)"
proof -
  obtain r p h' where "cJSON_ParseWithOpts (Some m) req h = Inr (r, p, h')"
    "parse_result_ok (length (cstr m) + 1) h (r, p, h')"
    using cJSON_ParseWithOpts_total[OF assms] by (metis prod_cases3)
  then show ?thesis by (auto simp: parse_result_ok_def split: option.splits)
qed

lemma cJSON_parser_is_safe_witness:
  "\<exists>r p h'. cJSON_ParseWithOpts (Some (lit ''[1,{'' @ [0])) True sample_heap = Inr (r, p, h') \<and> p \<le> 4 \<and>
    (case r of None \<Rightarrow> h_live h' = 0 | Some v \<Rightarrow> h_live h' = blocks v \<and> 0 < p \<and> shape v)"
proof -
  have "length (cstr (lit ''[1,{'' @ [0])) = 4" "h_live sample_heap = 0" "(0 :: u8) \<in> set (lit ''[1,{'' @ [0])"
    by (simp_all add: cstr_def sample_heap_def)
  with cJSON_parser_is_safe[OF this(3), of True sample_heap] show ?thesis by (simp only: add_0)
qed

text \<open>
  C9: every item of a parsed tree is well typed.  Exactly one of the seven JSON type tests holds of it and
  neither cJSON\_IsInvalid nor cJSON\_IsRaw; it has a string value exactly when it is a string and a
  number value exactly when it is a number, whose int is then the saturated double; only arrays and
  objects have children, without names in an array and with names in an object.
\<close>

theorem parsed_items_are_typed:
  assumes "0 \<in> set m" and "cJSON_ParseWithOpts (Some m) req h = Inr (Some v, p, h')" and "w \<in> set (subitems v)"
  shows "length (filter (\<lambda>is. is (Some w)) [cJSON_IsFalse, cJSON_IsTrue, cJSON_IsNull, cJSON_IsNumber,
      cJSON_IsString, cJSON_IsArray, cJSON_IsObject]) = 1 \<and>
    \<not> cJSON_IsInvalid (Some w) \<and> \<not> cJSON_IsRaw (Some w) \<and>
    (cJSON_IsString (Some w) \<longleftrightarrow> cJSON_GetStringValue (Some w) \<noteq> None) \<and>
    (cJSON_IsNumber (Some w) \<longleftrightarrow> cJSON_GetNumberValue (Some w) \<noteq> NaN) \<and>
    (cJSON_IsNumber (Some w) \<longrightarrow> number_to_int (cJSON_GetNumberValue (Some w)) = Inr (valueint w)) \<and>
    (children w \<noteq> [] \<longrightarrow> cJSON_IsArray (Some w) \<or> cJSON_IsObject (Some w)) \<and>
    (\<forall>c \<in> set (children w). c_string c = None \<longleftrightarrow> cJSON_IsArray (Some w))"
proof -
  obtain res where "cJSON_ParseWithOpts (Some m) req h = Inr res" "parse_result_ok (length (cstr m) + 1) h res"
    using cJSON_ParseWithOpts_total[OF assms(1)] by blast
  then have "shape v" using assms(2) by (auto simp: parse_result_ok_def)
  then have "shape w" by (rule shape_subitems[OF _ assms(3)])
  note w = shape_types[OF this] shape_values[OF this]
  show ?thesis by (intro conjI impI ballI w)
qed

lemma parsed_items_are_typed_witness:
  "\<exists>v p h'. cJSON_ParseWithOpts (Some (lit ''[7]'' @ [0])) True sample_heap = Inr (Some v, p, h') \<and>
    children v = [Item cJSON_Number None 7 (Fin 7) None []] \<and>
    number_to_int (cJSON_GetNumberValue (Some (hd (children v)))) = Inr 7 \<and> c_string (hd (children v)) = None"
proof -
  let ?n = "Item cJSON_Number None 7 (Fin 7) None []"
  have "case cJSON_ParseWithOpts (Some (lit ''[7]'' @ [0])) True sample_heap of
      Inr (Some v, _) \<Rightarrow> v = Item cJSON_Array None 0 (Fin 0) None [?n] | _ \<Rightarrow> False" by code_simp
  then obtain p h' where run: "cJSON_ParseWithOpts (Some (lit ''[7]'' @ [0])) True sample_heap =
      Inr (Some (Item cJSON_Array None 0 (Fin 0) None [?n]), p, h')"
    by (auto split: sum.splits option.splits prod.splits)
  have "cJSON_IsNumber (Some ?n)" by (simp add: cJSON_IsNumber_def is_type_def json_types)
  with parsed_items_are_typed[OF _ run, of ?n] have "number_to_int (cJSON_GetNumberValue (Some ?n)) = Inr 7" by simp
  then show ?thesis using run by simp
qed

text \<open>
  Without the terminator it is not.  On the seven bytes of an object that ends behind a comma,
  passed with their length, the parser reads past the end of the text.
\<close>

theorem cJSON_unterminated_overread:
  "cJSON_ParseWithLength (Some (lit ''{\"\":\"\",'')) 7 \<lparr>h_ok = (\<lambda>_. True), h_calls = 0, h_live = 0\<rparr> = Inl OOB"
proof -
  have "(case cJSON_ParseWithLength (Some (lit ''{\"\":\"\",'')) 7
      \<lparr>h_ok = (\<lambda>_. True), h_calls = 0, h_live = 0\<rparr> of Inl OOB \<Rightarrow> True | _ \<Rightarrow> False)"
    by code_simp
  then show ?thesis by (simp split: sum.splits fault.splits)
qed

section \<open>Messages on a socket\<close>

text \<open>
  C13: a receive takes exactly one message.  When \<open>tcp_recv_protocol_cmd\<close> reports success, on any
  kernel, the header and the body it returns are the first bytes of the stream, the body as long
  as the header says; the rest of the stream, what was to be sent and every other socket are
  untouched.
\<close>

theorem recv_takes_one_message:
  assumes "tcp_recv_protocol_cmd w fd (Some h) (Some d) = Inr (0, h', d', w')"
    and "0 \<le> fd" and "length h = 8"
  shows "\<exists>hb body s s'. h' = Some hb \<and> length hb = 8 \<and>
    length body = unat (bodylen (head_of hb)) \<and> d' = Some (body @ drop (length body) d) \<and>
    w fd = Some s \<and> w' fd = Some s' \<and> incoming s = hb @ body @ incoming s' \<and>
    outgoing s' = outgoing s \<and> suffix (sched s') (sched s) \<and> (\<forall>g. g \<noteq> fd \<longrightarrow> w' g = w g)"
  by (rule tcp_recv_protocol_cmd_success[OF assms])

lemma recv_takes_one_message_witness:
  "\<exists>w'. tcp_recv_protocol_cmd (sample_net (reserve_wire 7 [9] @ [4, 2])) 5 (Some (replicate 8 0)) (Some [0, 0]) =
      Inr (0, Some (bytes_of_head (reserve_head 1 7)), Some [9, 0], w') \<and>
    (\<exists>s'. w' 5 = Some s' \<and> incoming s' = [4, 2])"
proof -
  let ?w = "sample_net (reserve_wire 7 [9] @ [4, 2])" and ?hb = "bytes_of_head (reserve_head 1 7)"
  let ?s = "sample_socket (reserve_wire 7 [9] @ [4, 2])"
  have hb: "length ?hb = 8" "unat (bodylen (head_of ?hb)) = 1"
    using reserve_head_facts(1,3) by (simp_all add: reserve_head_fields)
  have "if length [9 :: u8] \<le> length [0 :: u8, 0]
    then \<exists>w' s'. tcp_recv_protocol_cmd ?w 5 (Some (replicate 8 0)) (Some [0, 0]) =
        Inr (0, Some (?hb @ drop 8 (replicate 8 0)), Some ([9] @ drop (length [9 :: u8]) [0, 0]), w') \<and>
      w' 5 = Some s' \<and> incoming s' = [4, 2]
    else tcp_recv_protocol_cmd ?w 5 (Some (replicate 8 0)) (Some [0, 0]) = Inl OOB"
    by (rule tcp_recv_protocol_cmd_frame[of ?w 5 ?s]) (use hb in \<open>simp_all add: reserve_wire_def\<close>)
  then obtain w' s' where r: "tcp_recv_protocol_cmd ?w 5 (Some (replicate 8 0)) (Some [0, 0]) =
      Inr (0, Some ?hb, Some [9, 0], w')" "w' 5 = Some s'" "incoming s' = [4, 2]"
    by (simp del: replicate.simps add: replicate_0) blast
  from recv_takes_one_message[OF r(1)] have "\<exists>s'. w' 5 = Some s' \<and> outgoing s' = []"
    by (auto simp: sample_socket_def)
  then show ?thesis using r by blast
qed

text \<open>
  C14: a send is all or a proper prefix.  On any kernel, \<open>tcp_send_protocol_cmd\<close> on an open
  descriptor returns; 0 means that exactly the header and the body the header announces went out,
  -1 that a proper prefix of those bytes did.  Only when the peer is gone does it not return: SIGPIPE
  ends the process.
\<close>

theorem send_is_all_or_prefix:
  assumes "0 \<le> fd" and "8 \<le> length h" and "unat (bodylen (head_of h)) \<le> length d"
  shows "(tcp_send_protocol_cmd w fd (Some h) (Some d) = Inl Killed \<and> \<not> pipe_ok w fd) \<or>
    (\<exists>r w'. tcp_send_protocol_cmd w fd (Some h) (Some d) = Inr (r, w') \<and>
      (if r = 0 then sends w fd (frame h d) w'
       else r = -1 \<and> (\<exists>n < length (frame h d). sends w fd (take n (frame h d)) w')))"
  by (rule tcp_send_protocol_cmd_outcome[OF assms])

lemma send_is_all_or_prefix_witness:
  "\<exists>r w'. tcp_send_protocol_cmd (sample_net []) 6 (Some [73, 72, 2, 0, 1, 188, 0, 0]) (Some [65, 66, 67]) = Inr (r, w') \<and>
    (if r = 0 then sends (sample_net []) 6 [73, 72, 2, 0, 1, 188, 0, 0, 65, 66] w'
     else r = -1 \<and> (\<exists>n < 10. sends (sample_net []) 6 (take n [73, 72, 2, 0, 1, 188, 0, 0, 65, 66]) w'))"
proof -
  let ?h = "[73, 72, 2, 0, 1, 188, 0, 0] :: bytes"
  have "un16 2 0 = 2" by (simp add: un16_def)
  then have fr: "frame ?h [65, 66, 67] = [73, 72, 2, 0, 1, 188, 0, 0, 65, 66]"
    "length [73, 72, 2, 0, 1, 188, 0, 0, 65, 66 :: u8] = 10" "unat (bodylen (head_of ?h)) \<le> length [65, 66, 67 :: u8]"
    by (simp_all add: head_of_def frame_def)
  show ?thesis using send_is_all_or_prefix[OF _ _ fr(3), of 6 "sample_net []"] sample_quiet[of "[]"]
    unfolding fr no_sigpipe_def by simp
qed

text \<open>
  C35: a message that does not fit the receive buffer overruns it.  The broker receives into 4096
  bytes and does not look at the announced length; any body longer than the 4088 bytes behind the
  header is stored past the end.
\<close>

theorem oversized_message_overruns:
  assumes "br_net b (nd_connfd (br_nodes b ! i)) = Some s" and "obliging RETRIES (sched s)"
    and "0 \<le> nd_connfd (br_nodes b ! i)" and "incoming s = hb @ body @ rest" and "length hb = 8"
    and "unat (bodylen (head_of hb)) = length body" and "4088 < length body"
  shows "serve_node i b = Inl OOB"
proof -
  have "tcp_recv_protocol_cmd (br_net b) (nd_connfd (br_nodes b ! i)) (Some (replicate 8 0))
      (Some (replicate 4088 0)) = Inl OOB"
    using tcp_recv_protocol_cmd_frame[of "br_net b" _ s "replicate 8 0" hb body rest "replicate 4088 0"] assms
    by simp
  then show ?thesis by (simp add: serve_node_def Let_def MAX_CMD_LEN_def)
qed

lemma oversized_message_overruns_witness:
  "serve_node 0 (sample_broker (reserve_wire 0 (replicate 5000 1) @ [])) = Inl OOB"
proof (rule oversized_message_overruns[where s = "sample_socket (reserve_wire 0 (replicate 5000 1) @ [])"
      and hb = "bytes_of_head (reserve_head 5000 0)" and body = "replicate 5000 1"
      and rest = "[]"])
  show "unat (bodylen (head_of (bytes_of_head (reserve_head 5000 0)))) = length (replicate 5000 (1 :: u8))"
    unfolding reserve_head_facts(3) reserve_head_fields by simp
qed (simp_all add: reserve_wire_def reserve_head_facts(1))

text \<open>
  C36: a broadcast whose body is shorter than its own id field is forwarded with a stale length.
  The negative length is not stored, so the subscribers get the original length and, as data, bytes
  of the receive buffer behind the message.
\<close>

theorem short_broadcast_is_stale:
  assumes "length buf = MAX_CMD_LEN"
    and "unat (bodylen (head_of buf)) < broadcast_len (broadcast_num (head_of buf))"
    and "\<And>n. n \<in> set ns \<Longrightarrow> 0 \<le> nd_connfd n \<Longrightarrow> 0 < id_count n (ids_of buf) \<Longrightarrow>
      fd_ready w (nd_connfd n)"
  shows "\<exists>w' b2. broadcast_cmd ns w buf = Inr (0, w', b2) \<and>
    sends_all w (deliveries ns (ids_of buf) (stale_frame buf)) w'"
  by (rule broadcast_cmd_short[OF assms])

lemma short_broadcast_is_stale_witness:
  "\<exists>w' b2. broadcast_cmd [sample_node ''b'' 2 6] (sample_net [])
      ([73, 72, 1, 0, 1, 188, 1, 0, 2] @ replicate 4087 7) = Inr (0, w', b2) \<and>
    sends_all (sample_net []) [(6, [73, 72, 1, 0, 1, 188, 0, 0, 7])] w'"
proof -
  let ?buf = "[73, 72, 1, 0, 1, 188, 1, 0, 2] @ replicate 4087 7 :: bytes"
  have "un16 1 0 = 1" "lo8 1 = 1" "hi8 1 = 0" by (simp_all add: un16_def lo8_def hi8_def)
  then have "unat (bodylen (head_of ?buf)) < broadcast_len (broadcast_num (head_of ?buf))" "ids_of ?buf = [2]"
    "stale_frame ?buf = [73, 72, 1, 0, 1, 188, 0, 0, 7]"
    by (simp_all add: ids_of_def stale_frame_def forwarded_head_def head_of_def
        broadcast_len_def bytes_of_head_def le16_def PROTOCOL_MAGIC_def cmd_consts)
  then show ?thesis
    using short_broadcast_is_stale[of ?buf "[sample_node ''b'' 2 6]" "sample_net []"] sample_ready
    by (simp add: node_deliveries_def id_count_def MAX_CMD_LEN_def)
qed

text \<open>
  C37: an addressed node that never connected cuts the broadcast off.  calloc leaves its descriptor
  0; the send on it fails, the nodes behind it get nothing, although they may be connected, and
  the value returned is its negated id.
\<close>

theorem unconnected_node_cuts_broadcast:
  assumes "well_sized buf" and "\<forall>k \<in> set ns1. id_count k (ids_of buf) = 0"
    and "0 < id_count n (ids_of buf)" and "nd_connfd n = 0" and "w 0 = None"
  shows "\<exists>b2. broadcast_cmd (ns1 @ n # ns2) w buf = Inr (- nd_id n, w, b2)"
  using broadcast_cmd_no_socket[OF assms(1-3)] assms(4,5) by simp

lemma unconnected_node_cuts_broadcast_witness:
  "\<exists>b2. broadcast_cmd ([] @ sample_node ''x'' 9 0 # [sample_node ''b'' 2 6]) (sample_net [])
      [73, 72, 5, 0, 1, 188, 2, 0, 2, 9, 0, 0, 65] = Inr (-9, sample_net [], b2)"
proof -
  let ?buf = "[73, 72, 5, 0, 1, 188, 2, 0, 2, 9, 0, 0, 65] :: bytes"
  have "un16 5 0 = 5" by (simp add: un16_def)
  then have "well_sized ?buf" "ids_of ?buf = [2, 9]"
    by (simp_all add: well_sized_def ids_of_def head_of_def broadcast_len_def)
  then show ?thesis
    using unconnected_node_cuts_broadcast[of ?buf "[]" "sample_node ''x'' 9 0" "sample_net []" "[sample_node ''b'' 2 6]"]
    by (simp add: id_count_def sample_net_def)
qed

text \<open>
  C34: a subscriber that is gone takes the broker with it.  When the peer of the first node a broadcast
  addresses is gone (the next answer of its socket is EPIPE), \<open>broadcast_cmd\<close> does not return: the
  broker sends without MSG\_NOSIGNAL and does not handle SIGPIPE, so the process ends, and the nodes
  behind get nothing.
\<close>

theorem gone_subscriber_kills_broker:
  assumes "well_sized buf" and "\<forall>k \<in> set ns1. id_count k (ids_of buf) = 0"
    and "addressed n (ids_of buf)" and "w (nd_connfd n) = Some s" and "sched s = Gone # r"
  shows "broadcast_cmd (ns1 @ n # ns2) w buf = Inl Killed"
  by (rule broadcast_cmd_gone[where w = w and s = s, OF assms])

lemma gone_subscriber_kills_broker_witness:
  "broadcast_cmd ([sample_node ''a'' 1 5] @ sample_node ''b'' 2 6 # [])
    ((sample_net [])(6 := Some \<lparr>sched = [Gone], outgoing = [], incoming = [], peer_closed = True\<rparr>))
    [73, 72, 5, 0, 1, 188, 1, 0, 2, 0, 0, 0, 65] = Inl Killed"
proof -
  let ?buf = "[73, 72, 5, 0, 1, 188, 1, 0, 2, 0, 0, 0, 65] :: bytes"
  have "un16 5 0 = 5" by (simp add: un16_def)
  then have "well_sized ?buf" "ids_of ?buf = [2]"
    by (simp_all add: well_sized_def ids_of_def head_of_def broadcast_len_def)
  then show ?thesis
    by (intro gone_subscriber_kills_broker[where r = "[]" and
        s = "\<lparr>sched = [Gone], outgoing = [], incoming = [], peer_closed = True\<rparr>"]) (simp_all add: id_count_def addressed_def)
qed

text \<open>
  C23: accepting a client connects the node the client's socket is named after.  When accept gives
  a descriptor and reports, as unix(7) says, the path \<open>/run/shm/\<close> name \<open>-sock\<close> with its NUL, and the path
  is a socket, exactly the nodes with that name get the descriptor and the link count grows by their
  number; every other node keeps its own.
\<close>

theorem accept_connects_named_node:
  assumes "0 \<le> acc_fd env" and "reports_path env (NAME_PREFIX @ nm @ SOCK_NAME_SUFFIX)"
    and "acc_is_sock env = Some True" and "length nm < 94"
    and "\<forall>n \<in> set (br_nodes b). 0 \<notin> set (nd_name n) \<and> length (nd_name n) < MAX_FILE_NAME"
  shows "accept_client env sk b = Inr (b\<lparr>br_net := (br_net b)(acc_fd env := Some sk),
      br_nodes := map (\<lambda>n. if nd_name n = nm then n\<lparr>nd_connfd := acc_fd env\<rparr> else n) (br_nodes b),
      br_link_count := br_link_count b + int (length (filter (\<lambda>n. nd_name n = nm) (br_nodes b)))\<rparr>)"
proof -
  let ?un = "NAME_PREFIX @ nm @ SOCK_NAME_SUFFIX"
  have nm: "0 \<notin> set nm" using assms(2) by (simp add: reports_path_def)
  have "length ?un < SUN_PATH_SIZE"
    using assms(4) by (simp add: NAME_PREFIX_def SOCK_NAME_SUFFIX_def SUN_PATH_SIZE_def)
  note acc = accept_unix_tcp_path[OF assms(1,2) this]
  have match: "sock_name_matches (nd_name n) ?un \<longleftrightarrow> nd_name n = nm" if "n \<in> set (br_nodes b)" for n
  proof
    assume "sock_name_matches (nd_name n) ?un"
    moreover have "sock_name_matches nm ?un" using sock_name_matches_own[of nm] nm assms(4) by simp
    ultimately show "nd_name n = nm" using sock_name_matches_unique nm assms(5) that by metis
  next
    assume "nd_name n = nm"
    then show "sock_name_matches (nd_name n) ?un" using sock_name_matches_own[of nm] nm assms(4) by simp
  qed
  show ?thesis
    using accept_client_registers[of env "acc_fd env" ?un] acc assms(1,3) match
    by (simp add: opened_def cong: map_cong filter_cong)
qed

lemma accept_connects_named_node_witness:
  "\<exists>b'. accept_client (sample_accept (lit ''/run/shm/b-sock'')) (sample_socket []) (sample_broker []) = Inr b' \<and>
    map nd_connfd (br_nodes b') = [5, 7]"
proof -
  have "NAME_PREFIX @ lit ''b'' @ SOCK_NAME_SUFFIX = lit ''/run/shm/b-sock''"
    by (simp add: NAME_PREFIX_def SOCK_NAME_SUFFIX_def)
  then have "reports_path (sample_accept (lit ''/run/shm/b-sock'')) (NAME_PREFIX @ lit ''b'' @ SOCK_NAME_SUFFIX)"
    using sample_accept_path[of "lit ''/run/shm/b-sock''"] by simp
  from accept_connects_named_node[OF _ this, of "sample_broker []" "sample_socket []"] show ?thesis
    by (simp add: MAX_FILE_NAME_def sample_accept_def)
qed

text \<open>
  C33: a turn serves exactly the ready clients, and needs every descriptor to fit.  In a state of the
  invariant the descriptor sets and the bound given to select lose nothing: the turn is the one
  that, without any set, accepts a client when the listening socket is ready and otherwise serves, in
  the order of the list, each connected node whose descriptor is ready (\<open>serve_ready\<close>).  As soon as
  one node holds a descriptor of FD\_SETSIZE or more, every turn writes past the set.
\<close>

theorem turn_serves_ready_clients:
  assumes "broker_inv b"
  shows "main_step (SelReady ready env sk) b =
      cbind (if br_sockfd b \<in> set ready then accept_client env sk (seen b)
             else serve_ready [0..<length (br_nodes b)] ready (seen b)) (\<lambda>b1. Inr (True, b1)) \<and>
    (i < length (br_nodes b) \<and> FD_SETSIZE \<le> fd \<longrightarrow>
      main_step ev (b\<lparr>br_nodes := (br_nodes b)[i := (br_nodes b ! i)\<lparr>nd_connfd := fd\<rparr>]\<rparr>) = Inl OOB)"
proof
  show "i < length (br_nodes b) \<and> FD_SETSIZE \<le> fd \<longrightarrow>
      main_step ev (b\<lparr>br_nodes := (br_nodes b)[i := (br_nodes b ! i)\<lparr>nd_connfd := fd\<rparr>]\<rparr>) = Inl OOB"
    using main_step_overruns[of "(br_nodes b ! i)\<lparr>nd_connfd := fd\<rparr>"] by (simp add: set_update_memI)
qed (rule main_step_serves_ready[OF assms])

lemma turn_serves_ready_clients_witness:
  "main_step (SelReady [3, 5] (sample_accept []) (sample_socket [])) (sample_broker []) =
      cbind (accept_client (sample_accept []) (sample_socket []) (seen (sample_broker []))) (\<lambda>b1. Inr (True, b1)) \<and>
    main_step SelTimeout ((sample_broker [])\<lparr>br_nodes := [sample_node ''a'' 1 1024, sample_node ''b'' 2 6]\<rparr>) = Inl OOB"
  using turn_serves_ready_clients[OF sample_inv[OF framed_Nil], of "[3, 5]" "sample_accept []" "sample_socket []" 0 1024 SelTimeout]
  by (simp add: FD_SETSIZE_def sample_node_def)

text \<open>
  Descriptors are lost.  When the node of an accepted connection was connected already, its old
  descriptor stays open with no node to read or close it, for the rest of the run; a client that
  connects again and again brings the broker to the limit of C33.
\<close>

theorem replaced_descriptor_is_lost:
  assumes "broker_inv b" and "accept_ok b (SelReady ready env sk)" and "below_fd_setsize (SelReady ready env sk)"
    and "client_behaves (SelReady ready env sk)" and "br_sockfd b \<in> set ready" and "0 < acc_fd env"
    and "accept_unix_tcp env = Inr (c, Some un)" and "0 \<le> c"
    and "n \<in> set (br_nodes b)" and "sock_name_matches (nd_name n) un" and "0 < nd_connfd n"
  shows "\<exists>go b1. main_step (SelReady ready env sk) b = Inr (go, b1) \<and>
    (\<forall>b2. broker_run b1 b2 \<longrightarrow> leaked (nd_connfd n) b2)"
proof -
  obtain go b1 where step: "main_step (SelReady ready env sk) b = Inr (go, b1)" "kept b b1"
    using main_step_kept[OF assms(1-4)] by blast
  have "leaked (nd_connfd n) b1"
    using main_step_leaks(2)[OF assms(1,2,5,6,7) step(1) assms(8,9)] assms(10,11) by simp
  then show ?thesis using step broker_run_kept[of b1] by (auto simp: kept_def)
qed

lemma replaced_descriptor_is_lost_witness:
  "\<exists>go b1. main_step (SelReady [3] (sample_accept (lit ''/run/shm/a-sock'')) (sample_socket [])) (sample_broker []) =
      Inr (go, b1) \<and> (\<forall>b2. broker_run b1 b2 \<longrightarrow> leaked 5 b2)"
proof -
  let ?path = "lit ''/run/shm/a-sock''"
  have "accept_unix_tcp (sample_accept ?path) = Inr (7, Some ?path)"
    using accept_unix_tcp_path[OF _ sample_accept_path[of ?path]] by (simp add: sample_accept_def SUN_PATH_SIZE_def)
  moreover have "sock_name_matches (lit ''a'') ?path"
    using sock_name_matches_own[of "lit ''a''"] by (simp add: NAME_PREFIX_def SOCK_NAME_SUFFIX_def)
  ultimately show ?thesis
    using replaced_descriptor_is_lost[OF sample_inv[OF framed_Nil] sample_accept_turn, of 7 ?path "sample_node ''a'' 1 5"]
    by (simp add: sample_accept_def)
qed

text \<open>
  C38: more than 56 ids overrun the publisher's buffer.  \<open>ih_send_broadcast_data\<close> builds header and
  ids in 64 bytes and checks nothing.
\<close>

theorem too_many_ids_overrun:
  assumes "0 \<le> client_connfd c" and "56 < length ids"
  shows "ih_send_broadcast_data \<lparr>bc_data = d, bc_ids = Some ids,
      bc_br_num = int (length ids), bc_datalen = int len\<rparr> c = Inl OOB"
  by (rule ih_send_broadcast_data_overflow[OF assms])

lemma too_many_ids_overrun_witness:
  "ih_send_broadcast_data \<lparr>bc_data = Some [1], bc_ids = Some (replicate 57 1),
      bc_br_num = int (length (replicate 57 (1 :: u8))), bc_datalen = int 1\<rparr>
    \<lparr>client_connfd = 5, cl_net = sample_net []\<rparr> = Inl OOB"
  by (rule too_many_ids_overrun) simp_all

text \<open>
  Looking up a name that is not in the table.  \<open>ih_get_shm_by_name\<close> returns -1 when the table
  is followed by an entry without a name; when the table fills its buffer the search runs past the
  end.
\<close>

theorem shm_lookup_of_absent_name:
  assumes "list_all shm_node_ok ss" and "\<forall>s \<in> set ss. shm_name s \<noteq> []" and "0 \<notin> set name"
    and "name \<notin> shm_name ` set ss" and "name \<noteq> []"
  shows "ih_get_shm_by_name k (shm_table_bytes ss @ 0 # r) name = Inr (-1, None) \<and>
    ih_get_shm_by_name k (shm_table_bytes ss) name = Inl OOB"
  using ih_get_shm_by_name_absent[OF assms] by simp

lemma shm_lookup_of_absent_name_witness:
  "ih_get_shm_by_name sample_kernel (shm_table_bytes [sample_shm] @ 0 # []) (lit ''x'') = Inr (-1, None) \<and>
   ih_get_shm_by_name sample_kernel (shm_table_bytes [sample_shm]) (lit ''x'') = Inl OOB"
  by (rule shm_lookup_of_absent_name) (simp_all add: sample_shm_def shm_node_ok_def MAX_FILE_NAME_def)

text \<open>
  C27: the first wait of \<open>ih_get_shm_infos\<close> ends.  Each turn of its loop takes at least a header off
  the stream, so the number of pending bytes bounds the turns: the fuel of the model is enough, on
  any kernel.
\<close>

theorem waiting_for_the_number_ends:
  assumes "0 \<le> client_connfd c" and "pending c < fuel"
  shows "wait_num fuel c \<noteq> Inl OutOfFuel"
  by (rule wait_num_fuel[OF assms])

lemma waiting_for_the_number_ends_witness:
  "wait_num 3 \<lparr>client_connfd = 5, cl_net = sample_net [1, 2]\<rparr> \<noteq> Inl OutOfFuel"
  by (rule waiting_for_the_number_ends) (simp_all add: pending_def)

text \<open>
  C39: the second wait need not.  Once the broker has closed the connection, \<open>ih_get_shm_infos\<close>'s
  second loop has no way out: however often select is asked, it does not return.
\<close>

theorem waiting_for_the_table_hangs:
  assumes "0 \<le> client_connfd c" and "cl_net c (client_connfd c) = Some s"
    and "sched s = []" and "incoming s = []" and "peer_closed s" and "\<not> ih_recvIsShmIDs ret"
  shows "wait_infos sls ret buf dl c = Inl OutOfFuel"
  by (rule wait_infos_disconnect[OF assms])

lemma waiting_for_the_table_hangs_witness:
  "wait_infos [True, True, False, True] 0 [] 0 \<lparr>client_connfd = 5, cl_net = (\<lambda>_. None)(5 :=
     Some \<lparr>sched = [], outgoing = [], incoming = [], peer_closed = True\<rparr>)\<rparr> = Inl OutOfFuel"
  by (rule waiting_for_the_table_hangs[where s = "\<lparr>sched = [], outgoing = [], incoming = [], peer_closed = True\<rparr>"])
    (simp_all add: ih_recvIsShmIDs_def cmd_consts)

section \<open>Lists\<close>

text \<open>
  C24: the doubly-linked list is a queue.  Starting from any memory, initialising a head and
  appending distinct nodes with list\_add\_tail builds a ring that list\_for\_each walks in the
  order of insertion, and that holds exactly these nodes.
\<close>

theorem list_add_tail_builds_queue:
  assumes "distinct (h # ns)" and "length ns < fuel"
  shows "list_for_each fuel h (fold (\<lambda>n. list_add_tail n h) ns (INIT_LIST_HEAD h s)) = Some ns \<and>
    dlist (fold (\<lambda>n. list_add_tail n h) ns (INIT_LIST_HEAD h s)) h ns"
proof -
  have "dlist (fold (\<lambda>n. list_add_tail n h) ns (INIT_LIST_HEAD h s)) h ([] @ ns)"
    using dl.rep_append_all[OF dl.rep_init, of ns h] assms(1) by simp
  then show ?thesis using dl.walk_built[OF assms] by simp
qed

lemma list_add_tail_builds_queue_witness:
  "list_for_each 3 9 (fold (\<lambda>n. list_add_tail n 9) [4, 7] (INIT_LIST_HEAD 9 \<lparr>nxt = (\<lambda>_. 0), prv = (\<lambda>_. 0)\<rparr>)) =
    Some [4, 7]"
  using list_add_tail_builds_queue[of 9 "[4, 7]" 3] by simp

text \<open>
  List\_splice\_init moves a whole list.  The nodes of the second list come to the front of the
  first, in order, and the second head is left an empty ring.
\<close>

theorem list_splice_init_moves_all:
  assumes "dlist s l xs" and "dlist s h ys" and "set (l # xs) \<inter> set (h # ys) = {}"
  shows "dlist (list_splice_init l h s) h (xs @ ys) \<and> dlist (list_splice_init l h s) l []"
  using list_splice_init_dlist[OF assms] by simp

lemma list_splice_init_moves_all_witness:
  "dlist (list_splice_init 1 5 \<lparr>nxt = id(1 := 2, 2 := 1, 5 := 6, 6 := 5), prv = id(1 := 2, 2 := 1, 5 := 6, 6 := 5)\<rparr>) 5
    ([2] @ [6])"
  using list_splice_init_moves_all[of "\<lparr>nxt = id(1 := 2, 2 := 1, 5 := 6, 6 := 5), prv = id(1 := 2, 2 := 1, 5 := 6, 6 := 5)\<rparr>"
      1 "[2]" 5 "[6]"]
  by (simp add: dlist_def)

text \<open>
  C25: list\_for\_each\_safe may delete.  A loop body that unlinks the current node when it satisfies
  \<open>P\<close> visits every node, ends, and leaves the list of the nodes that do not satisfy \<open>P\<close>.
\<close>

theorem for_each_safe_may_delete:
  assumes "dlist s h xs" and "length xs < fuel"
  shows "\<exists>s'. list_for_each_safe fuel (\<lambda>pos s. if P pos then list_del pos s else s) h s = Some s' \<and>
    dlist s' h (filter (\<lambda>x. \<not> P x) xs)"
proof -
  have "(\<lambda>pos s. if P pos then list_del pos s else s) = del_if P" by (simp add: del_if_def fun_eq_iff)
  then show ?thesis using for_each_safe_deletes[OF assms, of P] by simp
qed

lemma for_each_safe_may_delete_witness:
  "\<exists>s'. list_for_each_safe 3 (\<lambda>pos s. if pos = 2 then list_del pos s else s) 1
      \<lparr>nxt = id(1 := 2, 2 := 3, 3 := 1), prv = id(1 := 3, 2 := 1, 3 := 2)\<rparr> = Some s' \<and> dlist s' 1 [3]"
  using for_each_safe_may_delete[of "\<lparr>nxt = id(1 := 2, 2 := 3, 3 := 1), prv = id(1 := 3, 2 := 1, 3 := 2)\<rparr>"
      1 "[2, 3]" 3 "\<lambda>x. x = 2"]
  by (simp add: dlist_def)

text \<open>
  Slist\_splice inserts a whole singly-linked list behind any node of another, keeping both
  orders and the target's last pointer.
\<close>

theorem slist_splice_inserts_all:
  assumes "slist s l xs" and "slist s h (ys @ zs)" and "set (l # xs) \<inter> set (h # ys @ zs) = {}"
  shows "slist (slist_splice l (last (h # ys)) h s) h (ys @ xs @ zs)"
  by (rule slist_splice_slist[OF assms])

lemma slist_splice_inserts_all_witness:
  "slist (slist_splice 1 5 5 \<lparr>snext = (\<lambda>_. None)(1 := Some 2, 5 := Some 6), slast = id(1 := 2, 5 := 6)\<rparr>) 5 [2, 6]"
  using slist_splice_inserts_all[of "\<lparr>snext = (\<lambda>_. None)(1 := Some 2, 5 := Some 6), slast = id(1 := 2, 5 := 6)\<rparr>"
      1 "[2]" 5 "[]" "[6]"]
  by (simp add: slist_def)

section \<open>Headers and tables\<close>

text \<open>
  C29: the header macros read what \<open>set_pure_protocol_head\<close> writes.  With three given fields the
  result is a cleared header with the magic, from which GET\_PROTOCOL\_BODY\_LEN, GET\_PROTOCOL\_CMD\_TYPE
  and GET\_PROTOCOL\_CMD\_ID read these fields, truncated to their widths, and the broadcast macros
  read 0; a negative argument keeps the field, as the macros read it before; nothing behind the header
  changes.
\<close>

theorem protocol_head_reads_back:
  assumes "8 \<le> length m"
  shows "\<exists>m'. set_pure_protocol_head m bl ty cid = Inr m' \<and> length m' = length m \<and> drop 8 m' = drop 8 m \<and>
    szMagic (head_of m') = PROTOCOL_MAGIC \<and>
    GET_PROTOCOL_BODY_LEN m' = (if 0 \<le> bl then Inr (word_of_int bl) else GET_PROTOCOL_BODY_LEN m) \<and>
    GET_PROTOCOL_CMD_TYPE m' = (if 0 \<le> ty then Inr (word_of_int ty) else GET_PROTOCOL_CMD_TYPE m) \<and>
    GET_PROTOCOL_CMD_ID m' = (if 0 \<le> cid then Inr (word_of_int cid) else GET_PROTOCOL_CMD_ID m) \<and>
    GET_PROTOCOL_CMD_BROADCAST_NUM m' =
      (if 0 \<le> bl \<and> 0 \<le> ty \<and> 0 \<le> cid then Inr 0 else GET_PROTOCOL_CMD_BROADCAST_NUM m) \<and>
    GET_PROTOCOL_BROADCAST_LEN m' =
      (if 0 \<le> bl \<and> 0 \<le> ty \<and> 0 \<le> cid then Inr 0 else GET_PROTOCOL_BROADCAST_LEN m)"
proof -
  obtain m' where m': "set_pure_protocol_head m bl ty cid = Inr m'" "length m' = length m" "drop 8 m' = drop 8 m"
    "head_of m' = pure_head_upd bl ty cid (head_of m)"
    using set_pure_protocol_head_upd[OF assms, of bl ty cid] by blast
  then show ?thesis using assms
    by (intro exI[of _ m']) (auto simp: GET_head pure_head_upd_def blank_head_def broadcast_len_def)
qed

lemma protocol_head_reads_back_witness:
  "\<exists>m'. set_pure_protocol_head (replicate 9 255) 258 (-1) 3 = Inr m' \<and> GET_PROTOCOL_BODY_LEN m' = Inr 258 \<and>
    GET_PROTOCOL_CMD_TYPE m' = Inr 255"
  using protocol_head_reads_back[of "replicate 9 255" 258 "-1" 3]
  by (auto simp: GET_PROTOCOL_CMD_TYPE_def peek_def)

text \<open>
  An entry of the shared-memory table, laid out in its 40 bytes and followed by anything, is
  read back as it was.
\<close>

theorem shm_entry_roundtrip:
  assumes "shm_node_ok s"
  shows "length (shm_node_bytes s) = SHM_NODE_SIZE \<and> shm_node_at (shm_node_bytes s @ r) = s"
  using shm_node_roundtrip[OF assms] length_shm_node_bytes[OF assms] by (simp add: SHM_NODE_SIZE_def)

lemma shm_entry_roundtrip_witness: "shm_node_at (shm_node_bytes sample_shm @ [1]) = sample_shm"
  using shm_entry_roundtrip[of sample_shm] by (simp add: sample_shm_def shm_node_ok_def MAX_FILE_NAME_def)

text \<open>
  C30: a segment that was created is found again.  The creator clears it, as many bytes as it asked for.
  Whoever attaches it later, on kernel answers \<open>k'\<close> of its own (the creator again or a client), by the
  id the table carries or by the name, gets that segment, at the address its own shmat gives it and
  at least as large as was asked for; when its shmat fails, it gets no address.
\<close>

theorem shm_created_is_found:
  assumes "shm_create k shm = Inr (Some p, shm', acts)" and "sysv_laws k k'"
  shows "last acts = Memset p (sh_size shm) \<and>
    (case k_shmat k' (sh_id shm') of
       None \<Rightarrow> ih_get_shm_by_id k' (sh_id shm') = Inr (0, None)
     | Some q \<Rightarrow>
         (\<exists>n. ih_get_shm_by_id k' (sh_id shm') = Inr (n, Some q) \<and> sh_size shm \<le> n) \<and>
         (\<exists>n. shm_mmap k' (shm\<lparr>sh_id := -1\<rparr>) =
            Inr (Some q, shm\<lparr>sh_id := sh_id shm', sh_mem_ptr := Some q, sh_size := n\<rparr>) \<and> sh_size shm \<le> n))"
  using shm_create_clears[OF assms(1)] shm_created_by_id[OF assms] shm_created_by_name[OF assms]
  by (auto simp: ih_get_shm_by_id_def split: option.splits)

lemma shm_created_is_found_witness:
  "\<exists>n. ih_get_shm_by_id (sample_kernel\<lparr>k_shmat := (\<lambda>_. Some 300)\<rparr>) 3 = Inr (n, Some 300) \<and> 64 \<le> n"
proof -
  let ?shm = "\<lparr>sh_size = 64, sh_proj_id = 3, sh_id = 0, sh_filename = Some [], sh_mem_ptr = None\<rparr>"
  have "shm_create sample_kernel ?shm = Inr (Some 200, ?shm\<lparr>sh_mem_ptr := Some 200, sh_id := 3\<rparr>, [Memset 200 64])"
    "sysv_laws sample_kernel (sample_kernel\<lparr>k_shmat := (\<lambda>_. Some 300)\<rparr>)"
    by (auto simp: shm_create_def make_dir_def isDirExists_def sample_kernel_def shm_key_def sysv_laws_def split: if_splits)
  from shm_created_is_found[OF this] show ?thesis by simp
qed

section \<open>Numbers, names and look-ups of the configuration\<close>

text \<open>
  A decimal integer in the configuration is read exactly.  For digits that denote a number an
  int can hold, strtod uses all of them and the conversion of \<open>parse_number\<close> to \<open>valueint\<close> gives
  that number, and its negative behind a minus sign.
\<close>

theorem decimal_integers_are_exact:
  assumes "ds \<noteq> []" and "\<forall>d \<in> set ds. is_digit d" and "int (digits_val ds) \<le> INT_MAX"
  shows "snd (strtod ds) = length ds \<and> number_to_int (fst (strtod ds)) = Inr (int (digits_val ds)) \<and>
    snd (strtod (45 # ds)) = Suc (length ds) \<and>
    number_to_int (fst (strtod (45 # ds))) = Inr (- int (digits_val ds))"
proof -
  have "digits_val ds < 2 ^ 53" using assms(3) by (simp add: INT_MAX_def)
  from strtod_digits[OF assms(1,2) this] show ?thesis
    using assms(3) number_to_int_exact[of "int (digits_val ds)"] number_to_int_exact[of "- int (digits_val ds)"]
    by (simp add: INT_MAX_def INT_MIN_def)
qed

lemma decimal_integers_are_exact_witness:
  "number_to_int (fst (strtod (45 # lit ''4096''))) = Inr (-4096)"
  using decimal_integers_are_exact[of "lit ''4096''"]
  by (simp add: is_digit_def digits_val_def digit_val_def INT_MAX_def)

text \<open>
  \<open>cJSON_GetObjectItem\<close> finds the first member whose name agrees up to the case of ASCII
  letters, and nothing when there is none.
\<close>

theorem object_lookup_ignores_case:
  assumes "\<forall>x \<in> set (children ob). c_string x \<noteq> None"
  shows "cJSON_GetObjectItem (Some ob) (Some nm) =
    find (\<lambda>x. map tolower (cstr nm) = map tolower (cstr (the (c_string x)))) (children ob)"
proof (cases "find_ci nm (children ob)")
  case None
  then show ?thesis
    using find_ci_first[OF assms, of nm] by (simp add: cJSON_GetObjectItem_def get_object_item_def)
next
  case (Some x)
  then have "x \<in> set (children ob)" using find_ci_first[OF assms, of nm] by (metis find_Some_iff nth_mem)
  then show ?thesis
    using Some find_ci_first[OF assms, of nm] assms by (simp add: cJSON_GetObjectItem_def get_object_item_def)
qed

lemma object_lookup_ignores_case_witness:
  "cJSON_GetObjectItem (Some (Item 64 None 0 (Fin 0) None [Item 8 None 5 (Fin 5) (Some (lit ''IH-Pid'')) []]))
     (Some (lit ''ih-pid'')) = Some (Item 8 None 5 (Fin 5) (Some (lit ''IH-Pid'')) [])"
  using object_lookup_ignores_case[of "Item 64 None 0 (Fin 0) None [Item 8 None 5 (Fin 5) (Some (lit ''IH-Pid'')) []]" "lit ''ih-pid''"]
  by (simp add: cstr_def tolower_def)

text \<open>
  C26: reading the configuration ends.  With as much fuel as the text is long the loop over its
  objects ends in a well-formed registry without leaking a tree, or in a fault of one node, or in
  the exit for a first node whose id is not 0; it never runs out of fuel.
\<close>

theorem configuration_reading_ends:
  assumes "0 \<in> set tx" and "length (cstr tx) < fuel" and "registry_ok g"
  shows "(\<exists>g' acts h'. node_loop fuel e tx h g = Inr (g', acts, h') \<and> registry_ok g' \<and>
      rg_count g \<le> rg_count g' \<and> h_live h' = h_live h) \<or>
    (\<exists>n i k1 k2 j. get_icehydra_json_node (cf_shm e i) k1 k2 j = Inl n \<and> node_loop fuel e tx h g = Inl n) \<or>
    (rg_count g = 0 \<and> node_loop fuel e tx h g = Inl (Exited (-1)))"
  by (rule node_loop_total[OF assms])

lemma configuration_reading_ends_witness:
  "(\<exists>g' acts h'. node_loop 9 sample_conf (lit ''{} []'' @ [0]) sample_heap empty_registry = Inr (g', acts, h') \<and>
      registry_ok g' \<and> rg_count empty_registry \<le> rg_count g' \<and> h_live h' = h_live sample_heap) \<or>
    (\<exists>n i k1 k2 j. get_icehydra_json_node (cf_shm sample_conf i) k1 k2 j = Inl n \<and>
      node_loop 9 sample_conf (lit ''{} []'' @ [0]) sample_heap empty_registry = Inl n) \<or>
    (rg_count empty_registry = 0 \<and>
      node_loop 9 sample_conf (lit ''{} []'' @ [0]) sample_heap empty_registry = Inl (Exited (-1)))"
  by (rule configuration_reading_ends) (simp_all add: cstr_def registry_ok_empty)

text \<open>
  C40: \<open>name_fix\<close> always writes one byte more than it asks for.  It asks calloc for the characters of the
  name, and sprintf adds the terminator behind them: a block of just the size asked for is overrun,
  whatever the name, and the call succeeds only on a block that is larger.
\<close>

theorem name_fix_overruns:
  assumes "pre \<noteq> None \<or> suf \<noteq> None"
  shows "name_fix calloc pre (Some n) suf =
    (let name = the_bytes pre @ n @ the_bytes suf in
     case calloc (length name) of
       None \<Rightarrow> Inr None
     | Some room \<Rightarrow> if room \<le> length name then Inl OOB else Inr (Some (name @ [0])))"
  unfolding Let_def by (rule name_fix_room[OF assms])

lemma name_fix_overruns_witness:
  "name_fix Some (Some NAME_PREFIX) (Some (lit ''pub'')) (Some SOCK_NAME_SUFFIX) = Inl OOB"
  using name_fix_overruns[of "Some NAME_PREFIX" "Some SOCK_NAME_SUFFIX" Some "lit ''pub''"] by (simp add: Let_def)

section \<open>Descriptors and error codes\<close>

text \<open>
  Sending an error code with a message always reports failure: the result of
  \<open>tcp_send_noblock\<close>, 0 or -1, is compared with the length of the message.
\<close>

theorem send_errno_with_message_fails:
  assumes "msg \<noteq> []" and "send_errno_unix_domain w fd errcode msg ret = Inr (r, w')"
  shows "r = -1"
  by (rule send_errno_nonempty_fails[OF assms])

lemma send_errno_with_message_fails_witness:
  "\<exists>w'. send_errno_unix_domain (sample_net []) 6 (-2) [65] 2 = Inr (-1, w')"
proof -
  obtain q w1 where "tcp_send_noblock (sample_net []) 6 (Some [65]) 1 = Inr (q, w1)"
    using tcp_send_noblock_obliging[of "sample_net []" 6 "sample_socket []" "[65]" 1] by auto
  then have "\<exists>r w'. send_errno_unix_domain (sample_net []) 6 (-2) [65] 2 = Inr (r, w')"
    by (simp add: send_errno_unix_domain_def Let_def)
  then obtain r w' where "send_errno_unix_domain (sample_net []) 6 (-2) [65] 2 = Inr (r, w')" by blast
  with send_errno_with_message_fails[OF _ this] show ?thesis by auto
qed

text \<open>
  C28: \<open>recv_fd_unix_domain\<close> undoes \<open>send_fd_unix_domain\<close>.  What is sent with a descriptor is delivered as
  unix(7) documents (\<open>scm_delivers\<close>): the receiver, whose open descriptors are \<open>R\<close>, gets a fresh
  descriptor for the file the sender's denotes.  \<open>recv_fd_unix_domain\<close> returns exactly this
  descriptor; an error code between -255 and -1 arrives as that code, and no descriptor with it.
\<close>

theorem send_fd_recv_fd:
  assumes "0 \<le> sockfd" and "send_fd_unix_domain sockfd v 2 = (r, Some m)" and "-256 < v"
    and "scm_delivers S R m m' R'"
  shows "r = 0 \<and> (\<exists>q. recv_fd_unix_domain [m'] = Inr q \<and>
    (if 0 \<le> v then 0 \<le> q \<and> R q = None \<and> S v \<noteq> None \<and> R' = R(q := S v) else q = v \<and> R' = R))"
proof (cases "0 \<le> v")
  case True
  then have m: "m = \<lparr>fm_bytes = [0, 0], fm_fd = Some v\<rparr>" "r = 0"
    using assms(1,2) by (auto simp: send_fd_unix_domain_def)
  then obtain g where "m' = \<lparr>fm_bytes = [0, 0], fm_fd = Some g\<rparr>" "0 \<le> g" "R g = None" "S v \<noteq> None" "R' = R(g := S v)"
    using assms(4) by (cases m') (auto simp: scm_delivers_def)
  then show ?thesis using m(2) True recv_fd_one[of "[0, 0]" "Some g"] by auto
next
  case False
  let ?b = "word_of_int (- v) :: u8"
  have "uint (word_of_int k :: u8) = k" if "0 \<le> k" "k < 256" for k
    using that by (simp add: uint_word_of_int take_bit_eq_mod)
  then have u: "uint ?b = - v" using False assms(3) by (simp del: of_int_minus)
  then have nz: "?b \<noteq> 0" using False by auto
  have m: "m = \<lparr>fm_bytes = [0, ?b], fm_fd = None\<rparr>" "r = 0"
    using assms(1,2) False nz by (auto simp: send_fd_unix_domain_def)
  then have "m' = \<lparr>fm_bytes = [0, ?b], fm_fd = None\<rparr>" "R' = R"
    using assms(4) by (cases m'; simp add: scm_delivers_def)+
  then show ?thesis using recv_fd_one[of "[0, ?b]" None] m(2) nz u False by simp
qed

lemma send_fd_recv_fd_witness:
  "recv_fd_unix_domain [\<lparr>fm_bytes = [0, 0], fm_fd = Some 4\<rparr>] = Inr 4 \<and>
   recv_fd_unix_domain [\<lparr>fm_bytes = [0, 13], fm_fd = None\<rparr>] = Inr (-13)"
proof
  let ?S = "(\<lambda>_. None)(11 := Some (7 :: nat))" and ?R = "\<lambda>_ :: int. None :: nat option"
  let ?m = "\<lparr>fm_bytes = [0, 0], fm_fd = Some 11\<rparr>" and ?m' = "\<lparr>fm_bytes = [0, 0], fm_fd = Some 4\<rparr>"
  have "scm_delivers ?S ?R ?m ?m' (?R(4 := Some 7))" by (simp add: scm_delivers_def)
  from send_fd_recv_fd[OF _ _ _ this, of 3 11 0]
  obtain q where "recv_fd_unix_domain [?m'] = Inr q" "?R(4 := Some 7) = ?R(q := Some 7)"
    by (auto simp: send_fd_unix_domain_def)
  moreover from this(2) have "q = 4" by (metis fun_upd_same fun_upd_other option.distinct(1))
  ultimately show "recv_fd_unix_domain [?m'] = Inr 4" by simp
  let ?e = "\<lparr>fm_bytes = [0, 13], fm_fd = None\<rparr>"
  have "scm_delivers ?S ?R ?e ?e ?R" by (simp add: scm_delivers_def)
  from send_fd_recv_fd[OF _ _ _ this, of 3 "-13" 0]
  show "recv_fd_unix_domain [?e] = Inr (-13)" by (simp add: send_fd_unix_domain_def)
qed

section \<open>JSON text\<close>

definition sample_item :: cJSON where
  "sample_item = Item cJSON_Object None 0 (Fin 0) None
     [Item cJSON_Array None 0 (Fin 0) (Some (lit ''a''))
        [Item cJSON_Number None (-7) (Fin (-7)) None [], Item cJSON_String (Some [104, 10, 1]) 0 (Fin 0) None []]]"

definition sample_item_text :: bytes where
  "sample_item_text = lit ''{\"a\":[-7,\"h'' @ [92, 110, 92, 117, 48, 48, 48, 49] @ lit ''\"]}''"

lemma sample_item_parsed: "parsed sample_item" "c_string sample_item = None" "nesting sample_item = 2"
  using number_exact_int[of "-7"] by (simp_all add: sample_item_def json_types plain_string_def INT_MIN_def INT_MAX_def)

lemma sample_item_length: "length sample_item_text = 22"
  by (simp add: sample_item_text_def)

lemma sample_item_text: "text_of False 0 sample_item = Some sample_item_text"
proof -
  have n: "number_text (Item 8 None (-7) (Fin (-7)) None []) = Some [45, 55]"
    using number_text_parsed[of "Item 8 None (-7) (Fin (-7)) None []"]
    by (simp add: INT_MIN_def INT_MAX_def fmt_d_def nat_digits.simps)
  show ?thesis
    by (simp add: sample_item_def sample_item_text_def json_types n sep_def tabs_def after_member_def quoted_def
        escaped_def short_escape_def fmt_u04x_def hex_char_def cstr_def)
qed

text \<open>
  C31: printing into a block of the caller is exact about room.  Nothing outside the block is
  touched, and the call succeeds exactly when the block has room for the text and two more bytes;
  the block then starts with the text and its terminator.
\<close>

theorem print_preallocated_room:
  assumes "item_ok v" and "length m = nat len" and "0 \<le> len" and "len \<le> INT_MAX"
  shows "\<exists>ok m'. cJSON_PrintPreallocated (Some v) (Some m) len fmt rea fill h = Inr (ok, Some m') \<and>
     length m' = length m \<and>
     (ok \<longleftrightarrow> (\<exists>s. text_of fmt 0 v = Some s \<and> int (length s) + 2 \<le> len)) \<and>
     (\<forall>s. ok \<and> text_of fmt 0 v = Some s \<longrightarrow> take (length s + 1) m' = s @ [0])"
  by (rule print_preallocated_spec[OF assms])

lemma print_preallocated_room_witness:
  "\<exists>m'. cJSON_PrintPreallocated (Some sample_item) (Some (replicate 24 0)) 24 False True (\<lambda>_. 0) sample_heap =
     Inr (True, Some m') \<and> take 23 m' = sample_item_text @ [0]"
  using print_preallocated_room[of sample_item "replicate 24 0" 24 False True "\<lambda>_. 0" sample_heap]
    parsed_ok[OF sample_item_parsed(1)] sample_item_text
  by (auto simp: INT_MAX_def sample_item_length)

text \<open>
  C12: \<open>cJSON_Print\<close> and \<open>cJSON_PrintUnformatted\<close>, with any allocator: they return, store nothing
  outside their blocks, leave exactly the returned block allocated (none on failure), and the block
  holds the text of the item.  With an allocator that does not fail they do return the text,
  whenever it and the two bytes fit an int.
\<close>

theorem print_gives_text:
  assumes "item_ok v"
  shows "\<exists>r h'. print (Some v) fmt rea fill h = Inr (r, h') \<and>
     h_live h' = h_live h + (if r = None then 0 else 1) \<and>
     (\<forall>m. r = Some m \<longrightarrow> (\<exists>s. text_of fmt 0 v = Some s \<and> m = s @ [0])) \<and>
     (\<forall>s. (\<forall>i. h_ok h i) \<and> text_of fmt 0 v = Some s \<and> int (length s) + 2 \<le> INT_MAX \<longrightarrow> r = Some (s @ [0]))"
  using print_spec[OF assms, of fmt rea fill h] by (elim exE conjE) (intro exI conjI; assumption)

lemma print_gives_text_witness:
  "\<exists>h'. cJSON_PrintUnformatted (Some sample_item) False (\<lambda>_. 0) sample_heap = Inr (Some (sample_item_text @ [0]), h') \<and>
     h_live h' = 1"
  using print_gives_text[of sample_item False False "\<lambda>_. 0" sample_heap]
    parsed_ok[OF sample_item_parsed(1)] sample_item_text
  by (auto simp: cJSON_PrintUnformatted_def sample_heap_def sample_item_text_def INT_MAX_def)

text \<open>
  \<open>cJSON_PrintBuffered\<close> with a buffer size of 0 and an allocator without realloc reads past its
  block: enlarging the buffer copies one byte of a block that has none.
\<close>

theorem print_buffered_empty_block:
  assumes "text_of fmt 0 v = Some s" and "int (length s) + 2 \<le> INT_MAX" and "\<forall>i. h_ok h i"
  shows "cJSON_PrintBuffered (Some v) 0 fmt False fill h = Inl OOB"
proof (cases h rule: allocate_cases)
  case 1
  let ?p = "new_printbuffer 0 False fmt False fill [] (h\<lparr>h_calls := h_calls h + 1, h_live := h_live h + 1\<rparr>)"
  have "print_value v ?p = Inl OOB"
    by (rule print_value_empty_block[OF _ _ _ _ _ _ assms(1,2)]) (use assms(3) in simp_all)
  then show ?thesis by (simp add: cJSON_PrintBuffered_def 1(2) print_item_def)
qed (use assms(3) in simp)

lemma print_buffered_empty_block_witness:
  "cJSON_PrintBuffered (Some sample_item) 0 False False (\<lambda>_. 0) sample_heap = Inl OOB"
  using print_buffered_empty_block[of False sample_item sample_item_text sample_heap] sample_item_text
  by (simp add: sample_heap_def sample_item_text_def INT_MAX_def)

text \<open>
  C5: parsing gives back what was printed, when the printed text says it.  Every item of the shape the
  parser builds, with strings without NUL and at most 1000 levels, all of whose numbers are denoted
  by the text they are printed as (\<open>number_exact\<close>: every int, and every double that cJSON prints
  without loss), is printed, formatted or not, and the text parses back to the item.
\<close>

theorem print_parse_roundtrip:
  assumes "parsed v" and "c_string v = None" and "nesting v \<le> CJSON_NESTING_LIMIT" and "\<forall>i. h_ok h i"
    and "\<forall>s. text_of fmt 0 v = Some s \<longrightarrow> int (length s) + 2 \<le> INT_MAX"
  shows "\<exists>m h1 e h2. print (Some v) fmt rea fill h = Inr (Some m, h1) \<and>
     cJSON_ParseWithOpts (Some m) rq h1 = Inr (Some v, e, h2)"
proof -
  obtain s where s: "text_of fmt 0 v = Some s" using text_exists[OF assms(1)] by blast
  obtain h1 where p: "print (Some v) fmt rea fill h = Inr (Some (s @ [0]), h1)" "h_ok h1 = h_ok h"
    using print_spec[OF parsed_ok[OF assms(1)], of fmt rea fill h] assms(4,5) s by auto
  then show ?thesis
    using parse_with_opts_text[OF assms(1-3) s, of h1 rq] assms(4) by auto
qed

definition sample_numbers :: cJSON where
  "sample_numbers = Item cJSON_Object None 0 (Fin 0) None
     [Item cJSON_Number None 2 (Fin (5 / 2)) (Some (lit ''x'')) [], Item cJSON_String (Some [104, 10]) 0 (Fin 0) (Some (lit ''y'')) []]"

text \<open>The number 2.5, evaluated as the printer and the parser do.\<close>

lemma sample_number_printed: "fmt_g 15 (5 / 2) = lit ''2.5''"
proof -
  have "quotient_of (5 / 2) = (5, 2)" by code_simp
  then have e: "flog10 (5 / 2) = 0" by (simp add: flog10_def pow10_def nat_digits.simps Let_def)
  have m: "nat (round_half_even (5 / 2 / pow10 (0 - (int 15 - 1)))) = 250000000000000"
    by (simp add: round_half_even_def pow10_def Let_def)
  have "nat_digits 250000000000000 = [50, 53, 48, 48, 48, 48, 48, 48, 48, 48, 48, 48, 48, 48, 48]"
    by (simp add: nat_digits.simps)
  then show ?thesis using m by (simp add: fmt_g_def e Let_def with_point_def strip0_def)
qed

lemma sample_number_read: "strtod (lit ''2.5'') = (Fin (5 / 2), 3)"
proof -
  have "to_dbl (5 / 2) = Fin (5 / 2)" by code_simp
  then show ?thesis
    by (simp add: strtod_def is_digit_def strtod_exp_def digits_val_def digit_val_def pow10_def Let_def)
qed

lemma sample_number_text: "number_text (Item t vs 2 (Fin (5 / 2)) n ch) = Some (lit ''2.5'')"
proof -
  have "(5 / 2 :: rat) \<noteq> of_int 2" by simp
  moreover have "compare_double (Fin (5 / 2)) (Fin (5 / 2))" by (rule compare_double_refl)
  moreover have "sprintf_26 (lit ''2.5'') = Inr (lit ''2.5'')" by (simp add: sprintf_26_def)
  ultimately show ?thesis
    unfolding number_text_def number_chars_def cJSON.sel dbl.case
    by (simp only: if_False sample_number_printed cbind_Inr sample_number_read prod.case) simp
qed

lemma sample_number_exact: "number_exact 2 (Fin (5 / 2))"
proof -
  have "number_to_int (Fin (5 / 2)) = Inr 2" by code_simp
  moreover have "double_ok (Fin (5 / 2))" by (simp add: double_ok_def DBL_MAX_def)
  ultimately show ?thesis
    unfolding number_exact_def sample_number_text option.case sample_number_read by simp
qed

lemma print_parse_roundtrip_witness:
  "\<exists>m h1 e h2. print (Some sample_numbers) False True (\<lambda>_. 0) sample_heap = Inr (Some m, h1) \<and>
     cJSON_ParseWithOpts (Some m) True h1 = Inr (Some sample_numbers, e, h2)"
proof (rule print_parse_roundtrip)
  show "parsed sample_numbers" using sample_number_exact
    by (simp add: sample_numbers_def json_types plain_string_def)
  show "\<forall>s. text_of False 0 sample_numbers = Some s \<longrightarrow> int (length s) + 2 \<le> INT_MAX"
    by (simp add: sample_numbers_def json_types sample_number_text[simplified] sep_def tabs_def after_member_def quoted_def
        cstr_def escaped_def short_escape_def INT_MAX_def)
qed (simp_all add: sample_numbers_def sample_heap_def CJSON_NESTING_LIMIT_def)

section \<open>Editing and minifying JSON\<close>

text \<open>
  C21: minifying what cJSON\_Print gives is what cJSON\_PrintUnformatted gives, when no string ends in a
  backslash.  For every item as in C5 that has no string and no name whose last character is a backslash,
  with an allocator that gives memory, cJSON\_Minify leaves in the block of the formatted text the
  unformatted text and its terminator.  A final backslash is what it cannot handle
  (\<open>minify_corrupts_backslash\<close>).
\<close>

theorem minify_gives_unformatted:
  assumes "parsed v" and "minifiable v" and "\<forall>i. h_ok h i"
    and "\<forall>fmt s. text_of fmt 0 v = Some s \<longrightarrow> int (length s) + 2 \<le> INT_MAX"
  shows "\<exists>m m' u h1 h2. cJSON_Print (Some v) rea fill h = Inr (Some m, h1) \<and>
    cJSON_PrintUnformatted (Some v) rea fill h = Inr (Some u, h2) \<and>
    cJSON_Minify (Some m) = Inr (Some m') \<and> length m' = length m \<and> take (length u) m' = u"
proof -
  obtain s where s: "text_of True 0 v = Some s" using text_exists[OF assms(1)] by blast
  obtain s' where s': "text_of False 0 v = Some s'" "minified s = s'"
    using text_shrinks[OF assms(2), of 0 0] s by (auto simp: shrinks_def dest: spec[of _ "[]"])
  have prints: "\<exists>h'. print (Some v) fmt rea fill h = Inr (Some (t @ [0]), h')" if "text_of fmt 0 v = Some t" for fmt t
    using print_spec[OF parsed_ok[OF assms(1)], of fmt rea fill h] assms(3,4) that by auto
  have "cstr (s @ [0]) = s" using text_no_NUL[OF assms(1) s] by simp
  then obtain m' where "cJSON_Minify (Some (s @ [0])) = Inr (Some m')" "length m' = length (s @ [0])"
    "take (length s' + 1) m' = s' @ [0]"
    using cJSON_Minify_spec[of "s @ [0]"] s'(2) by auto
  then show ?thesis using prints[OF s] prints[OF s'(1)] by (force simp: cJSON_Print_def cJSON_PrintUnformatted_def)
qed

definition sample_plain :: cJSON where
  "sample_plain = Item cJSON_Array None 0 (Fin 0) None
     [Item cJSON_True None 1 (Fin 0) None [], Item cJSON_String (Some [97, 92, 32, 34, 98]) 0 (Fin 0) None []]"

lemma minify_gives_unformatted_witness:
  "\<exists>m m' u h1 h2. cJSON_Print (Some sample_plain) True (\<lambda>_. 0) sample_heap = Inr (Some m, h1) \<and>
    cJSON_PrintUnformatted (Some sample_plain) True (\<lambda>_. 0) sample_heap = Inr (Some u, h2) \<and>
    cJSON_Minify (Some m) = Inr (Some m') \<and> length m' = length m \<and> take (length u) m' = u"
proof (rule minify_gives_unformatted)
  show "parsed sample_plain" by (simp add: sample_plain_def json_types plain_string_def)
  show "minifiable sample_plain" by (simp add: sample_plain_def json_types no_final_backslash_def cstr_def)
  show "\<forall>fmt s. text_of fmt 0 sample_plain = Some s \<longrightarrow> int (length s) + 2 \<le> INT_MAX"
    by (auto simp: sample_plain_def json_types INT_MAX_def quoted_def sep_def cstr_def escaped_def short_escape_def)
qed (simp add: sample_heap_def)

text \<open>
  A string that ends in a backslash breaks cJSON\_Minify.  The text of two strings, a backslash
  and "a b", is valid JSON; the minifier takes the quote behind the escaped backslash for an escaped
  quote, so it removes the blank of the second string, and the two texts parse to different items.
\<close>

definition backslash_text :: bytes where
  "backslash_text = lit ''[\"'' @ [92, 92] @ lit ''\", \"a b\"]'' @ [0]"

theorem minify_corrupts_backslash:
  "cJSON_Minify (Some backslash_text) = Inr (Some (lit ''[\"'' @ [92, 92] @ lit ''\", \"ab\"]'' @ [0, 0])) \<and>
   (case cJSON_ParseWithOpts (Some backslash_text) True sample_heap of
      Inr (v, _) \<Rightarrow> v = Some (Item cJSON_Array None 0 (Fin 0) None
       [Item cJSON_String (Some [92]) 0 (Fin 0) None [], Item cJSON_String (Some (lit ''a b'')) 0 (Fin 0) None []])
    | Inl _ \<Rightarrow> False)"
  by code_simp

text \<open>
  C15: the array operations are list operations.  On a well-formed list of children, adding a detached
  item appends it, inserting it at position k puts it before the k-th child (behind the last one, it
  appends), detaching position k takes the k-th child out and clears its links, a position outside
  the list detaches nothing, and each keeps the list well-formed (NULL at the end, circular prev).
\<close>

theorem array_operations_refine_lists:
  assumes "has_children s a (ys @ zs)" and "n \<in> st_live s" and "n \<notin> set (a # ys @ zs)" and "st_next s n = None"
  shows "(\<exists>s1. cJSON_AddItemToArray (Some a) (Some n) s = Inr (True, s1) \<and>
      has_children s1 a (ys @ zs @ [n]) \<and> st_live s1 = st_live s) \<and>
    (\<exists>s2. cJSON_InsertItemInArray (Some a) (int (length ys)) (Some n) s = Inr (True, s2) \<and>
      has_children s2 a (ys @ n # zs) \<and> st_live s2 = st_live s) \<and>
    (\<exists>s3. cJSON_DetachItemFromArray (Some a) (int (length ys)) s = Inr (first_of zs, s3) \<and>
      has_children s3 a (ys @ tl zs) \<and> st_live s3 = st_live s \<and>
      (zs \<noteq> [] \<longrightarrow> st_next s3 (hd zs) = None \<and> st_prev s3 (hd zs) = None))"
  using array_add[OF assms] array_insert[OF assms] array_detach[OF assms(1)] by blast

definition sample_store :: jstore where
  "sample_store = \<lparr>st_live = {0, 1, 2, 3}, st_next = (\<lambda>_. None)(1 := Some 2),
     st_prev = (\<lambda>_. None)(1 := Some 2, 2 := Some 1), st_child = (\<lambda>_. None)(0 := Some 1),
     st_type = (\<lambda>_. cJSON_NULL)(0 := cJSON_Array), st_valuestring = (\<lambda>_. None), st_valueint = (\<lambda>_. 0),
     st_valuedouble = (\<lambda>_. Fin 0), st_string = (\<lambda>_. None), st_heap = sample_heap\<rparr>"

lemma sample_store_children: "has_children sample_store 0 [1, 2]"
  by (simp add: has_children_def sample_store_def)

lemma array_operations_refine_lists_witness:
  "(\<exists>s1. cJSON_AddItemToArray (Some 0) (Some 3) sample_store = Inr (True, s1) \<and> has_children s1 0 [1, 2, 3]) \<and>
    (\<exists>s2. cJSON_InsertItemInArray (Some 0) 1 (Some 3) sample_store = Inr (True, s2) \<and> has_children s2 0 [1, 3, 2]) \<and>
    (\<exists>s3. cJSON_DetachItemFromArray (Some 0) 1 sample_store = Inr (Some 2, s3) \<and> has_children s3 0 [1])"
  using array_operations_refine_lists[of sample_store 0 "[1]" "[2]" 3] sample_store_children
  by (auto simp: sample_store_def)

text \<open>
  C16: cJSON\_ReplaceItemInArray puts the replacement in the place of the child, keeps the list
  well-formed, and frees the old child with everything it owns and nothing else.
\<close>

theorem replace_frees_the_old_item:
  assumes "has_children s a (ys @ root t # zs)" and "r \<in> st_live s" and "r \<notin> set (a # ys @ root t # zs)"
    and "owns s t" and "distinct (addresses t)" and "finite (st_live s)"
    and "set (addresses t) \<inter> set (a # r # ys @ zs) = {}"
  shows "\<exists>s'. cJSON_ReplaceItemInArray (Some a) (int (length ys)) (Some r) s = Inr (True, s') \<and>
    has_children s' a (ys @ r # zs) \<and> st_live s' = st_live s - set (addresses t) \<and>
    h_live (st_heap s') = h_live (st_heap s) - (\<Sum>b\<leftarrow>addresses t. own_blocks s b)"
  using replace_children[OF assms(1-4) refl assms(5-7)] by (auto simp: release_def)

lemma replace_frees_the_old_item_witness:
  "\<exists>s'. cJSON_ReplaceItemInArray (Some 0) 1 (Some 3) sample_store = Inr (True, s') \<and> has_children s' 0 [1, 3] \<and>
    st_live s' = {0, 1, 2, 3} - {2} \<and> h_live (st_heap s') = h_live (st_heap sample_store) - 1"
  using replace_frees_the_old_item[of sample_store 0 "[1]" "Branch 2 []" "[]" 3] sample_store_children
  by (auto simp: sample_store_def is_ref_def own_blocks_def json_types)

text \<open>
  CJSON\_InsertItemInArray does not test the item it inserts: with NULL as the new item and a
  position inside the list it dereferences NULL, where cJSON\_AddItemToArray refuses.
\<close>

theorem insert_NULL_faults:
  assumes "has_children s a xs" and "which < int (length xs)" and "0 \<le> which"
  shows "cJSON_InsertItemInArray (Some a) which None s = Inl NullDeref \<and>
    cJSON_AddItemToArray (Some a) None s = Inr (False, s)"
  using item_at_children[OF assms(1), of "nat which"] assms(2,3)
  by (auto simp: cJSON_InsertItemInArray_def cJSON_AddItemToArray_def add_item_to_array_def edit_simps)

lemma insert_NULL_faults_witness:
  "cJSON_InsertItemInArray (Some 0) 1 None sample_store = Inl NullDeref"
  using insert_NULL_faults[OF sample_store_children, of 1] by simp

text \<open>
  C11: cJSON\_Compare decides an equality of values.  On two trees that share no item it returns, and
  returns whether the values they hold are related by \<open>json_equal\<close>, whichever comes first; a value
  whose numbers are finite, whose strings are there and whose objects have distinct names equals its
  copies.
\<close>

theorem compare_decides_equality:
  assumes "holds s t v" and "holds s u w" and "distinct (addresses t @ addresses u)" and "finite (st_live s)"
  shows "cJSON_Compare (Some (root t)) (Some (root u)) cs s = Inr (json_equal cs v w, s) \<and>
    cJSON_Compare (Some (root u)) (Some (root t)) cs s = Inr (json_equal cs v w, s) \<and>
    (comparable cs v \<and> w = v \<longrightarrow> json_equal cs v w)"
proof -
  have "distinct (addresses u @ addresses t)" using assms(3) by auto
  then show ?thesis
    using cJSON_Compare_holds[OF assms] cJSON_Compare_holds[OF assms(2,1) _ assms(4)] json_equal_sym json_equal_refl by auto
qed

definition sample_pair :: jstore where
  "sample_pair = sample_store\<lparr>st_live := {0, 1, 2, 3, 4, 5}, st_next := (\<lambda>_. None)(1 := Some 2, 4 := Some 5),
     st_prev := (\<lambda>_. None)(1 := Some 2, 2 := Some 1, 4 := Some 5, 5 := Some 4),
     st_child := (\<lambda>_. None)(0 := Some 1, 3 := Some 4),
     st_type := (\<lambda>_. cJSON_True)(0 := cJSON_Array, 3 := cJSON_Array, 2 := cJSON_Number, 5 := cJSON_Number),
     st_valuedouble := (\<lambda>_. Fin 0)(2 := Fin 7, 5 := Fin 7)\<rparr>"

definition sample_pair_value :: cJSON where
  "sample_pair_value = Item cJSON_Array None 0 (Fin 0) None
     [Item cJSON_True None 0 (Fin 0) None [], Item cJSON_Number None 0 (Fin 7) None []]"

lemma sample_pair_holds:
  "holds sample_pair (Branch 0 [Branch 1 [], Branch 2 []]) sample_pair_value"
  "holds sample_pair (Branch 3 [Branch 4 [], Branch 5 []]) sample_pair_value"
  by (simp_all add: sample_pair_def sample_store_def sample_pair_value_def)

lemma sample_pair_comparable: "comparable True sample_pair_value"
  by (simp add: sample_pair_value_def json_types Let_def)

lemma compare_decides_equality_witness:
  "cJSON_Compare (Some 0) (Some 3) True sample_pair = Inr (True, sample_pair)"
  using compare_decides_equality[OF sample_pair_holds, of True] sample_pair_comparable
  by (simp add: sample_pair_def sample_store_def)

text \<open>
  C10: cJSON\_Duplicate copies or fails cleanly.  With any allocator it returns; either a new tree in
  fresh memory that holds the same value (\<open>copied\<close>: no reference, strings up to their terminator), with
  well-formed lists of children and every new block owned by it; or NULL, when an allocation failed,
  with everything freed.  The items that were there before are not changed.
\<close>

theorem duplicate_copies_or_fails_cleanly:
  assumes "store_ok s" and "holds s t v" and "distinct (addresses t)"
  shows "\<exists>r s'. cJSON_Duplicate (Some (root t)) True s = Inr (r, s') \<and> holds s' t v \<and>
    (case r of
       None \<Rightarrow> st_live s' = st_live s \<and> h_live (st_heap s') = h_live (st_heap s) \<and> \<not> (\<forall>i. h_ok (st_heap s) i)
     | Some c \<Rightarrow> \<exists>u. root u = c \<and> holds s' u (copied v) \<and> well_linked s' u \<and> distinct (addresses u) \<and>
         set (addresses u) \<inter> st_live s = {} \<and> st_live s' = st_live s \<union> set (addresses u) \<and>
         h_live (st_heap s') = h_live (st_heap s) + (\<Sum>a\<leftarrow>addresses u. own_blocks s' a))"
proof -
  obtain r s' where d: "cJSON_Duplicate (Some (root t)) True s = Inr (r, s')"
    "case r of None \<Rightarrow> undone s s' | Some c \<Rightarrow> copy_done s v c s'" using cJSON_Duplicate_spec[OF assms] by blast
  have "holds s' t v" using d(2) holds_kept[OF assms(2)] by (auto simp: undone_def copy_done_def kept_on_def split: option.splits)
  then show ?thesis using d by (auto simp: undone_def copy_done_def split: option.splits)
qed

definition sample_made :: jstore where
  "sample_made = sample_pair\<lparr>st_heap := \<lparr>h_ok = (\<lambda>_. True), h_calls = 6, h_live = 6\<rparr>\<rparr>"

lemma sample_made_ok: "store_ok sample_made" "holds sample_made (Branch 0 [Branch 1 [], Branch 2 []]) sample_pair_value"
  by (auto simp: store_ok_def sample_made_def sample_pair_def sample_store_def sample_pair_value_def)

lemma duplicate_copies_or_fails_cleanly_witness:
  "\<exists>c s'. cJSON_Duplicate (Some 0) True sample_made = Inr (Some c, s') \<and> c \<notin> {0, 1, 2, 3, 4, 5} \<and>
    (\<exists>u. root u = c \<and> holds s' u sample_pair_value \<and> well_linked s' u)"
proof -
  have same: "copied sample_pair_value = sample_pair_value"
    by (simp add: sample_pair_value_def json_types)
  have live: "st_live sample_made = {0, 1, 2, 3, 4, 5}" "\<forall>i. h_ok (st_heap sample_made) i"
    by (simp_all add: sample_made_def sample_pair_def)
  obtain r s' where d: "cJSON_Duplicate (Some 0) True sample_made = Inr (r, s')"
    "case r of
       None \<Rightarrow> st_live s' = st_live sample_made \<and> h_live (st_heap s') = h_live (st_heap sample_made) \<and>
         \<not> (\<forall>i. h_ok (st_heap sample_made) i)
     | Some c \<Rightarrow> \<exists>u. root u = c \<and> holds s' u (copied sample_pair_value) \<and> well_linked s' u \<and> distinct (addresses u) \<and>
         set (addresses u) \<inter> st_live sample_made = {} \<and> st_live s' = st_live sample_made \<union> set (addresses u) \<and>
         h_live (st_heap s') = h_live (st_heap sample_made) + (\<Sum>a\<leftarrow>addresses u. own_blocks s' a)"
    using duplicate_copies_or_fails_cleanly[OF sample_made_ok, unfolded item_tree.sel] by fastforce
  then obtain c u where "r = Some c" "root u = c" "holds s' u sample_pair_value" "well_linked s' u"
    "set (addresses u) \<inter> {0, 1, 2, 3, 4, 5} = {}" using live same by (cases r) auto
  moreover have "c \<in> set (addresses u)" using \<open>root u = c\<close> addresses_root(1)[of u] by simp
  ultimately show ?thesis using d(1) by blast
qed

text \<open>
  C20: a copy compares equal.  When memory is there, cJSON\_Duplicate of a comparable value succeeds and
  cJSON\_Compare finds the copy equal to the original.
\<close>

theorem duplicate_compares_equal:
  assumes "store_ok s" and "holds s t v" and "distinct (addresses t)" and "comparable cs v" and "\<forall>i. h_ok (st_heap s) i"
  shows "\<exists>c s'. cJSON_Duplicate (Some (root t)) True s = Inr (Some c, s') \<and>
    cJSON_Compare (Some (root t)) (Some c) cs s' = Inr (True, s')"
proof -
  obtain r s' where d: "cJSON_Duplicate (Some (root t)) True s = Inr (r, s')"
    "case r of None \<Rightarrow> undone s s' | Some c \<Rightarrow> copy_done s v c s'" using cJSON_Duplicate_spec[OF assms(1-3)] by blast
  then obtain c where c: "r = Some c" "copy_done s v c s'" using assms(5) by (cases r) (auto simp: undone_def)
  then obtain u where u: "root u = c" "holds s' u (copied v)" "distinct (addresses u)"
    "set (addresses u) \<inter> st_live s = {}" "st_live s' = st_live s \<union> set (addresses u)" by (auto simp: copy_done_def)
  have "holds s' t v" using holds_kept[OF assms(2)] c(2) u(5) by (auto simp: copy_done_def kept_on_def)
  moreover have "distinct (addresses t @ addresses u)" using assms(3) u(3,4) holds_live(1)[OF assms(2)] by auto
  moreover have "finite (st_live s')" using c(2) by (auto simp: copy_done_def store_ok_def)
  ultimately have "cJSON_Compare (Some (root t)) (Some c) cs s' = Inr (json_equal cs v (copied v), s')"
    using cJSON_Compare_holds u(1,2) by blast
  then show ?thesis using d(1) c(1) json_equal_refl[OF assms(4)] by (simp add: json_equal_copied)
qed

lemma duplicate_compares_equal_witness:
  "\<exists>c s'. cJSON_Duplicate (Some 0) True sample_made = Inr (Some c, s') \<and>
    cJSON_Compare (Some 0) (Some c) True s' = Inr (True, s')"
  using duplicate_compares_equal[OF sample_made_ok _ sample_pair_comparable]
  by (simp add: sample_made_def)

text \<open>
  C17: cJSON\_CreateIntArray makes the array of the numbers it is given, or nothing.  With any allocator
  it returns; either a new array in fresh memory with well-formed links, whose k-th child is the number
  item of the k-th int (the int and the double both exact), or NULL, when an allocation failed, with
  everything freed.  The items that were there before are not changed.
\<close>

theorem int_array_holds_the_numbers:
  assumes "store_ok s" and "\<forall>i \<in> set ns. INT_MIN \<le> i \<and> i \<le> INT_MAX"
  shows "\<exists>r s'. cJSON_CreateIntArray (Some ns) (int (length ns)) s = Inr (r, s') \<and> kept_on (st_live s) s s' \<and>
    (case r of
       None \<Rightarrow> st_live s' = st_live s \<and> h_live (st_heap s') = h_live (st_heap s) \<and> \<not> (\<forall>k. h_ok (st_heap s) k)
     | Some c \<Rightarrow> \<exists>t. root t = c \<and> well_linked s' t \<and> set (addresses t) \<inter> st_live s = {} \<and>
         st_live s' = st_live s \<union> set (addresses t) \<and>
         holds s' t (Item cJSON_Array None 0 (Fin 0) None
           (map (\<lambda>i. Item cJSON_Number None i (Fin (of_int i)) None []) ns)))"
proof -
  let ?v = "Item cJSON_Array None 0 (Fin 0) None (map (\<lambda>i. number_item (Fin (of_int i)) i) ns)"
  obtain r s' where c: "cJSON_CreateIntArray (Some ns) (int (length ns)) s = Inr (r, s')"
    "case r of None \<Rightarrow> undone s s' | Some c \<Rightarrow> copy_done s ?v c s'"
    using ints.create_array_total[OF assms] unfolding created_def cJSON_CreateIntArray_def by blast
  have "copied ?v = Item cJSON_Array None 0 (Fin 0) None (map (\<lambda>i. Item cJSON_Number None i (Fin (of_int i)) None []) ns)"
    by (simp add: number_item_def json_types)
  note copy = this
  show ?thesis
  proof (cases r)
    case None
    then show ?thesis using c by (intro exI[of _ None] exI[of _ s']) (simp add: undone_def)
  next
    case (Some p)
    obtain t where "root t = p" "holds s' t (copied ?v)" "well_linked s' t" "set (addresses t) \<inter> st_live s = {}"
      "st_live s' = st_live s \<union> set (addresses t)" "kept_on (st_live s) s s'"
      using c(2) unfolding Some option.case copy_done_def by blast
    then show ?thesis unfolding copy
      using c(1) Some by (intro exI[of _ "Some p"] exI[of _ s'] conjI; simp) blast
  qed
qed

lemma int_array_holds_the_numbers_witness:
  "\<exists>r s'. cJSON_CreateIntArray (Some [7, -3]) 2 sample_made = Inr (r, s') \<and>
    (\<exists>c t. r = Some c \<and> root t = c \<and> holds s' t (Item cJSON_Array None 0 (Fin 0) None
      [Item cJSON_Number None 7 (Fin 7) None [], Item cJSON_Number None (-3) (Fin (-3)) None []]))"
proof -
  have live: "\<forall>i. h_ok (st_heap sample_made) i" by (simp add: sample_made_def)
  have "\<forall>i \<in> set [7, -3]. INT_MIN \<le> i \<and> i \<le> INT_MAX" by (simp add: INT_MIN_def INT_MAX_def)
  from int_array_holds_the_numbers[OF sample_made_ok(1) this]
  obtain r s' where r: "cJSON_CreateIntArray (Some [7, -3]) (int (length [7, -3 :: int])) sample_made = Inr (r, s')"
    "case r of
       None \<Rightarrow> st_live s' = st_live sample_made \<and> h_live (st_heap s') = h_live (st_heap sample_made) \<and>
         \<not> (\<forall>k. h_ok (st_heap sample_made) k)
     | Some c \<Rightarrow> \<exists>t. root t = c \<and> well_linked s' t \<and> set (addresses t) \<inter> st_live sample_made = {} \<and>
         st_live s' = st_live sample_made \<union> set (addresses t) \<and>
         holds s' t (Item cJSON_Array None 0 (Fin 0) None
           (map (\<lambda>i. Item cJSON_Number None i (Fin (of_int i)) None []) [7, -3]))" by blast
  show ?thesis
  proof (cases r)
    case None
    then show ?thesis using r(2) live by simp
  next
    case (Some c)
    then obtain t where "root t = c" "holds s' t (Item cJSON_Array None 0 (Fin 0) None
        (map (\<lambda>i. Item cJSON_Number None i (Fin (of_int i)) None []) [7, -3]))" using r(2) by auto
    then show ?thesis using r(1) Some by (intro exI[of _ r] exI[of _ s'] conjI exI[of _ c] exI[of _ t]) simp_all
  qed
qed

text \<open>
  C18: what cJSON\_AddItemToObject adds is found by its name and can be taken out again.  A detached item
  added under a name no member has (in any case of the letters) becomes the last member; the search for
  the name returns it, and cJSON\_DetachItemFromObject gives it back and leaves the members as they were.
\<close>

theorem added_member_is_found:
  assumes "has_children s a xs" and "n \<in> st_live s" and "n \<notin> set (a # xs)" and "st_next s n = None"
    and "h_ok (st_heap s) (h_calls (st_heap s))" and "finite (st_live s)"
    and "\<forall>x \<in> set xs. case_insensitive_strcmp (Some name) (st_string s x) \<noteq> 0"
  shows "\<exists>s1 s2. cJSON_AddItemToObject (Some a) (Some name) (Some n) s = Inr (True, s1) \<and>
    has_children s1 a (xs @ [n]) \<and> item_named (Some a) (Some name) False s1 = Inr (Some n, s1) \<and>
    cJSON_DetachItemFromObject (Some a) (Some name) s1 = Inr (Some n, s2) \<and> has_children s2 a xs \<and>
    st_next s2 n = None \<and> st_live s2 = st_live s"
  by (rule added_is_found[OF assms])

lemma added_member_is_found_witness:
  "\<exists>s1 s2. cJSON_AddItemToObject (Some 0) (Some (lit ''key'')) (Some 3) sample_store = Inr (True, s1) \<and>
    item_named (Some 0) (Some (lit ''key'')) False s1 = Inr (Some 3, s1) \<and>
    cJSON_DetachItemFromObject (Some 0) (Some (lit ''key'')) s1 = Inr (Some 3, s2) \<and> has_children s2 0 [1, 2]"
  using added_member_is_found[of sample_store 0 "[1, 2]" 3 "lit ''key''"] sample_store_children
  by (auto simp: sample_store_def sample_heap_def case_insensitive_strcmp_def)

text \<open>
  C19: cJSON\_AddNumberToObject adds the whole member or nothing.  With any allocator it returns; either
  the new item, now the last member of the object under that name, or NULL, when an allocation failed,
  with the object, its members and the memory in use as before.
\<close>

theorem add_number_is_all_or_nothing:
  assumes "store_ok s" and "has_children s a xs" and "d \<noteq> NaN"
  shows "\<exists>r s'. cJSON_AddNumberToObject (Some a) (Some name) d s = Inr (r, s') \<and>
    (case r of
       None \<Rightarrow> st_live s' = st_live s \<and> has_children s' a xs \<and> kept_on (st_live s) s s' \<and>
         h_live (st_heap s') = h_live (st_heap s) \<and> \<not> (\<forall>i. h_ok (st_heap s) i)
     | Some c \<Rightarrow> c \<notin> st_live s \<and> has_children s' a (xs @ [c]) \<and> st_string s' c = Some (cstr name))"
proof -
  obtain r s' where r: "cJSON_AddNumberToObject (Some a) (Some name) d s = Inr (r, s')"
    "case r of None \<Rightarrow> undone s s'
     | Some c \<Rightarrow> c \<notin> st_live s \<and> has_children s' a (xs @ [c]) \<and> st_string s' c = Some (cstr name) \<and>
         (\<forall>y \<in> set xs. st_string s' y = st_string s y)"
    using numbers.add_new_total[OF assms(1,3,2)] unfolding cJSON_AddNumberToObject_def by blast
  have "has_children s' a xs" if "undone s s'"
    using that assms(2) same_links_mono
    by (intro has_children_frame[OF assms(2)]) (auto simp: undone_def kept_on_def same_items_def has_children_def)
  then show ?thesis using r by (auto simp: undone_def split: option.splits)
qed

lemma add_number_is_all_or_nothing_witness:
  "\<exists>c s'. cJSON_AddNumberToObject (Some 0) (Some (lit ''n'')) (Fin 5) sample_made = Inr (Some c, s') \<and>
    has_children s' 0 [1, 2, c]"
proof -
  have "has_children sample_made 0 [1, 2]"
    by (simp add: has_children_def sample_made_def sample_pair_def sample_store_def)
  from add_number_is_all_or_nothing[OF sample_made_ok(1) this, of "Fin 5" "lit ''n''"] show ?thesis
    by (auto simp: sample_made_def split: option.splits)
qed

section \<open>Starting the program\<close>

text \<open>
  C32: what the command line means.  Whatever calls argp\_parse makes, parse\_opt leaves the last
  readable path given with -f, or none, and whether -D was given; a readable path of 128 bytes or
  more is copied past the end of its array.
\<close>

theorem command_line_keeps_last_file:
  "argp_calls readable calls no_arguments =
     (if \<forall>p \<in> set (given_paths readable calls). length p < 128
      then Inr \<lparr>arg_file = last ([] # given_paths readable calls), arg_daemon = (\<exists>arg. (68, arg) \<in> set calls)\<rparr>
      else Inl OOB)"
  by (simp add: argp_calls_spec no_arguments_def MAX_PATH_def)

lemma command_line_keeps_last_file_witness:
  "argp_calls (\<lambda>p. p \<noteq> lit ''x'') [(102, Some (lit ''a'')), (68, None), (102, Some (lit ''b'')), (102, Some (lit ''x''))] no_arguments =
    Inr \<lparr>arg_file = lit ''b'', arg_daemon = True\<rparr>"
  using command_line_keeps_last_file[of "\<lambda>p. p \<noteq> lit ''x''"
      "[(102, Some (lit ''a'')), (68, None), (102, Some (lit ''b'')), (102, Some (lit ''x''))]"]
  by simp

text \<open>
  C3: main starts the broker of the configuration it was given.  When main reaches its loop, the
  broker is the one of the last readable file of the command line, listening on the descriptor that
  was bound to the socket named after its publisher; and calloc gave more bytes for that name than were asked
  for, or main would not have got so far (C40).  From then on, if the names of the nodes differ, there are
  at most 255 blocks of shared memory and the listening descriptor is below FD\_SETSIZE, no turn of
  the loop faults under the conditions of C1 on accept and on the clients: a fresh descriptor below
  FD\_SETSIZE, a path with room in \<open>sun_path\<close>, no message of more than 4088 bytes, ever, and no
  peer that is gone while it is sent to.
\<close>

theorem main_starts_configured_broker:
  assumes "main_setup e calls h w = Inr (Inr (b, acts))"
  shows "\<exists>path g sacts h'. path = last (given_paths (me_readable e) calls) \<and>
    get_node_start (me_file e path) (me_conf e) h = Inr (Some g, sacts, h') \<and> main_start g (br_sockfd b) w = Inr b \<and>
    (let nm = NAME_PREFIX @ nd_name (br_start b) @ SOCK_NAME_SUFFIX in
      acts = [Unlink nm, Bind (br_sockfd b) nm, Chmod nm 438] \<and>
      (\<exists>room. me_name_calloc e (length nm) = Some room \<and> length nm < room)) \<and>
    (distinct (map nd_name (br_nodes b)) \<and> (\<forall>ss. nd_shm_node_ptr (br_start b) = Some ss \<longrightarrow> length ss \<le> 255) \<and>
      br_sockfd b < FD_SETSIZE \<and> no_sigpipe w \<longrightarrow>
      (\<forall>b' ev. broker_run b b' \<and> accept_ok b' ev \<and> below_fd_setsize ev \<and> client_behaves ev \<longrightarrow>
        (\<exists>go b''. main_step ev b' = Inr (go, b''))))"
proof -
  obtain path g sacts h' where p: "path = last (given_paths (me_readable e) calls)"
    "get_node_start (me_file e path) (me_conf e) h = Inr (Some g, sacts, h')" "main_start g (br_sockfd b) w = Inr b"
    "let nm = NAME_PREFIX @ nd_name (br_start b) @ SOCK_NAME_SUFFIX in
      acts = [Unlink nm, Bind (br_sockfd b) nm, Chmod nm 438] \<and>
      (\<exists>room. me_name_calloc e (length nm) = Some room \<and> length nm < room)"
    using main_setup_broker[OF assms] by blast
  have "\<exists>go b''. main_step ev b' = Inr (go, b'')"
    if "distinct (map nd_name (br_nodes b))" "\<forall>ss. nd_shm_node_ptr (br_start b) = Some ss \<longrightarrow> length ss \<le> 255"
      "br_sockfd b < FD_SETSIZE" "no_sigpipe w"
      and run: "broker_run b b'" and turn: "accept_ok b' ev" "below_fd_setsize ev" "client_behaves ev" for b' ev
  proof -
    have "kept b b'" using broker_run_kept[OF run main_start_inv[OF p(2,3) that(1)]] that(2-4) by blast
    then show ?thesis using main_step_kept[OF _ turn] by (auto simp: kept_def)
  qed
  then show ?thesis using p by (intro exI[of _ path] exI[of _ g] exI[of _ sacts] exI[of _ h']) simp
qed

definition sample_main :: main_env where
  "sample_main = \<lparr>me_readable = (\<lambda>p. p = lit ''ih.json''), me_file = (\<lambda>_. sample_file), me_conf = sample_conf,
     me_name_calloc = (\<lambda>n. Some (n + 8)), me_socket = 3, me_bind_ok = True, me_rbuf_calloc = True\<rparr>"

lemma sample_main_starts:
  "case main_setup sample_main [(102, Some (lit ''none'')), (102, Some (lit ''ih.json''))] sample_heap (\<lambda>_. None) of
     Inr (Inr (b, acts)) \<Rightarrow> br_sockfd b = 3 \<and> map nd_name (br_nodes b) = [[]] \<and> nd_shm_node_ptr (br_start b) = None
   | _ \<Rightarrow> False"
  by code_simp

lemma main_starts_configured_broker_witness:
  "\<exists>b acts g sacts h' go b''.
    main_setup sample_main [(102, Some (lit ''none'')), (102, Some (lit ''ih.json''))] sample_heap (\<lambda>_. None) = Inr (Inr (b, acts)) \<and>
    get_node_start sample_file sample_conf sample_heap = Inr (Some g, sacts, h') \<and>
    main_step SelTimeout b = Inr (go, b'')"
proof -
  obtain b acts where b: "main_setup sample_main [(102, Some (lit ''none'')), (102, Some (lit ''ih.json''))] sample_heap (\<lambda>_. None) =
      Inr (Inr (b, acts))" "map nd_name (br_nodes b) = [[]]" "nd_shm_node_ptr (br_start b) = None"
      "br_sockfd b = 3"
    using sample_main_starts by (auto split: sum.splits prod.splits)
  obtain g sacts h' where g: "get_node_start sample_file sample_conf sample_heap = Inr (Some g, sacts, h')"
    "distinct (map nd_name (br_nodes b)) \<and> (\<forall>ss. nd_shm_node_ptr (br_start b) = Some ss \<longrightarrow> length ss \<le> 255) \<and>
      br_sockfd b < FD_SETSIZE \<and> no_sigpipe (\<lambda>_. None) \<longrightarrow>
      (\<forall>b' ev. broker_run b b' \<and> accept_ok b' ev \<and> below_fd_setsize ev \<and> client_behaves ev \<longrightarrow>
        (\<exists>go b''. main_step ev b' = Inr (go, b'')))"
    using main_starts_configured_broker[OF b(1)] by (auto simp: sample_main_def)
  have "distinct (map nd_name (br_nodes b))" "br_sockfd b < FD_SETSIZE" using b(2,4) by (simp_all add: FD_SETSIZE_def)
  then have "\<forall>b' ev. broker_run b b' \<and> accept_ok b' ev \<and> below_fd_setsize ev \<and> client_behaves ev \<longrightarrow>
      (\<exists>go b''. main_step ev b' = Inr (go, b''))"
    using g(2) b(3) no_sockets_quiet by simp
  then obtain go b'' where "main_step SelTimeout b = Inr (go, b'')"
    using sample_timeout broker_run.start[of b] by blast
  then show ?thesis using b(1) g(1) by (intro exI conjI)
qed

end
